(* ===== verification/Prelude.thy ===== *)
theory Prelude
  imports Main "HOL-Library.Word" "HOL-Library.Monad_Syntax"
begin

unbundle bit_operations_syntax

text \<open>
  What every component of the development shares: the integer types that \<open>hash.h\<close> declares
  (lines 9 to 12), byte arrays as lists of 8-bit words, the little-endian view of a byte array
  that \<open>memcpy\<close> into an integer gives on the x86 targets of the project, the splitting of a
  byte array into blocks, checked array accesses, and the collections of lemmas that the
  component proofs use.

  An access outside an object is undefined in C++. Definitions that can make one return an
  \<open>option\<close> and \<open>None\<close> stands for it; no other failure is folded into \<open>None\<close>.
\<close>

type_synonym unit8 = "8 word"
type_synonym unit16 = "16 word"
type_synonym unit32 = "32 word"
type_synonym unit64 = "64 word"
type_synonym bytes = "unit8 list"

named_theorems le_simps \<open>little-endian values and their encodings\<close>
named_theorems block_simps \<open>splitting lists into blocks\<close>
named_theorems len_simps \<open>lengths of the byte arrays the components build\<close>


section \<open>Little-endian integers\<close>

text \<open>
  \<open>memcpy(&v, p, n)\<close> into an integer of \<open>n\<close> bytes gives the value \<open>le_word\<close> of the bytes, and
  \<open>memcpy(p, &v, n)\<close> writes the bytes \<open>le_bytes n v\<close>.
\<close>

primrec le_nat :: "bytes \<Rightarrow> nat" where
  "le_nat [] = 0"
| "le_nat (b # bs) = unat b + 256 * le_nat bs"

primrec le_put :: "nat \<Rightarrow> nat \<Rightarrow> bytes" where
  "le_put 0 n = []"
| "le_put (Suc k) n = word_of_nat (n mod 256) # le_put k (n div 256)"

definition le_word :: "bytes \<Rightarrow> 'a::len word" where
  "le_word bs = word_of_nat (le_nat bs)"

definition le_bytes :: "nat \<Rightarrow> 'a::len word \<Rightarrow> bytes" where
  "le_bytes k w = le_put k (unat w)"

lemma unat_byte_less [simp]: "unat (b :: unit8) < 256"
  using unsigned_less [of b, where ?'a = nat] by simp

lemma unat_byte_le: "unat (b :: unit8) \<le> 255"
  using unat_byte_less [of b] by linarith

lemma unat_byte_of_nat: "n < 512 \<Longrightarrow> unat (word_of_nat n :: unit8) = (if n < 256 then n else n - 256)"
  by (auto simp: unat_of_nat mod_if)

lemma le_nat_append [le_simps]:
  "le_nat (xs @ ys) = le_nat xs + 256 ^ length xs * le_nat ys"
  by (induction xs) (auto simp: algebra_simps)

lemma le_nat_zeros [simp]: "le_nat (replicate n 0) = 0"
  by (induction n) simp_all

lemma le_nat_less: "le_nat bs < 256 ^ length bs"
proof (induction bs)
  case (Cons b bs)
  with unat_byte_less [of b] show ?case
    by (simp del: unat_byte_less)
qed simp

lemma length_le_put [simp]: "length (le_put k n) = k"
  by (induction k arbitrary: n) auto

lemma length_le_bytes [simp, len_simps]: "length (le_bytes k w) = k"
  by (simp add: le_bytes_def)

lemma unat_word8_of_mod [simp]: "unat (word_of_nat (n mod 256) :: unit8) = n mod 256"
  by (simp add: unat_of_nat)

lemma le_nat_le_put [le_simps]: "le_nat (le_put k n) = n mod 256 ^ k"
proof (induction k arbitrary: n)
  case (Suc k)
  have "n mod (256 * 256 ^ k) = 256 * (n div 256 mod 256 ^ k) + n mod 256"
    by (rule mod_mult2_eq)
  with Suc show ?case by simp
qed simp

lemma le_put_le_nat [le_simps]: "le_put (length bs) (le_nat bs) = bs"
proof (induction bs)
  case (Cons b bs)
  have "unat b < 256"
    by (rule unat_byte_less)
  then have "(unat b + 256 * le_nat bs) mod 256 = unat b"
    and "(unat b + 256 * le_nat bs) div 256 = le_nat bs"
    by simp_all
  with Cons show ?case by simp
qed simp

lemma unat_le_word:
  assumes "8 * length bs \<le> LENGTH('a::len)"
  shows "unat (le_word bs :: 'a word) = le_nat bs"
proof -
  have "(256::nat) ^ length bs = 2 ^ (8 * length bs)"
    by (simp add: power_mult)
  also have "\<dots> \<le> 2 ^ LENGTH('a)"
    using assms by simp
  finally have "le_nat bs < 2 ^ LENGTH('a)"
    using le_nat_less [of bs] by simp
  then show ?thesis
    by (simp add: le_word_def unat_of_nat)
qed

lemma le_bytes_le_word [le_simps]:
  assumes "8 * length bs \<le> LENGTH('a::len)" and "k = length bs"
  shows "le_bytes k (le_word bs :: 'a word) = bs"
  using assms by (simp add: le_bytes_def unat_le_word le_put_le_nat)

lemma le_word_le_bytes [le_simps]:
  fixes w :: "'a::len word"
  assumes "LENGTH('a) \<le> 8 * k"
  shows "le_word (le_bytes k w) = w"
proof -
  have "(2::nat) ^ LENGTH('a) \<le> 2 ^ (8 * k)"
    using assms by simp
  then have "unat w < 2 ^ (8 * k)"
    by (rule order_less_le_trans [OF unsigned_less])
  then have "unat w < 256 ^ k"
    by (simp add: power_mult)
  then show ?thesis
    by (simp add: le_word_def le_bytes_def le_nat_le_put)
qed

lemma bit_le_nat: "bit (le_nat bs) n \<longleftrightarrow> n div 8 < length bs \<and> bit (bs ! (n div 8)) (n mod 8)"
proof (induction bs arbitrary: n)
  case (Cons b bs)
  have sum: "unat b + 256 * le_nat bs = unat b OR push_bit 8 (le_nat bs)"
  proof -
    have "unat b + push_bit 8 (le_nat bs) = unat b OR push_bit 8 (le_nat bs)"
      by (intro disjunctive_add_eq_or bit_eqI)
        (auto simp: bit_simps dest: bit_imp_le_length)
    then show ?thesis
      by (simp add: push_bit_eq_mult mult.commute)
  qed
  show ?case
  proof (cases "n < 8")
    case True
    then show ?thesis
      by (simp add: sum bit_simps)
  next
    case False
    then obtain m where n: "n = m + 8"
      by (metis add.commute le_Suc_ex linorder_not_less)
    have "\<not> bit (unat b) n"
      using False by (auto simp: bit_simps dest: bit_imp_le_length)
    moreover have "n div 8 = Suc (m div 8)" and "n mod 8 = m mod 8"
      using n by simp_all
    ultimately show ?thesis
      using Cons.IH [of m] by (simp add: sum bit_simps n)
  qed
qed simp

lemma bit_le_word:
  "bit (le_word bs :: 'a::len word) n \<longleftrightarrow>
     n < LENGTH('a) \<and> n div 8 < length bs \<and> bit (bs ! (n div 8)) (n mod 8)"
  by (simp add: le_word_def bit_simps bit_le_nat)

lemma le_word_inject:
  assumes "length xs = length ys" and "8 * length xs \<le> LENGTH('a::len)"
    and "(le_word xs :: 'a word) = le_word ys"
  shows "xs = ys"
proof -
  have "le_bytes (length xs) (le_word xs :: 'a word) = le_bytes (length ys) (le_word ys :: 'a word)"
    using assms by simp
  then show ?thesis
    using assms(1,2) by (simp add: le_bytes_le_word)
qed


lemma word32_of_nat_less:
  "a < 2 ^ 32 \<Longrightarrow> b < 2 ^ 32 \<Longrightarrow> (word_of_nat a < (word_of_nat b :: unit32)) \<longleftrightarrow> a < b"
  by (simp add: word_less_nat_alt unat_of_nat)


section \<open>Blocks\<close>

text \<open>
  \<open>chunks n xs\<close> is the list of the full blocks of \<open>n\<close> elements at the start of \<open>xs\<close>; a shorter
  block at the end is left out.
\<close>

fun chunks :: "nat \<Rightarrow> 'a list \<Rightarrow> 'a list list" where
  "chunks n xs = (if n = 0 \<or> length xs < n then [] else take n xs # chunks n (drop n xs))"

declare chunks.simps [simp del]

lemma chunks_short [simp, block_simps]: "length xs < n \<Longrightarrow> chunks n xs = []"
  by (simp add: chunks.simps)

lemma chunks_step [block_simps]:
  "0 < n \<Longrightarrow> n \<le> length xs \<Longrightarrow> chunks n xs = take n xs # chunks n (drop n xs)"
  by (simp add: chunks.simps)

lemma chunks_block [block_simps]:
  "length xs = n \<Longrightarrow> 0 < n \<Longrightarrow> chunks n (xs @ ys) = xs # chunks n ys"
  by (simp add: chunks_step)

lemma length_in_chunks: "c \<in> set (chunks n xs) \<Longrightarrow> length c = n"
proof (induction n xs rule: chunks.induct)
  case (1 n xs)
  show ?case
  proof (cases "n = 0 \<or> length xs < n")
    case True
    with "1.prems" show ?thesis by (simp add: chunks.simps)
  next
    case False
    with "1.prems" have "c = take n xs \<or> c \<in> set (chunks n (drop n xs))"
      by (simp add: chunks.simps [of n xs])
    with False "1.IH" show ?thesis by auto
  qed
qed

lemma length_chunks [simp, len_simps]: "length (chunks n xs) = length xs div n"
proof (induction n xs rule: chunks.induct)
  case (1 n xs)
  show ?case
  proof (cases "n = 0 \<or> length xs < n")
    case True
    then show ?thesis by (auto simp: chunks.simps [of n xs])
  next
    case False
    then have "length (chunks n xs) = Suc ((length xs - n) div n)"
      using "1.IH" by (simp add: chunks.simps [of n xs])
    also have "\<dots> = length xs div n"
      using False by (simp add: le_div_geq)
    finally show ?thesis .
  qed
qed

lemma chunks_append [block_simps]:
  "n dvd length xs \<Longrightarrow> chunks n (xs @ ys) = chunks n xs @ chunks n ys"
proof (induction n xs rule: chunks.induct)
  case (1 n xs)
  show ?case
  proof (cases "n = 0 \<or> length xs < n")
    case True
    with "1.prems" have "xs = [] \<or> n = 0"
      by (auto dest: dvd_imp_le)
    then show ?thesis
      by (auto simp: chunks.simps [of n xs] chunks.simps [of 0])
  next
    case False
    then have len: "n \<le> length xs" and pos: "0 < n" by auto
    then have "n dvd length (drop n xs)"
      using "1.prems" by (simp add: dvd_diff_nat)
    with False "1.IH" have "chunks n (drop n xs @ ys) = chunks n (drop n xs) @ chunks n ys"
      by blast
    with len pos show ?thesis
      by (simp add: chunks_step)
  qed
qed

lemma concat_chunks: "n dvd length xs \<Longrightarrow> 0 < n \<Longrightarrow> concat (chunks n xs) = xs"
proof (induction n xs rule: chunks.induct)
  case (1 n xs)
  show ?case
  proof (cases "length xs < n")
    case True
    with "1.prems" show ?thesis by (auto dest: dvd_imp_le)
  next
    case False
    then have "n dvd length (drop n xs)"
      using "1.prems" by (simp add: dvd_diff_nat)
    with False "1.IH" "1.prems"(2) have "concat (chunks n (drop n xs)) = drop n xs"
      by blast
    with False "1.prems"(2) show ?thesis
      by (simp add: chunks_step)
  qed
qed

lemma nth_chunks:
  "i < length xs div n \<Longrightarrow> chunks n xs ! i = take n (drop (n * i) xs)"
proof (induction n xs arbitrary: i rule: chunks.induct)
  case (1 n xs)
  have pos: "0 < n" and len: "n \<le> length xs"
    using "1.prems" by (auto intro!: gr0I, metis div_less less_zeroE linorder_not_less)
  show ?case
  proof (cases i)
    case 0
    with pos len show ?thesis by (simp add: chunks_step)
  next
    case (Suc j)
    with "1.prems" pos len have "j < length (drop n xs) div n"
      by (simp add: le_div_geq)
    with "1.IH" pos len have "chunks n (drop n xs) ! j = take n (drop (n * j) (drop n xs))"
      by simp
    with Suc pos len show ?thesis
      by (simp add: chunks_step add.commute)
  qed
qed

definition le_words :: "bytes \<Rightarrow> unit32 list" where
  "le_words bs = map le_word (chunks 4 bs)"

lemma length_le_words [simp, len_simps]: "length (le_words bs) = length bs div 4"
  by (simp add: le_words_def)

lemma nth_le_words:
  "k < length bs div 4 \<Longrightarrow> le_words bs ! k = le_word (take 4 (drop (4 * k) bs))"
  by (simp add: le_words_def nth_chunks)

lemma le_words_append: "4 dvd length xs \<Longrightarrow> le_words (xs @ ys) = le_words xs @ le_words ys"
  by (simp add: le_words_def chunks_append)

lemma le_words_zeros: "le_words (replicate (4 * n) 0) = replicate n 0"
proof (rule nth_equalityI)
  fix i assume "i < length (le_words (replicate (4 * n) 0))"
  then have "i < n" by simp
  moreover have "4 \<le> 4 * n - 4 * i"
    using \<open>i < n\<close> by (simp flip: diff_mult_distrib2)
  moreover have "le_word (replicate 4 0) = (0 :: unit32)"
    by (simp add: le_word_def numeral_eq_Suc)
  ultimately show "le_words (replicate (4 * n) 0) ! i = replicate n 0 ! i"
    by (simp add: nth_le_words min_absorb1)
qed simp

lemma le_word_Cons: "(le_word (b # bs) :: 'a::len word) = ucast b OR push_bit 8 (le_word bs)"
proof (rule bit_word_eqI)
  fix n assume n: "n < LENGTH('a)"
  show "bit (le_word (b # bs) :: 'a word) n = bit (ucast b OR push_bit 8 (le_word bs) :: 'a word) n"
  proof (cases "n < 8")
    case True
    with n show ?thesis by (simp add: bit_le_word bit_simps)
  next
    case False
    then obtain m where "n = m + 8" by (metis add.commute le_Suc_ex not_less)
    moreover have "(m + 8) div 8 = Suc (m div 8)" by simp
    ultimately show ?thesis
      using n by (auto simp: bit_le_word bit_simps dest: bit_imp_le_length)
  qed
qed

text \<open>XOR with a shifted byte writes a byte that was zero.\<close>

lemma le_word_xor_byte:
  assumes "m < length c" and "c ! m = 0" and "length c \<le> 4"
  shows "le_word c XOR push_bit (8 * m) (ucast (v :: unit8)) = (le_word (c[m := v]) :: unit32)"
proof (rule bit_word_eqI)
  fix n assume n: "n < LENGTH(32)"
  have v: "bit v i \<Longrightarrow> i < 8" for i
    by (auto dest: bit_imp_le_length)
  have "n div 8 = m \<Longrightarrow> 8 * m \<le> n \<and> n - 8 * m = n mod 8"
    by (auto simp: minus_mult_div_eq_mod)
  moreover have "n div 8 = m" if "8 * m \<le> n" and "n - 8 * m < 8"
    using that by (simp add: div_nat_eqI)
  ultimately show "bit (le_word c XOR push_bit (8 * m) (ucast v) :: unit32) n = bit (le_word (c[m := v]) :: unit32) n"
    using assms n v by (cases "n div 8 = m") (auto simp: bit_le_word bit_simps)
qed

lemma le_words_xor_byte:
  assumes "i < length b" and "4 dvd length b" and "b ! i = 0"
  shows "(le_words b)[i div 4 := le_words b ! (i div 4) XOR push_bit (8 * (i mod 4)) (ucast (v :: unit8))]
    = le_words (b[i := v])"
proof (rule nth_equalityI)
  fix k
  assume "k < length ((le_words b)[i div 4 := le_words b ! (i div 4) XOR push_bit (8 * (i mod 4)) (ucast v)])"
  then have k: "k < length b div 4" by simp
  have i: "i = 4 * (i div 4) + i mod 4" by simp
  have len: "4 * k + 4 \<le> length b"
    using k assms(2) by (auto elim!: dvdE)
  show "(le_words b)[i div 4 := le_words b ! (i div 4) XOR push_bit (8 * (i mod 4)) (ucast v)] ! k
      = le_words (b[i := v]) ! k"
  proof (cases "k = i div 4")
    case True
    let ?c = "take 4 (drop (4 * k) b)"
    have "take 4 (drop (4 * k) (b[i := v])) = ?c[i mod 4 := v]"
      using True i by (simp add: drop_update_swap take_update_swap minus_mult_div_eq_mod)
    moreover have "le_word ?c XOR push_bit (8 * (i mod 4)) (ucast v) = (le_word (?c[i mod 4 := v]) :: unit32)"
      using True len assms(3) by (intro le_word_xor_byte) simp_all
    ultimately show ?thesis
      using k True by (simp add: nth_le_words)
  next
    case False
    then have "i < 4 * k \<or> 4 * k + 4 \<le> i" by linarith
    then have "take 4 (drop (4 * k) (b[i := v])) = take 4 (drop (4 * k) b)"
      by (auto simp: drop_update_cancel drop_update_swap take_update_cancel)
    with False k show ?thesis
      by (simp add: nth_le_words)
  qed
qed simp

lemma le_put_add: "le_put (k + l) n = le_put k n @ le_put l (n div 256 ^ k)"
  by (induction k arbitrary: n) (simp_all add: div_mult2_eq)

lemma le_word_le_put4: "le_word (le_put 4 n) = (word_of_nat n :: unit32)"
  by (simp add: le_word_def le_nat_le_put word_unat_eq_iff unat_of_nat)

lemma unat_drop_bit_div: "unat (drop_bit n w) = unat w div 2 ^ n"
  by (simp only: unat_drop_bit_eq) (simp add: drop_bit_eq_div)

lemma unat_ucast_8_16 [simp]: "unat (ucast (x :: unit8) :: unit16) = unat x"
  using less_trans [OF unat_byte_less, of 65536 x] by (simp add: unsigned_ucast_eq take_bit_nat_eq_self)

lemma unat_ucast_mod: "unat (ucast w :: 'a::len word) = unat w mod 2 ^ LENGTH('a)"
  by (simp add: unsigned_ucast_eq take_bit_eq_mod)

lemma unat_and_mask_eq: "unat (w AND mask n :: 'a::len word) = unat w mod 2 ^ n"
  by (simp only: take_bit_eq_mask [symmetric] unsigned_take_bit_eq) (simp add: take_bit_eq_mod)

lemma list_of_length_4:
  assumes "length xs = 4"
  obtains x0 x1 x2 x3 where "xs = [x0, x1, x2, x3]"
  using assms by (auto simp: length_Suc_conv numeral_eq_Suc)


section \<open>Checked accesses\<close>

text \<open>
  \<open>memcpy(dst, src + i, n)\<close> reads \<open>slice src i n\<close> and \<open>memcpy(dst + i, ys, n)\<close> makes \<open>dst\<close> into
  \<open>blit dst i ys\<close>; both are \<open>None\<close> when the access leaves the array.
\<close>

definition slice :: "'a list \<Rightarrow> nat \<Rightarrow> nat \<Rightarrow> 'a list option" where
  "slice xs i n = (if i + n \<le> length xs then Some (take n (drop i xs)) else None)"

definition blit :: "'a list \<Rightarrow> nat \<Rightarrow> 'a list \<Rightarrow> 'a list option" where
  "blit xs i ys =
     (if i + length ys \<le> length xs then Some (take i xs @ ys @ drop (i + length ys) xs) else None)"

definition at :: "'a list \<Rightarrow> nat \<Rightarrow> 'a option" where
  "at xs i = (if i < length xs then Some (xs ! i) else None)"

text \<open>
  \<open>memput dst i ys\<close> is \<open>memcpy(dst + i, ys, n)\<close> where the write stays inside \<open>dst\<close>. Where it does
  not, the result is longer than \<open>dst\<close>, so an invariant that fixes the length of an array also
  says that every write into it was in range.
\<close>

definition memput :: "'a list \<Rightarrow> nat \<Rightarrow> 'a list \<Rightarrow> 'a list" where
  "memput xs i ys = take i xs @ ys @ drop (i + length ys) xs"

lemma length_memput [len_simps]: "i + length ys \<le> length xs \<Longrightarrow> length (memput xs i ys) = length xs"
  by (simp add: memput_def)

lemma take_memput: "i \<le> length xs \<Longrightarrow> take (i + length ys) (memput xs i ys) = take i xs @ ys"
  by (simp add: memput_def)

lemma memput_Nil [simp]: "memput xs i [] = xs"
  by (simp add: memput_def)

lemma memput_update:
  assumes "i + length ys < length xs"
  shows "(memput xs i ys)[i + length ys := y] = memput xs i (ys @ [y])"
proof -
  have "drop (i + length ys) xs = xs ! (i + length ys) # drop (Suc (i + length ys)) xs"
    using assms by (simp add: Cons_nth_drop_Suc)
  with assms show ?thesis
    by (simp add: memput_def list_update_append)
qed

lemma memput_Cons:
  "i < length xs \<Longrightarrow> memput (xs[i := y]) (i + 1) ys = memput xs i (y # ys)"
  by (simp add: memput_def drop_update_cancel take_Suc_conv_app_nth)

lemma blit_memput: "i + length ys \<le> length xs \<Longrightarrow> blit xs i ys = Some (memput xs i ys)"
  by (simp add: blit_def memput_def)

lemma slice_0: "n \<le> length xs \<Longrightarrow> slice xs 0 n = Some (take n xs)"
  by (simp add: slice_def)

lemma blit_0: "length ys \<le> length xs \<Longrightarrow> blit xs 0 ys = Some (ys @ drop (length ys) xs)"
  by (simp add: blit_def)

lemma slice_append [simp]: "slice (xs @ ys) 0 (length xs) = Some xs"
  by (simp add: slice_def)

lemma slice_shift: "slice (xs @ ys) (length xs + i) n = slice ys i n"
  by (simp add: slice_def add.assoc)

lemma length_slice: "slice xs i n = Some ys \<Longrightarrow> length ys = n"
  by (auto simp: slice_def split: if_splits)

lemma length_blit: "blit xs i ys = Some zs \<Longrightarrow> length zs = length xs"
  by (auto simp: blit_def split: if_splits)

lemma slice_blit: "blit xs i ys = Some zs \<Longrightarrow> slice zs i (length ys) = Some ys"
  by (auto simp: blit_def slice_def split: if_splits)


section \<open>C strings\<close>

text \<open>
  A C string is the list of its bytes without the terminating zero; \<open>ascii\<close> turns a literal into
  one, and \<open>c_str\<close> reads one from a buffer.
\<close>

definition ascii :: "string \<Rightarrow> bytes" where
  "ascii s = map of_char s"

definition c_str :: "bytes \<Rightarrow> bytes" where
  "c_str buf = takeWhile (\<lambda>c. c \<noteq> 0) buf"

lemma length_ascii [simp]: "length (ascii s) = length s"
  by (simp add: ascii_def)

lemma c_str_append: "0 \<notin> set s \<Longrightarrow> c_str (s @ 0 # rest) = s"
  by (induction s) (auto simp: c_str_def)


section \<open>Evaluation\<close>

lemma funpow_eval: "(f ^^ numeral n) x = (f ^^ pred_numeral n) (f x)"
  by (simp only: numeral_eq_Suc [of n] funpow_Suc_right comp_apply)

lemma upt_eval:
  "[0..<numeral n] = 0 # [Suc 0..<numeral n]"
  "[Suc 0..<numeral n] = (if 1 < (numeral n :: nat) then Suc 0 # [2..<numeral n] else [])"
  by (simp_all add: upt_rec [of 0] upt_rec [of "Suc 0"] numeral_2_eq_2)

lemma replicate_eval: "replicate (numeral n) x = x # replicate (pred_numeral n) x"
  by (simp only: numeral_eq_Suc replicate.simps)

lemma le_put_eval:
  "le_put (numeral k) n = word_of_nat (n mod 256) # le_put (pred_numeral k) (n div 256)"
  by (simp only: numeral_eq_Suc [of k] le_put.simps)

end
