(* ===== verification/Merkle_Damgard.thy ===== *)
theory Merkle_Damgard
  imports Prelude
begin

text \<open>
  The abstract specification that the two hash functions of \<open>hash.h\<close> implement: a message is
  followed by the byte 0x80, by zero bytes and by an encoding of its length in 8 bytes, so that
  the whole is a multiple of 64 bytes, and a compression function runs over its 64-byte blocks.
  The locale \<open>md_hash\<close> names what a hash function has to promise for this construction; RIPEMD-160
  and SHA-256 interpret it.
\<close>

section \<open>The construction\<close>

definition md_zeros :: "nat \<Rightarrow> nat" where
  "md_zeros l = (119 - l mod 64) mod 64"

definition md_pad :: "(nat \<Rightarrow> bytes) \<Rightarrow> bytes \<Rightarrow> bytes" where
  "md_pad enc m = m @ [0x80] @ replicate (md_zeros (length m)) 0 @ enc (length m)"

definition md_run :: "('h \<Rightarrow> bytes \<Rightarrow> 'h) \<Rightarrow> 'h \<Rightarrow> bytes \<Rightarrow> 'h" where
  "md_run cf h m = foldl cf h (chunks 64 m)"

definition md_digest ::
  "('h \<Rightarrow> bytes \<Rightarrow> 'h) \<Rightarrow> (nat \<Rightarrow> bytes) \<Rightarrow> 'h \<Rightarrow> ('h \<Rightarrow> bytes) \<Rightarrow> bytes \<Rightarrow> bytes" where
  "md_digest cf enc h0 out m = out (md_run cf h0 (md_pad enc m))"

text \<open>The full blocks of a message, and the bytes after them.\<close>

definition full64 :: "bytes \<Rightarrow> bytes" where
  "full64 m = take (64 * (length m div 64)) m"

definition rest64 :: "bytes \<Rightarrow> bytes" where
  "rest64 m = drop (64 * (length m div 64)) m"

lemma full_rest: "full64 m @ rest64 m = m"
  by (simp add: full64_def rest64_def)

lemma length_full64: "length (full64 m) = 64 * (length m div 64)"
  by (simp add: full64_def)

lemma length_rest64 [simp]: "length (rest64 m) = length m mod 64"
  by (simp add: rest64_def minus_mult_div_eq_mod)

lemma dvd_full64 [simp]: "64 dvd length (full64 m)"
  by (simp add: length_full64)

lemma rest64_dvd: "64 dvd length m \<Longrightarrow> rest64 m = []"
  by (simp add: rest64_def)

lemma rest64_append:
  "length (rest64 m) + length d < 64 \<Longrightarrow> rest64 (m @ d) = rest64 m @ d"
proof -
  assume small: "length (rest64 m) + length d < 64"
  have "length m mod 64 + length d < 64"
    using small by simp
  then have "(length m + length d) div 64 = length m div 64"
    by (subst div_add1_eq) simp
  then show ?thesis
    by (simp add: rest64_def)
qed

lemma md_run_append:
  "64 dvd length m \<Longrightarrow> md_run cf h (m @ n) = md_run cf (md_run cf h m) n"
  by (simp add: md_run_def chunks_append)

lemma md_run_short [simp]: "length m < 64 \<Longrightarrow> md_run cf h m = h"
  by (simp add: md_run_def)

lemma md_run_block [simp]: "length b = 64 \<Longrightarrow> md_run cf h (b @ m) = md_run cf (cf h b) m"
  by (simp add: md_run_def chunks_block)

lemma md_run_one [simp]: "length b = 64 \<Longrightarrow> md_run cf h b = cf h b"
  using md_run_block [of b cf h "[]"] by (simp add: md_run_def)

lemma md_run_full: "md_run cf h (full64 m) = md_run cf h m"
proof -
  have "md_run cf h m = md_run cf h (full64 m @ rest64 m)"
    by (simp only: full_rest)
  also have "\<dots> = md_run cf (md_run cf h (full64 m)) (rest64 m)"
    by (simp add: md_run_append)
  also have "\<dots> = md_run cf h (full64 m)"
    by simp
  finally show ?thesis by simp
qed

lemma md_run_split: "md_run cf h (m @ n) = md_run cf (md_run cf h m) (rest64 m @ n)"
proof -
  have "md_run cf h (m @ n) = md_run cf h (full64 m @ (rest64 m @ n))"
    by (metis append.assoc full_rest)
  also have "\<dots> = md_run cf (md_run cf h (full64 m)) (rest64 m @ n)"
    by (rule md_run_append) simp
  finally show ?thesis by (simp add: md_run_full)
qed

lemma md_zeros_short:
  assumes "l mod 64 \<le> 55"
  shows "md_zeros l = 55 - l mod 64"
proof -
  have "119 - l mod 64 = (55 - l mod 64) + 64"
    using assms by simp
  then show ?thesis
    by (simp only: md_zeros_def mod_add_self2) simp
qed

lemma md_zeros_long: "55 < l mod 64 \<Longrightarrow> md_zeros l = 119 - l mod 64"
  by (simp add: md_zeros_def)

lemma md_zeros_fits: "64 dvd l + 9 + md_zeros l"
proof -
  obtain q r where l: "l = 64 * q + r" and r: "r < 64"
    by (metis mod_less_divisor mult_div_mod_eq zero_less_numeral)
  then have mod: "l mod 64 = r" by simp
  show ?thesis
  proof (cases "r \<le> 55")
    case True
    with mod have "l + 9 + md_zeros l = 64 * (q + 1)"
      by (simp add: md_zeros_short) (simp add: l)
    then show ?thesis by (rule dvdI)
  next
    case False
    with mod r have "l + 9 + md_zeros l = 64 * (q + 2)"
      by (simp add: md_zeros_long) (simp add: l)
    then show ?thesis by (rule dvdI)
  qed
qed


section \<open>The interface of a block hash\<close>

text \<open>
  A provider gives a compression function, the encoding of the message length, an initial chaining
  value and the output transformation. It promises that the length takes 8 bytes and that its
  chaining values keep their shape \<open>wf\<close>, so that a digest has \<open>dlen\<close> bytes.
\<close>

locale md_hash =
  fixes cf :: "'h \<Rightarrow> bytes \<Rightarrow> 'h"
    and enc :: "nat \<Rightarrow> bytes"
    and h0 :: 'h
    and out :: "'h \<Rightarrow> bytes"
    and wf :: "'h \<Rightarrow> bool"
    and dlen :: nat
  assumes enc_length: "length (enc n) = 8"
    and wf_init: "wf h0"
    and wf_cf: "wf h \<Longrightarrow> length b = 64 \<Longrightarrow> wf (cf h b)"
    and out_length: "wf h \<Longrightarrow> length (out h) = dlen"
begin

lemma wf_run: "wf h \<Longrightarrow> wf (md_run cf h m)"
proof -
  have "wf (foldl cf h bs)" if "wf h" and "\<forall>b \<in> set bs. length b = 64" for h bs
    using that by (induction bs arbitrary: h) (auto simp: wf_cf)
  then show "wf h \<Longrightarrow> wf (md_run cf h m)"
    by (auto simp: md_run_def dest: length_in_chunks)
qed

lemma digest_length: "length (md_digest cf enc h0 out m) = dlen"
  by (simp add: md_digest_def out_length wf_run wf_init)

lemma pad_blocks: "64 dvd length (md_pad enc m)"
  using md_zeros_fits [of "length m"] by (simp add: md_pad_def enc_length add.commute add.left_commute)

text \<open>
  The last step of a streaming implementation: with the chaining value after the full blocks and
  the bytes after them at hand, one block is left when those bytes leave room for the byte 0x80
  and the length, and two are left otherwise.
\<close>

lemma digest_one:
  assumes "length m mod 64 \<le> 55"
  shows "md_run cf h0 (md_pad enc m) =
    cf (md_run cf h0 m)
      (rest64 m @ [0x80] @ replicate (55 - length m mod 64) 0 @ enc (length m))"
proof -
  let ?t = "[0x80] @ replicate (md_zeros (length m)) 0 @ enc (length m)"
  have "md_run cf h0 (md_pad enc m) = md_run cf (md_run cf h0 m) (rest64 m @ ?t)"
    unfolding md_pad_def by (rule md_run_split)
  also have "\<dots> = cf (md_run cf h0 m) (rest64 m @ ?t)"
    using assms by (intro md_run_one) (simp add: md_zeros_short enc_length)
  finally show ?thesis using assms by (simp add: md_zeros_short)
qed

lemma digest_two:
  assumes "55 < length m mod 64"
  shows "md_run cf h0 (md_pad enc m) =
    cf (cf (md_run cf h0 m) (rest64 m @ [0x80] @ replicate (63 - length m mod 64) 0))
      (replicate 56 0 @ enc (length m))"
proof -
  let ?b = "rest64 m @ [0x80] @ replicate (63 - length m mod 64) (0 :: unit8)"
  have len: "length m mod 64 < 64" by simp
  have zeros: "md_zeros (length m) = (63 - length m mod 64) + 56"
    using assms len by (simp add: md_zeros_long)
  have "md_run cf h0 (md_pad enc m) =
      md_run cf (md_run cf h0 m)
        (rest64 m @ ([0x80] @ replicate (md_zeros (length m)) 0 @ enc (length m)))"
    unfolding md_pad_def by (rule md_run_split)
  also have "\<dots> = md_run cf (md_run cf h0 m) (?b @ (replicate 56 0 @ enc (length m)))"
    by (simp only: zeros replicate_add append_assoc)
  also have "\<dots> = md_run cf (cf (md_run cf h0 m) ?b) (replicate 56 0 @ enc (length m))"
    using assms len by (intro md_run_block) simp
  also have "\<dots> = cf (cf (md_run cf h0 m) ?b) (replicate 56 0 @ enc (length m))"
    by (intro md_run_one) (simp add: enc_length)
  finally show ?thesis .
qed

end

end
