(* ===== verification/Sha256.thy ===== *)
theory Sha256
  imports Merkle_Damgard
begin

text \<open>
  The namespace \<open>BLOCKCHAIN_SHA256\<close> of \<open>hash.h\<close> (lines 397 to 865), compiled for a little-endian
  processor with \<open>SHA256_UNROLL\<close> equal to 64, and the proof that it computes the function of
  FIPS 180-4. The context record is the structure \<open>sha256_ctx_t\<close>; the union \<open>buffer\<close> is kept as
  its 64 bytes and its other member, the 16 words, is the little-endian view of them. A pair of a
  pointer and a length is the list of the bytes it spans. \<open>burnStack\<close>, which overwrites stack
  memory that nothing reads, is left out.
\<close>

section \<open>The code\<close>

definition ROTL :: "unit32 \<Rightarrow> nat \<Rightarrow> unit32" where
  "ROTL x n = push_bit n x OR drop_bit (32 - n) x"

definition ROTR :: "unit32 \<Rightarrow> nat \<Rightarrow> unit32" where
  "ROTR x n = drop_bit n x OR push_bit (32 - n) x"

definition Ch :: "unit32 \<Rightarrow> unit32 \<Rightarrow> unit32 \<Rightarrow> unit32" where
  "Ch x y z = z XOR (x AND (y XOR z))"

definition Maj :: "unit32 \<Rightarrow> unit32 \<Rightarrow> unit32 \<Rightarrow> unit32" where
  "Maj x y z = (x AND (y OR z)) OR (y AND z)"

definition SIGMA0 :: "unit32 \<Rightarrow> unit32" where
  "SIGMA0 x = ROTR x 2 XOR ROTR x 13 XOR ROTR x 22"

definition SIGMA1 :: "unit32 \<Rightarrow> unit32" where
  "SIGMA1 x = ROTR x 6 XOR ROTR x 11 XOR ROTR x 25"

definition sigma0 :: "unit32 \<Rightarrow> unit32" where
  "sigma0 x = ROTR x 7 XOR ROTR x 18 XOR drop_bit 3 x"

definition sigma1 :: "unit32 \<Rightarrow> unit32" where
  "sigma1 x = ROTR x 17 XOR ROTR x 19 XOR drop_bit 10 x"

text \<open>
  The local variables of a round: \<open>a\<close> to \<open>h\<close> and the pointers \<open>Kp\<close> and \<open>W\<close>, each as the list of
  the words from where it points on.
\<close>

record round_state =
  reg_a :: unit32
  reg_b :: unit32
  reg_c :: unit32
  reg_d :: unit32
  reg_e :: unit32
  reg_f :: unit32
  reg_g :: unit32
  reg_h :: unit32
  ptr_K :: "unit32 list"
  ptr_W :: "unit32 list"

definition DO_ROUND :: "round_state \<Rightarrow> round_state" where
  "DO_ROUND s =
    (let t1 = reg_h s + SIGMA1 (reg_e s) + Ch (reg_e s) (reg_f s) (reg_g s)
           + hd (ptr_K s) + hd (ptr_W s);
         t2 = SIGMA0 (reg_a s) + Maj (reg_a s) (reg_b s) (reg_c s)
     in \<lparr>reg_a = t1 + t2, reg_b = reg_a s, reg_c = reg_b s, reg_d = reg_c s,
         reg_e = reg_d s + t1, reg_f = reg_e s, reg_g = reg_f s, reg_h = reg_g s,
         ptr_K = tl (ptr_K s), ptr_W = tl (ptr_W s)\<rparr>)"

definition K :: "unit32 list" where
  "K =
    [0x428a2f98, 0x71374491, 0xb5c0fbcf, 0xe9b5dba5] @
    [0x3956c25b, 0x59f111f1, 0x923f82a4, 0xab1c5ed5] @
    [0xd807aa98, 0x12835b01, 0x243185be, 0x550c7dc3] @
    [0x72be5d74, 0x80deb1fe, 0x9bdc06a7, 0xc19bf174] @
    [0xe49b69c1, 0xefbe4786, 0x0fc19dc6, 0x240ca1cc] @
    [0x2de92c6f, 0x4a7484aa, 0x5cb0a9dc, 0x76f988da] @
    [0x983e5152, 0xa831c66d, 0xb00327c8, 0xbf597fc7] @
    [0xc6e00bf3, 0xd5a79147, 0x06ca6351, 0x14292967] @
    [0x27b70a85, 0x2e1b2138, 0x4d2c6dfc, 0x53380d13] @
    [0x650a7354, 0x766a0abb, 0x81c2c92e, 0x92722c85] @
    [0xa2bfe8a1, 0xa81a664b, 0xc24b8b70, 0xc76c51a3] @
    [0xd192e819, 0xd6990624, 0xf40e3585, 0x106aa070] @
    [0x19a4c116, 0x1e376c08, 0x2748774c, 0x34b0bcb5] @
    [0x391c0cb3, 0x4ed8aa4a, 0x5b9cca4f, 0x682e6ff3] @
    [0x748f82ee, 0x78a5636f, 0x84c87814, 0x8cc70208] @
    [0x90befffa, 0xa4506ceb, 0xbef9a3f7, 0xc67178f2]"

definition BYTESWAP :: "unit32 \<Rightarrow> unit32" where
  "BYTESWAP x = (ROTR x 8 AND 0xff00ff00) OR (ROTL x 8 AND 0x00ff00ff)"

definition byteswap64 :: "unit64 \<Rightarrow> unit64" where
  "byteswap64 x =
    (let a = (ucast (drop_bit 32 x) :: unit32);
         b = (ucast x :: unit32)
     in push_bit 32 (ucast (BYTESWAP b)) OR ucast (BYTESWAP a))"

definition padding :: bytes where
  "padding = 0x80 # replicate 63 0"

record sha256_ctx_t =
  totalLength :: unit64
  hash :: "unit32 list"
  bufferLength :: unit32
  buffer :: bytes

definition sha256_init :: "sha256_ctx_t \<Rightarrow> sha256_ctx_t" where
  "sha256_init sc = sc\<lparr>
     totalLength := 0,
     hash := [0x6a09e667, 0xbb67ae85, 0x3c6ef372, 0xa54ff53a,
              0x510e527f, 0x9b05688c, 0x1f83d9ab, 0x5be0cd19],
     bufferLength := 0\<rparr>"

text \<open>
  The second loop of \<open>SHA256Guts\<close>, over the pointers \<open>W2\<close>, \<open>W7\<close>, \<open>W15\<close> and \<open>W16\<close> (as indices into
  \<open>buf\<close>); \<open>buf\<close> is the part of the array written so far, and \<open>W\<close> points at its end.
\<close>

primrec schedule :: "nat \<Rightarrow> nat \<Rightarrow> nat \<Rightarrow> nat \<Rightarrow> nat \<Rightarrow> unit32 list \<Rightarrow> unit32 list" where
  "schedule 0 W2 W7 W15 W16 buf = buf"
| "schedule (Suc i) W2 W7 W15 W16 buf =
     schedule i (W2 + 1) (W7 + 1) (W15 + 1) (W16 + 1)
       (buf @ [sigma1 (buf ! W2) + buf ! W7 + sigma0 (buf ! W15) + buf ! W16])"

text \<open>The \<open>#if\<close> chain on \<open>SHA256_UNROLL\<close>: \<open>64 div u\<close> iterations of \<open>u\<close> rounds each.\<close>

definition sha256_rounds :: "nat \<Rightarrow> round_state \<Rightarrow> round_state" where
  "sha256_rounds u = (DO_ROUND ^^ u) ^^ (64 div u)"

definition SHA256_UNROLL :: nat where
  "SHA256_UNROLL = 64"

definition SHA256Guts :: "sha256_ctx_t \<Rightarrow> unit32 list \<Rightarrow> sha256_ctx_t" where
  "SHA256Guts sc cbuf =
    (let buf = schedule 48 14 9 1 0 (map BYTESWAP (take 16 cbuf));
         s = sha256_rounds SHA256_UNROLL
           \<lparr>reg_a = hash sc ! 0, reg_b = hash sc ! 1, reg_c = hash sc ! 2, reg_d = hash sc ! 3,
            reg_e = hash sc ! 4, reg_f = hash sc ! 5, reg_g = hash sc ! 6, reg_h = hash sc ! 7,
            ptr_K = K, ptr_W = buf\<rparr>
     in sc\<lparr>hash :=
       [hash sc ! 0 + reg_a s, hash sc ! 1 + reg_b s, hash sc ! 2 + reg_c s, hash sc ! 3 + reg_d s,
        hash sc ! 4 + reg_e s, hash sc ! 5 + reg_f s, hash sc ! 6 + reg_g s, hash sc ! 7 + reg_h s]\<rparr>)"

text \<open>
  \<open>sha256_update\<close> in its three parts: the buffer is filled up first, then whole blocks are taken
  from the data, and what is left goes into the buffer. \<open>bytesToCopy * 8L\<close> and \<open>len * 8L\<close> are 32-bit
  products (\<open>long\<close> has 32 bits on the compiler of the project).
\<close>

definition sha256_fill :: "sha256_ctx_t \<Rightarrow> bytes \<Rightarrow> sha256_ctx_t \<times> bytes" where
  "sha256_fill sc data =
    (if bufferLength sc \<noteq> 0 then
       let len = word_of_nat (length data);
           bufferBytesLeft = 64 - bufferLength sc;
           bytesToCopy = (if bufferBytesLeft > len then len else bufferBytesLeft);
           sc1 = sc\<lparr>buffer := memput (buffer sc) (unat (bufferLength sc)) (take (unat bytesToCopy) data),
                    totalLength := totalLength sc + ucast (bytesToCopy * 8),
                    bufferLength := bufferLength sc + bytesToCopy\<rparr>;
           sc2 = (if bufferLength sc1 = 64
                  then (SHA256Guts sc1 (le_words (buffer sc1)))\<lparr>bufferLength := 0\<rparr>
                  else sc1)
       in (sc2, drop (unat bytesToCopy) data)
     else (sc, data))"

function sha256_blocks :: "sha256_ctx_t \<Rightarrow> bytes \<Rightarrow> sha256_ctx_t \<times> bytes" where
  "sha256_blocks sc data =
    (if length data > 63
     then sha256_blocks
       (SHA256Guts (sc\<lparr>totalLength := totalLength sc + 512\<rparr>) (le_words (take 64 data))) (drop 64 data)
     else (sc, data))"
  by pat_completeness auto
termination
  by (relation "measure (\<lambda>(sc, data). length data)") auto

declare sha256_blocks.simps [simp del]

definition sha256_update :: "sha256_ctx_t \<Rightarrow> bytes \<Rightarrow> sha256_ctx_t" where
  "sha256_update sc data =
    (let (sc1, data1) = sha256_fill sc data;
         (sc2, data2) = sha256_blocks sc1 data1;
         len = (word_of_nat (length data2) :: unit32)
     in if len \<noteq> 0
        then sc2\<lparr>buffer := memput (buffer sc2) (unat (bufferLength sc2)) data2,
                 totalLength := totalLength sc2 + ucast (len * 8),
                 bufferLength := bufferLength sc2 + len\<rparr>
        else sc2)"

definition sha256_finalize :: "sha256_ctx_t \<Rightarrow> bytes" where
  "sha256_finalize sc =
    (let bytesToPad = 120 - bufferLength sc;
         bytesToPad = (if bytesToPad > 64 then bytesToPad - 64 else bytesToPad);
         lengthPad = byteswap64 (totalLength sc);
         sc1 = sha256_update sc (take (unat bytesToPad) padding);
         sc2 = sha256_update sc1 (le_bytes 8 lengthPad)
     in concat (map (\<lambda>h. le_bytes 4 (BYTESWAP h)) (hash sc2)))"

text \<open>
  \<open>computeSHA256\<close> declares its context on the stack, uninitialised: \<open>sha256_run\<close> is its body for a
  context \<open>sc\<close> of any content, and \<open>computeSHA256\<close> runs it on one particular content.
\<close>

definition sha256_run :: "sha256_ctx_t \<Rightarrow> bytes \<Rightarrow> bytes" where
  "sha256_run sc input = sha256_finalize (sha256_update (sha256_init sc) input)"

definition computeSHA256 :: "bytes \<Rightarrow> bytes" where
  "computeSHA256 input =
     sha256_run \<lparr>totalLength = 0, hash = replicate 8 0, bufferLength = 0, buffer = replicate 64 0\<rparr>
       input"


section \<open>The standard\<close>

text \<open>SHA-256 as FIPS 180-4 defines it (sections 4.1.2, 5.1.1 and 6.2.2), on lists of bytes.\<close>

definition fips_Ch :: "unit32 \<Rightarrow> unit32 \<Rightarrow> unit32 \<Rightarrow> unit32" where
  "fips_Ch x y z = (x AND y) XOR (NOT x AND z)"

definition fips_Maj :: "unit32 \<Rightarrow> unit32 \<Rightarrow> unit32 \<Rightarrow> unit32" where
  "fips_Maj x y z = (x AND y) XOR (x AND z) XOR (y AND z)"

definition fips_Sigma0 :: "unit32 \<Rightarrow> unit32" where
  "fips_Sigma0 x = word_rotr 2 x XOR word_rotr 13 x XOR word_rotr 22 x"

definition fips_Sigma1 :: "unit32 \<Rightarrow> unit32" where
  "fips_Sigma1 x = word_rotr 6 x XOR word_rotr 11 x XOR word_rotr 25 x"

definition fips_sigma0 :: "unit32 \<Rightarrow> unit32" where
  "fips_sigma0 x = word_rotr 7 x XOR word_rotr 18 x XOR drop_bit 3 x"

definition fips_sigma1 :: "unit32 \<Rightarrow> unit32" where
  "fips_sigma1 x = word_rotr 17 x XOR word_rotr 19 x XOR drop_bit 10 x"

fun fips_W :: "unit32 list \<Rightarrow> nat \<Rightarrow> unit32" where
  "fips_W M t =
    (if t < 16 then M ! t
     else fips_sigma1 (fips_W M (t - 2)) + fips_W M (t - 7)
        + fips_sigma0 (fips_W M (t - 15)) + fips_W M (t - 16))"

declare fips_W.simps [simp del]

type_synonym fips_vars =
  "unit32 \<times> unit32 \<times> unit32 \<times> unit32 \<times> unit32 \<times> unit32 \<times> unit32 \<times> unit32"

definition fips_round :: "unit32 list \<Rightarrow> fips_vars \<Rightarrow> nat \<Rightarrow> fips_vars" where
  "fips_round M v t =
    (case v of (a, b, c, d, e, f, g, h) \<Rightarrow>
      let T1 = h + fips_Sigma1 e + fips_Ch e f g + K ! t + fips_W M t;
          T2 = fips_Sigma0 a + fips_Maj a b c
      in (T1 + T2, a, b, c, d + T1, e, f, g))"

definition fips_rounds :: "unit32 list \<Rightarrow> fips_vars \<Rightarrow> nat \<Rightarrow> fips_vars" where
  "fips_rounds M v n = foldl (fips_round M) v [0..<n]"

text \<open>The big-endian words of a block, and one step of the hash computation.\<close>

definition be_words :: "bytes \<Rightarrow> unit32 list" where
  "be_words bs = map (\<lambda>c. le_word (rev c)) (chunks 4 bs)"

definition fips_block :: "unit32 list \<Rightarrow> bytes \<Rightarrow> unit32 list" where
  "fips_block H b =
    (case fips_rounds (be_words b) (H ! 0, H ! 1, H ! 2, H ! 3, H ! 4, H ! 5, H ! 6, H ! 7) 64 of
      (a, b, c, d, e, f, g, h) \<Rightarrow>
        [H ! 0 + a, H ! 1 + b, H ! 2 + c, H ! 3 + d, H ! 4 + e, H ! 5 + f, H ! 6 + g, H ! 7 + h])"

definition fips_H0 :: "unit32 list" where
  "fips_H0 = [0x6a09e667, 0xbb67ae85, 0x3c6ef372, 0xa54ff53a,
              0x510e527f, 0x9b05688c, 0x1f83d9ab, 0x5be0cd19]"

definition be_length :: "nat \<Rightarrow> bytes" where
  "be_length n = rev (le_put 8 (8 * n))"

definition be_out :: "unit32 list \<Rightarrow> bytes" where
  "be_out H = concat (map (\<lambda>h. rev (le_bytes 4 h)) H)"

definition sha256 :: "bytes \<Rightarrow> bytes" where
  "sha256 = md_digest fips_block be_length fips_H0 be_out"


section \<open>The word functions of the code are those of the standard\<close>

lemma bit_ROTR:
  assumes "0 < n" and "n < 32"
  shows "bit (ROTR x n) i \<longleftrightarrow> i < 32 \<and> bit x ((i + n) mod 32)"
proof (cases "i < 32 - n")
  case True
  with assms show ?thesis
    by (auto simp: ROTR_def bit_simps add.commute)
next
  case False
  then have "i < 32 \<Longrightarrow> (i + n) mod 32 = i + n - 32"
    using assms by (simp add: mod_if)
  moreover have "\<not> bit x (i + n)"
    using False by (auto dest: bit_imp_le_length)
  ultimately show ?thesis
    using False assms by (auto simp: ROTR_def bit_simps add.commute)
qed

lemma ROTR_rotr: "0 < n \<Longrightarrow> n < 32 \<Longrightarrow> ROTR x n = word_rotr n x"
  by (rule bit_word_eqI) (simp add: bit_ROTR bit_simps)

lemma ROTL_ROTR: "n < 32 \<Longrightarrow> ROTL x n = ROTR x (32 - n)"
  by (simp add: ROTL_def ROTR_def or.commute)

lemma Ch_fips: "Ch x y z = fips_Ch x y z"
  by (rule bit_word_eqI) (auto simp: Ch_def fips_Ch_def bit_simps)

lemma Maj_fips: "Maj x y z = fips_Maj x y z"
  by (rule bit_word_eqI) (auto simp: Maj_def fips_Maj_def bit_simps)

lemma SIGMA0_fips: "SIGMA0 x = fips_Sigma0 x"
  by (simp add: SIGMA0_def fips_Sigma0_def ROTR_rotr)

lemma SIGMA1_fips: "SIGMA1 x = fips_Sigma1 x"
  by (simp add: SIGMA1_def fips_Sigma1_def ROTR_rotr)

lemma sigma0_fips: "sigma0 x = fips_sigma0 x"
  by (simp add: sigma0_def fips_sigma0_def ROTR_rotr)

lemma sigma1_fips: "sigma1 x = fips_sigma1 x"
  by (simp add: sigma1_def fips_sigma1_def ROTR_rotr)

lemmas fips_functions = Ch_fips Maj_fips SIGMA0_fips SIGMA1_fips sigma0_fips sigma1_fips

lemma bit_BYTESWAP:
  assumes "i < 32"
  shows "bit (BYTESWAP x) i \<longleftrightarrow> bit x (8 * (3 - i div 8) + i mod 8)"
proof -
  have "i \<in> set [0..<32]"
    using assms by simp
  then show ?thesis
    by (simp add: BYTESWAP_def bit_and_iff bit_or_iff ROTL_ROTR bit_ROTR upt_rec [of _ 32])
      (elim disjE; ((simp; fail) | (simp, simp only: numeral_2_eq_2)))
qed

lemma BYTESWAP_bytes:
  assumes "length bs = 4"
  shows "BYTESWAP (le_word bs) = le_word (rev bs)"
proof (rule bit_word_eqI)
  fix i
  assume "i < LENGTH(32)"
  then have i: "i < 32" by simp
  then have "(8 * (3 - i div 8) + i mod 8) div 8 = 3 - i div 8"
    and "(8 * (3 - i div 8) + i mod 8) mod 8 = i mod 8"
    and "8 * (3 - i div 8) + i mod 8 < 32" and "i div 8 < 4"
    by (simp_all add: less_mult_imp_div_less)
  with i assms show "bit (BYTESWAP (le_word bs)) i \<longleftrightarrow> bit (le_word (rev bs) :: unit32) i"
    by (simp add: bit_BYTESWAP bit_le_word rev_nth)
qed

lemma le_bytes_BYTESWAP: "le_bytes 4 (BYTESWAP w) = rev (le_bytes 4 w)"
proof -
  have "BYTESWAP (le_word (le_bytes 4 w)) = le_word (rev (le_bytes 4 w))"
    by (rule BYTESWAP_bytes) simp
  then have "le_bytes 4 (BYTESWAP w) = le_bytes 4 (le_word (rev (le_bytes 4 w)) :: unit32)"
    by (simp add: le_word_le_bytes)
  then show ?thesis
    by (simp add: le_bytes_le_word)
qed

lemma be_words_swap: "map BYTESWAP (le_words bs) = be_words bs"
  by (auto simp: le_words_def be_words_def BYTESWAP_bytes dest: length_in_chunks)


section \<open>One block\<close>

lemma length_K [simp]: "length K = 64"
  by (simp add: K_def)

lemma schedule_W:
  assumes "16 \<le> n"
  shows "schedule i (n - 2) (n - 7) (n - 15) (n - 16) (map (fips_W M) [0..<n]) =
    map (fips_W M) [0..<n + i]"
  using assms
proof (induction i arbitrary: n)
  case (Suc i)
  let ?buf = "map (fips_W M) [0..<n]"
  have "?buf @ [sigma1 (?buf ! (n - 2)) + ?buf ! (n - 7) + sigma0 (?buf ! (n - 15)) + ?buf ! (n - 16)]
      = map (fips_W M) [0..<Suc n]"
    using Suc.prems by (simp add: fips_functions fips_W.simps [of M n])
  moreover have "n - 2 + 1 = Suc n - 2" "n - 7 + 1 = Suc n - 7" "n - 15 + 1 = Suc n - 15"
      "n - 16 + 1 = Suc n - 16"
    using Suc.prems by simp_all
  ultimately show ?case
    using Suc.IH [of "Suc n"] Suc.prems by (simp only: schedule.simps) simp
qed simp

lemma schedule_64:
  assumes "length M = 16"
  shows "schedule 48 14 9 1 0 M = map (fips_W M) [0..<64]"
proof -
  have "M = map (fips_W M) [0..<16]"
    using assms by (intro nth_equalityI) (simp_all add: fips_W.simps)
  then show ?thesis
    using schedule_W [of 16 48 M] by simp
qed

definition vars :: "round_state \<Rightarrow> fips_vars" where
  "vars s = (reg_a s, reg_b s, reg_c s, reg_d s, reg_e s, reg_f s, reg_g s, reg_h s)"

lemma DO_ROUND_fips:
  assumes "ptr_K s = drop t K" and "ptr_W s = drop t (map (fips_W M) [0..<64])" and "t < 64"
  shows "vars (DO_ROUND s) = fips_round M (vars s) t"
    and "ptr_K (DO_ROUND s) = drop (Suc t) K"
    and "ptr_W (DO_ROUND s) = drop (Suc t) (map (fips_W M) [0..<64])"
proof -
  have "hd (ptr_K s) = K ! t" and "hd (ptr_W s) = fips_W M t"
    using assms by (simp_all add: hd_drop_conv_nth)
  then show "vars (DO_ROUND s) = fips_round M (vars s) t"
    by (simp add: vars_def DO_ROUND_def fips_round_def Let_def fips_functions)
  show "ptr_K (DO_ROUND s) = drop (Suc t) K"
    and "ptr_W (DO_ROUND s) = drop (Suc t) (map (fips_W M) [0..<64])"
    using assms by (simp_all add: DO_ROUND_def Let_def tl_drop drop_Suc)
qed

lemma DO_ROUND_funpow:
  assumes "ptr_K s = K" and "ptr_W s = map (fips_W M) [0..<64]" and "n \<le> 64"
  shows "vars ((DO_ROUND ^^ n) s) = fips_rounds M (vars s) n
    \<and> ptr_K ((DO_ROUND ^^ n) s) = drop n K
    \<and> ptr_W ((DO_ROUND ^^ n) s) = drop n (map (fips_W M) [0..<64])"
  using assms(3)
proof (induction n)
  case 0
  then show ?case using assms by (simp add: fips_rounds_def)
next
  case (Suc n)
  then show ?case
    using DO_ROUND_fips [of "(DO_ROUND ^^ n) s" n M] by (simp add: fips_rounds_def)
qed

lemma sha256_rounds_unroll: "u dvd 64 \<Longrightarrow> sha256_rounds u = DO_ROUND ^^ 64"
  by (auto simp: sha256_rounds_def funpow_mult)

lemma SHA256Guts_fips:
  assumes "length b = 64"
  shows "SHA256Guts sc (le_words b) = sc\<lparr>hash := fips_block (hash sc) b\<rparr>"
proof -
  let ?W = "map (fips_W (be_words b)) [0..<64]"
  let ?s = "\<lparr>reg_a = hash sc ! 0, reg_b = hash sc ! 1, reg_c = hash sc ! 2, reg_d = hash sc ! 3,
            reg_e = hash sc ! 4, reg_f = hash sc ! 5, reg_g = hash sc ! 6, reg_h = hash sc ! 7,
            ptr_K = K, ptr_W = ?W\<rparr>"
  have "length (be_words b) = 16"
    using assms by (simp add: be_words_def)
  then have buf: "schedule 48 14 9 1 0 (map BYTESWAP (take 16 (le_words b))) = ?W"
    using assms schedule_64 [of "be_words b"] by (simp add: be_words_swap)
  have "vars ((DO_ROUND ^^ 64) ?s) = fips_rounds (be_words b) (vars ?s) 64"
    using DO_ROUND_funpow [of ?s "be_words b" 64] by simp
  then have "fips_rounds (be_words b)
       (hash sc ! 0, hash sc ! 1, hash sc ! 2, hash sc ! 3, hash sc ! 4, hash sc ! 5, hash sc ! 6, hash sc ! 7) 64
     = vars (sha256_rounds SHA256_UNROLL ?s)"
    by (simp add: sha256_rounds_unroll SHA256_UNROLL_def vars_def)
  then show ?thesis
    by (simp only: SHA256Guts_def buf Let_def fips_block_def) (simp add: vars_def)
qed

lemma length_be_length [simp]: "length (be_length n) = 8"
  by (simp add: be_length_def)

lemma length_fips_block [simp]: "length (fips_block H b) = 8"
  by (simp add: fips_block_def split: prod.splits)

lemma length_be_out: "length (be_out H) = 4 * length H"
  by (induction H) (simp_all add: be_out_def)

interpretation sha: md_hash fips_block be_length fips_H0 be_out "\<lambda>H. length H = 8" 32
  by unfold_locales (simp_all add: length_be_out fips_H0_def)


section \<open>The context as a prefix of the message\<close>

text \<open>
  \<open>sha_inv m sc\<close>: the context \<open>sc\<close> has taken in the bytes \<open>m\<close>. Its hash words are the chaining
  value after the full blocks of \<open>m\<close>, its buffer starts with the bytes after them, and
  \<open>totalLength\<close> is the length of \<open>m\<close> in bits.
\<close>

definition sha_inv :: "bytes \<Rightarrow> sha256_ctx_t \<Rightarrow> bool" where
  "sha_inv m sc \<longleftrightarrow>
     length (buffer sc) = 64 \<and>
     hash sc = md_run fips_block fips_H0 m \<and>
     unat (bufferLength sc) = length m mod 64 \<and>
     take (length m mod 64) (buffer sc) = rest64 m \<and>
     totalLength sc = word_of_nat (8 * length m)"

lemma sha_inv_init: "length (buffer sc) = 64 \<Longrightarrow> sha_inv [] (sha256_init sc)"
  by (simp add: sha_inv_def sha256_init_def fips_H0_def rest64_def)

lemma sha_inv_block:
  assumes "sha_inv m sc" and "64 dvd length m" and "length b = 64"
  shows "sha_inv (m @ b)
    (SHA256Guts (sc\<lparr>totalLength := totalLength sc + 512\<rparr>) (le_words b))"
proof -
  have "64 dvd length (m @ b)" and "length m mod 64 = 0"
    using assms by simp_all
  then show ?thesis
    using assms by (simp add: sha_inv_def SHA256Guts_fips md_run_append rest64_def algebra_simps)
qed

lemma sha256_blocks_inv:
  assumes "sha_inv m sc" and "64 dvd length m"
  shows "sha_inv (m @ full64 d) (fst (sha256_blocks sc d)) \<and> snd (sha256_blocks sc d) = rest64 d"
  using assms
proof (induction sc d arbitrary: m rule: sha256_blocks.induct)
  case (1 sc d)
  show ?case
  proof (cases "length d > 63")
    case True
    let ?sc = "SHA256Guts (sc\<lparr>totalLength := totalLength sc + 512\<rparr>) (le_words (take 64 d))"
    have "sha_inv (m @ take 64 d) ?sc"
      using "1.prems" True by (intro sha_inv_block) simp_all
    moreover have "64 dvd length (m @ take 64 d)"
      using "1.prems" True by simp
    ultimately have "sha_inv ((m @ take 64 d) @ full64 (drop 64 d)) (fst (sha256_blocks ?sc (drop 64 d)))
        \<and> snd (sha256_blocks ?sc (drop 64 d)) = rest64 (drop 64 d)"
      using "1.IH" True by blast
    moreover have "length d div 64 = Suc ((length d - 64) div 64)"
      using True by (simp add: le_div_geq)
    then have "full64 d = take 64 d @ full64 (drop 64 d)" and "rest64 d = rest64 (drop 64 d)"
      by (simp_all add: full64_def rest64_def take_add add.commute)
    ultimately show ?thesis
      using True by (simp add: sha256_blocks.simps [of sc d])
  next
    case False
    then show ?thesis
      using "1.prems" by (simp add: sha256_blocks.simps [of sc d] full64_def rest64_def)
  qed
qed

lemma sha_inv_buffer:
  assumes inv: "sha_inv m sc" and fit: "length m mod 64 + length d < 64"
  shows "sha_inv (m @ d)
    (sc\<lparr>buffer := memput (buffer sc) (unat (bufferLength sc)) d,
        totalLength := totalLength sc + word_of_nat (8 * length d),
        bufferLength := bufferLength sc + word_of_nat (length d)\<rparr>)"
proof -
  let ?r = "length m mod 64"
  have mod: "length (m @ d) mod 64 = ?r + length d"
    using fit by (metis length_append mod_add_left_eq mod_less)
  have "unat (bufferLength sc + word_of_nat (length d)) = ?r + length d"
    using inv fit by (simp add: sha_inv_def unat_word_ariths unat_of_nat)
  moreover have "take (?r + length d) (memput (buffer sc) ?r d) = rest64 (m @ d)"
    using inv fit by (simp add: take_memput sha_inv_def rest64_append)
  moreover have "md_run fips_block fips_H0 (m @ d) = md_run fips_block fips_H0 m"
    using fit by (subst md_run_split) simp
  moreover have "length (memput (buffer sc) ?r d) = 64"
    using inv fit by (simp add: length_memput sha_inv_def)
  ultimately show ?thesis
    using inv mod by (simp add: sha_inv_def algebra_simps)
qed


lemma ucast_mult_8:
  assumes "n \<le> 64"
  shows "ucast (word_of_nat n * 8 :: unit32) = (word_of_nat (8 * n) :: unit64)"
proof -
  have "unat (word_of_nat n * 8 :: unit32) = 8 * n"
    using assms by (simp add: unat_word_ariths unat_of_nat)
  moreover have "ucast w = (word_of_nat (unat w) :: unit64)" for w :: unit32
    by simp
  ultimately show ?thesis
    by metis
qed

lemma sha256_fill_inv:
  assumes inv: "sha_inv m sc" and len: "length d < 2 ^ 32"
  obtains k where "sha_inv (m @ take k d) (fst (sha256_fill sc d))"
    and "snd (sha256_fill sc d) = drop k d"
    and "drop k d = [] \<or> 64 dvd length (m @ take k d)"
proof (cases "length m mod 64 = 0")
  case True
  with inv have "bufferLength sc = 0"
    by (simp add: sha_inv_def unat_eq_zero)
  with True inv that [of 0] show ?thesis
    by (simp add: sha256_fill_def dvd_eq_mod_eq_0)
next
  case False
  let ?r = "length m mod 64"
  define n where "n = min (64 - ?r) (length d)"
  have r: "unat (bufferLength sc) = ?r" "?r < 64"
    using inv by (simp_all add: sha_inv_def)
  have bl: "bufferLength sc \<noteq> 0"
    using r False by auto
  have left: "64 - bufferLength sc = word_of_nat (64 - ?r)"
    using r by (simp add: word_unat_eq_iff unat_sub word_le_nat_alt unat_of_nat)
  have "(word_of_nat (64 - ?r) > (word_of_nat (length d) :: unit32)) \<longleftrightarrow> 64 - ?r > length d"
    using len by (intro word32_of_nat_less) simp_all
  then have copy: "(if 64 - bufferLength sc > word_of_nat (length d) then word_of_nat (length d)
      else 64 - bufferLength sc) = (word_of_nat n :: unit32)"
    by (simp add: left n_def min_def)
  have n: "n \<le> 64" "n \<le> length d" "?r + n \<le> 64" "unat (word_of_nat n :: unit32) = n"
    using r by (simp_all add: n_def unat_of_nat)
  define sc1 where "sc1 = sc\<lparr>buffer := memput (buffer sc) ?r (take n d),
      totalLength := totalLength sc + word_of_nat (8 * n),
      bufferLength := bufferLength sc + word_of_nat n\<rparr>"
  define sc2 where "sc2 = (if bufferLength sc1 = 64
      then (SHA256Guts sc1 (le_words (buffer sc1)))\<lparr>bufferLength := 0\<rparr> else sc1)"
  have fill: "sha256_fill sc d = (sc2, drop n d)"
    using bl r n by (simp add: sha256_fill_def Let_def copy ucast_mult_8 sc1_def sc2_def)
  have bl1: "unat (bufferLength sc1) = ?r + n"
    using r n by (simp add: sc1_def unat_word_ariths)
  show ?thesis
  proof (cases "?r + n = 64")
    case True
    then have "bufferLength sc1 = 64"
      using bl1 by (simp add: word_unat_eq_iff)
    moreover have buf: "buffer sc1 = rest64 m @ take n d"
    proof -
      have "buffer sc1 = take (?r + length (take n d)) (memput (buffer sc) ?r (take n d))"
        using True n inv by (simp add: sc1_def sha_inv_def length_memput)
      also have "\<dots> = rest64 m @ take n d"
        using r inv by (subst take_memput) (simp_all add: sha_inv_def)
      finally show ?thesis .
    qed
    moreover have "length (rest64 m @ take n d) = 64"
      using True n by simp
    ultimately have sc2: "sc2 = (sc1\<lparr>hash := fips_block (hash sc1) (rest64 m @ take n d)\<rparr>)\<lparr>bufferLength := 0\<rparr>"
      by (simp add: sc2_def SHA256Guts_fips)
    have run: "md_run fips_block fips_H0 (m @ take n d) =
        fips_block (md_run fips_block fips_H0 m) (rest64 m @ take n d)"
      using True n by (subst md_run_split) simp
    have dvd: "64 dvd length (m @ take n d)"
      using True n by (metis dvd_eq_mod_eq_0 length_append length_take min.absorb2 mod_add_left_eq mod_self)
    have "sha_inv (m @ take n d) sc2"
      using sc2 run dvd rest64_dvd [OF dvd] n inv \<open>length (rest64 m @ take n d) = 64\<close> buf
      by (simp add: sha_inv_def sc1_def algebra_simps)
    then show ?thesis
      using that [of n] fill dvd by simp
  next
    case False
    then have all: "n = length d" and fit: "?r + length d < 64"
      using n r by (auto simp: n_def)
    have "bufferLength sc1 \<noteq> 64"
      using bl1 False by auto
    then have "sc2 = sc1" by (simp add: sc2_def)
    moreover have "sha_inv (m @ d) sc1"
      using sha_inv_buffer [OF inv fit] all r by (simp add: sc1_def)
    ultimately show ?thesis
      using that [of n] fill all by simp
  qed
qed

lemma sha256_update_inv:
  assumes inv: "sha_inv m sc" and len: "length d < 2 ^ 32"
  shows "sha_inv (m @ d) (sha256_update sc d)"
proof -
  obtain k where fill: "sha_inv (m @ take k d) (fst (sha256_fill sc d))"
      "snd (sha256_fill sc d) = drop k d" "drop k d = [] \<or> 64 dvd length (m @ take k d)"
    using sha256_fill_inv [OF inv len] .
  obtain sc1 where sc1: "sha256_fill sc d = (sc1, drop k d)" "sha_inv (m @ take k d) sc1"
    using fill by (metis prod.collapse)
  show ?thesis
  proof (cases "drop k d = []")
    case True
    then show ?thesis
      using sc1 by (simp add: sha256_update_def sha256_blocks.simps)
  next
    case False
    let ?m = "(m @ take k d) @ full64 (drop k d)"
    define sc2 where "sc2 = fst (sha256_blocks sc1 (drop k d))"
    define r where "r = rest64 (drop k d)"
    have dvd: "64 dvd length (m @ take k d)"
      using fill(3) False by blast
    have blocks: "sha256_blocks sc1 (drop k d) = (sc2, r)" and inv2: "sha_inv ?m sc2"
      using sha256_blocks_inv [OF sc1(2) dvd, of "drop k d"] by (simp_all add: sc2_def r_def prod_eq_iff)
    have "64 dvd length ?m"
      using dvd dvd_full64 [of "drop k d"] by (simp only: length_append dvd_add)
    then have m0: "length ?m mod 64 = 0"
      by (simp only: dvd_eq_mod_eq_0)
    have r: "length r < 64"
      by (simp add: r_def)
    have md: "?m @ r = m @ d"
      by (simp add: r_def full_rest)
    have small: "(word_of_nat (length r) :: unit32) = 0 \<longleftrightarrow> r = []"
      using r by (simp add: unat_eq_zero [symmetric] unat_of_nat)
    have upd: "sha256_update sc d =
        (if r = [] then sc2
         else sc2\<lparr>buffer := memput (buffer sc2) (unat (bufferLength sc2)) r,
                  totalLength := totalLength sc2 + word_of_nat (8 * length r),
                  bufferLength := bufferLength sc2 + word_of_nat (length r)\<rparr>)"
      using r by (simp add: sha256_update_def sc1 blocks Let_def small ucast_mult_8)
    show ?thesis
    proof (cases "r = []")
      case True
      then show ?thesis
        using inv2 md upd by simp
    next
      case False
      have "length ?m mod 64 + length r < 64"
        using m0 r by simp
      from sha_inv_buffer [OF inv2 this] False md show ?thesis
        by (simp add: upd)
    qed
  qed
qed


section \<open>Padding and output\<close>

lemma le_word_halves:
  assumes "length xs = 4" and "length ys = 4"
  shows "push_bit 32 (ucast (le_word ys :: unit32)) OR ucast (le_word xs :: unit32)
    = (le_word (xs @ ys) :: unit64)"
proof (rule bit_word_eqI)
  fix i
  assume "i < LENGTH(64)"
  then have i: "i < 64" by simp
  show "bit (push_bit 32 (ucast (le_word ys :: unit32)) OR ucast (le_word xs :: unit32) :: unit64) i
    = bit (le_word (xs @ ys) :: unit64) i"
  proof (cases "i < 32")
    case True
    then have "i div 8 < 4" by (simp add: less_mult_imp_div_less)
    with True assms show ?thesis
      by (simp add: bit_simps bit_le_word nth_append)
  next
    case False
    then obtain j where j: "i = j + 32" "j < 32"
      using i by (metis add.commute add_less_cancel_left le_Suc_ex linorder_not_less
        numeral_Bit0)
    then have "i div 8 = j div 8 + 4" and "i mod 8 = j mod 8" and "j div 8 < 4"
      using mod_mult_self1 [of j 4 8] by (simp_all add: less_mult_imp_div_less)
    with j assms show ?thesis
      by (simp add: bit_simps bit_le_word nth_append)
  qed
qed

lemma le_word_low:
  assumes "length xs = 4" and "length ys = 4"
  shows "ucast (le_word (xs @ ys) :: unit64) = (le_word xs :: unit32)"
    and "ucast (drop_bit 32 (le_word (xs @ ys) :: unit64)) = (le_word ys :: unit32)"
  by (rule bit_word_eqI, auto simp flip: le_word_halves [OF assms] simp: bit_simps dest: bit_imp_le_length)+

lemma le_bytes_byteswap64: "le_bytes 8 (byteswap64 x) = rev (le_bytes 8 x)"
proof -
  define xs where "xs = take 4 (le_bytes 8 x)"
  define ys where "ys = drop 4 (le_bytes 8 x)"
  have len: "length xs = 4" "length ys = 4" and split: "le_bytes 8 x = xs @ ys"
    by (simp_all add: xs_def ys_def)
  have x: "x = le_word (xs @ ys)"
    by (simp flip: split add: le_word_le_bytes)
  have "byteswap64 x = push_bit 32 (ucast (le_word (rev xs) :: unit32)) OR ucast (le_word (rev ys) :: unit32)"
    using len by (simp add: byteswap64_def x le_word_low BYTESWAP_bytes)
  also have "\<dots> = le_word (rev ys @ rev xs)"
    using len by (simp add: le_word_halves)
  finally have "le_bytes 8 (byteswap64 x) = rev ys @ rev xs"
    using len by (simp add: le_bytes_le_word)
  then show ?thesis
    by (simp add: split)
qed

lemma le_put_mod: "le_put k (n mod 256 ^ k) = le_put k n"
  by (metis le_nat_le_put le_put_le_nat length_le_put)

lemma length_pad_bytes:
  "le_bytes 8 (byteswap64 (word_of_nat (8 * n))) = be_length n"
proof -
  have "unat (word_of_nat (8 * n) :: unit64) = (8 * n) mod 256 ^ 8"
    by (subst unat_of_nat) simp
  then have "le_bytes 8 (word_of_nat (8 * n) :: unit64) = le_put 8 (8 * n)"
    by (simp only: le_bytes_def le_put_mod)
  then show ?thesis
    by (simp only: le_bytes_byteswap64 be_length_def)
qed

lemma bytesToPad:
  assumes "unat bl = l mod 64"
  shows "take (unat (if 120 - bl > (64 :: unit32) then 120 - bl - 64 else 120 - bl)) padding
    = 0x80 # replicate (md_zeros l) 0"
proof -
  have r: "unat bl < 64" using assms by simp
  then have sub: "unat (120 - bl) = 120 - unat bl"
    by (simp add: unat_sub word_le_nat_alt)
  show ?thesis
  proof (cases "l mod 64 \<le> 55")
    case True
    then have gt: "120 - bl > 64"
      using assms sub by (simp add: word_less_nat_alt)
    have "unat (120 - bl - 64) = 56 - unat bl"
      using True assms by (simp add: unat_sub word_le_nat_alt)
    moreover have "56 - unat bl = Suc (md_zeros l)"
      using True assms by (simp add: md_zeros_short)
    ultimately show ?thesis
      using gt True by (simp add: padding_def md_zeros_short take_replicate)
  next
    case False
    then have "\<not> 120 - bl > 64"
      using assms sub by (simp add: word_less_nat_alt)
    moreover have "unat (120 - bl) = Suc (md_zeros l)"
      using False assms sub r by (simp add: md_zeros_long)
    ultimately show ?thesis
      using False assms r by (simp add: padding_def md_zeros_long take_replicate)
  qed
qed

lemma sha256_finalize_inv:
  assumes inv: "sha_inv m sc"
  shows "sha256_finalize sc = sha256 m"
proof -
  let ?pad = "0x80 # replicate (md_zeros (length m)) (0 :: unit8)"
  let ?sc1 = "sha256_update sc ?pad"
  let ?sc2 = "sha256_update ?sc1 (be_length (length m))"
  have "length ?pad \<le> 64"
    by (simp add: md_zeros_def Suc_le_eq)
  then have "sha_inv (m @ ?pad) ?sc1"
    using inv by (intro sha256_update_inv) simp_all
  then have "sha_inv ((m @ ?pad) @ be_length (length m)) ?sc2"
    by (rule sha256_update_inv) simp
  then have "hash ?sc2 = md_run fips_block fips_H0 (md_pad be_length m)"
    by (simp add: sha_inv_def md_pad_def)
  moreover have "unat (bufferLength sc) = length m mod 64"
      and "totalLength sc = word_of_nat (8 * length m)"
    using inv by (simp_all only: sha_inv_def)
  then have "sha256_finalize sc = be_out (hash ?sc2)"
    by (simp only: sha256_finalize_def Let_def bytesToPad [of _ "length m"]
      length_pad_bytes be_out_def le_bytes_BYTESWAP)
  ultimately show ?thesis
    by (simp add: sha256_def md_digest_def)
qed


section \<open>Properties\<close>

lemma sha256_run_sha256:
  assumes "length (buffer sc) = 64" and "length input < 2 ^ 32"
  shows "sha256_run sc input = sha256 input"
  using sha256_update_inv [OF sha_inv_init [OF assms(1)] assms(2)]
  by (simp add: sha256_run_def sha256_finalize_inv)

lemma computeSHA256_sha256: "length input < 2 ^ 32 \<Longrightarrow> computeSHA256 input = sha256 input"
  unfolding computeSHA256_def by (rule sha256_run_sha256) simp_all

lemma length_computeSHA256 [len_simps]: "length input < 2 ^ 32 \<Longrightarrow> length (computeSHA256 input) = 32"
  by (simp add: computeSHA256_sha256 sha256_def sha.digest_length)

text \<open>
  C2. The SHA-256 of \<open>hash.h\<close> is the SHA-256 of FIPS 180-4 for every message that its 32-bit length
  argument can describe, whatever the uninitialised context on the stack held before.
\<close>

theorem computeSHA256_correct:
  assumes "length (buffer sc) = 64" and "length input < 2 ^ 32"
  shows "sha256_run sc input = sha256 input \<and> computeSHA256 input = sha256 input"
  using assms by (simp add: sha256_run_sha256 computeSHA256_sha256)

theorem computeSHA256_correct_witness:
  "sha256_run \<lparr>totalLength = 7, hash = [], bufferLength = 9, buffer = replicate 64 0xcc\<rparr> [0x61, 0x62, 0x63]
     = sha256 [0x61, 0x62, 0x63]
   \<and> computeSHA256 [0x61, 0x62, 0x63] = sha256 [0x61, 0x62, 0x63]"
  by (rule computeSHA256_correct) simp_all

text \<open>
  C12. Feeding a message to the context in any number of pieces of any sizes gives the digest of the
  whole message: after each piece the context stands for the bytes seen so far.
\<close>

theorem sha256_update_pieces:
  assumes "length (buffer sc) = 64" and "\<forall>d \<in> set ds. length d < 2 ^ 32"
  shows "sha256_finalize (foldl sha256_update (sha256_init sc) ds) = sha256 (concat ds)"
proof -
  have "sha_inv (m @ concat ds) (foldl sha256_update sc ds)"
    if "sha_inv m sc" and "\<forall>d \<in> set ds. length d < 2 ^ 32" for m sc
    using that
  proof (induction ds arbitrary: m sc)
    case (Cons d ds)
    then have "sha_inv (m @ d) (sha256_update sc d)"
      by (simp add: sha256_update_inv)
    with Cons show ?case by fastforce
  qed simp
  from this [OF sha_inv_init [OF assms(1)] assms(2)] show ?thesis
    by (simp add: sha256_finalize_inv)
qed

theorem sha256_update_pieces_witness:
  "sha256_finalize (foldl sha256_update
     (sha256_init \<lparr>totalLength = 0, hash = [], bufferLength = 0, buffer = replicate 64 0\<rparr>)
     [replicate 40 1, replicate 50 2, [], replicate 200 3])
   = sha256 (replicate 40 1 @ replicate 50 2 @ replicate 200 3)"
proof -
  have "sha256_finalize (foldl sha256_update
     (sha256_init \<lparr>totalLength = 0, hash = [], bufferLength = 0, buffer = replicate 64 0\<rparr>)
     [replicate 40 1, replicate 50 2, [], replicate 200 3])
   = sha256 (concat [replicate 40 1, replicate 50 2, [], replicate 200 3])"
    by (rule sha256_update_pieces) simp_all
  then show ?thesis by simp
qed

end
