(* ===== verification/Hash_Vectors.thy ===== *)
theory Hash_Vectors
  imports Sha256
begin

section \<open>Evaluation\<close>

text \<open>
  Equations for evaluating the code on concrete words: \<open>take_bit 32\<close> changes no 32-bit word, but it
  makes the simplifier keep every numeral below $2^{32}$.
\<close>

named_theorems sha_eval

lemma take_bit_32: "take_bit 32 (x :: unit32) = x"
  by (rule take_bit_word_eq_self) simp

lemma ROTR_eval [sha_eval]: "ROTR x n = take_bit 32 (drop_bit n x OR push_bit (32 - n) x)"
  by (simp only: take_bit_32 ROTR_def)

lemma DO_ROUND_eval [sha_eval]:
  "DO_ROUND \<lparr>reg_a = a, reg_b = b, reg_c = c, reg_d = d, reg_e = e, reg_f = f, reg_g = g, reg_h = h,
      ptr_K = k # ks, ptr_W = w # ws\<rparr> =
    (let t1 = take_bit 32 (h + SIGMA1 e + Ch e f g + k + w)
     in \<lparr>reg_a = take_bit 32 (t1 + (SIGMA0 a + Maj a b c)), reg_b = a, reg_c = b, reg_d = c,
         reg_e = take_bit 32 (d + t1), reg_f = e, reg_g = f, reg_h = g,
         ptr_K = ks, ptr_W = ws\<rparr>)"
  by (simp add: DO_ROUND_def Let_def take_bit_32)

lemma schedule_eval [sha_eval]:
  "schedule (numeral n) W2 W7 W15 W16 buf =
     schedule (pred_numeral n) (W2 + 1) (W7 + 1) (W15 + 1) (W16 + 1)
       (buf @ [take_bit 32 (sigma1 (buf ! W2) + buf ! W7 + sigma0 (buf ! W15) + buf ! W16)])"
  by (simp only: numeral_eq_Suc [of n] schedule.simps take_bit_32)

lemmas sha_functions [sha_eval] =
  SIGMA0_def SIGMA1_def sigma0_def sigma1_def Ch_def Maj_def Let_def

lemma fips_block_eval:
  assumes "length b = 64" and "length H = 8"
  shows "fips_block H b =
    (let s = (DO_ROUND ^^ 64)
       \<lparr>reg_a = H ! 0, reg_b = H ! 1, reg_c = H ! 2, reg_d = H ! 3,
        reg_e = H ! 4, reg_f = H ! 5, reg_g = H ! 6, reg_h = H ! 7,
        ptr_K = K, ptr_W = schedule 48 14 9 1 0 (be_words b)\<rparr>
     in [H ! 0 + reg_a s, H ! 1 + reg_b s, H ! 2 + reg_c s, H ! 3 + reg_d s,
         H ! 4 + reg_e s, H ! 5 + reg_f s, H ! 6 + reg_g s, H ! 7 + reg_h s])"
proof -
  have "fips_block H b = hash (SHA256Guts
      \<lparr>totalLength = 0, hash = H, bufferLength = 0, buffer = []\<rparr> (le_words b))"
    using assms by (simp add: SHA256Guts_fips)
  then show ?thesis
    using assms by (simp add: SHA256Guts_def Let_def be_words_swap sha256_rounds_unroll SHA256_UNROLL_def)
qed

declare replicate_eval [sha_eval] le_put_eval [sha_eval] funpow_eval [sha_eval]

lemmas list_eval = chunks.simps le_word_def replicate_eval


section \<open>SHA-256 of ``abc''\<close>

lemma abc_rounds:
  "(DO_ROUND ^^ 64)
     \<lparr>reg_a = 0x6a09e667, reg_b = 0xbb67ae85, reg_c = 0x3c6ef372, reg_d = 0xa54ff53a,
      reg_e = 0x510e527f, reg_f = 0x9b05688c, reg_g = 0x1f83d9ab, reg_h = 0x5be0cd19, ptr_K = K,
      ptr_W = schedule 48 14 9 1 0 [0x61626380, 0, 0, 0, 0, 0, 0, 0, 0, 0, 0, 0, 0, 0, 0, 24]\<rparr> =
     \<lparr>reg_a = 0x506e3058, reg_b = 0xd39a2165, reg_c = 0x04d24d6c, reg_d = 0xb85e2ce9,
      reg_e = 0x5ef50f24, reg_f = 0xfb121210, reg_g = 0x948d25b6, reg_h = 0x961f4894,
      ptr_K = [], ptr_W = []\<rparr>"
  by (simp add: sha_eval K_def)

lemma abc_block:
  assumes "b = [0x61, 0x62, 0x63, 0x80] @ replicate 52 0 @ [0, 0, 0, 0, 0, 0, 0, 24]"
  shows "fips_block fips_H0 b =
    [0xba7816bf, 0x8f01cfea, 0x414140de, 0x5dae2223, 0xb00361a3, 0x96177a9c, 0xb410ff61, 0xf20015ad]"
proof -
  have words: "be_words b = [0x61626380, 0, 0, 0, 0, 0, 0, 0, 0, 0, 0, 0, 0, 0, 0, 24]"
    by (simp add: assms be_words_def list_eval)
  have "length b = 64"
    by (simp add: assms)
  then show ?thesis
    by (subst fips_block_eval) (simp_all add: fips_H0_def words abc_rounds [unfolded One_nat_def])
qed

text \<open>The first example of FIPS 180-4: the digest of the three bytes ``abc''.\<close>

lemma sha256_abc:
  "computeSHA256 [0x61, 0x62, 0x63] =
    [0xba, 0x78, 0x16, 0xbf, 0x8f, 0x01, 0xcf, 0xea, 0x41, 0x41, 0x40, 0xde, 0x5d, 0xae, 0x22, 0x23,
     0xb0, 0x03, 0x61, 0xa3, 0x96, 0x17, 0x7a, 0x9c, 0xb4, 0x10, 0xff, 0x61, 0xf2, 0x00, 0x15, 0xad]"
proof -
  have len: "be_length (Suc (Suc (Suc 0))) = [0, 0, 0, 0, 0, 0, 0, 24]"
    by (simp add: be_length_def sha_eval)
  have "md_run fips_block fips_H0 (md_pad be_length [0x61, 0x62, 0x63]) =
      fips_block fips_H0 ([0x61, 0x62, 0x63, 0x80] @ replicate 52 0 @ [0, 0, 0, 0, 0, 0, 0, 24])"
    by (subst sha.digest_one) (simp_all add: rest64_def len)
  then show ?thesis
    by (simp add: computeSHA256_sha256 sha256_def md_digest_def abc_block be_out_def le_bytes_def sha_eval)
qed

end
