(* ===== verification/Ripemd160.thy ===== *)
theory Ripemd160
  imports Merkle_Damgard
begin

text \<open>
  The namespace \<open>BLOCKCHAIN_RIPEMD160\<close> of \<open>hash.h\<close> (lines 14 to 395), and the proof that it computes
  RIPEMD-160. The code is fully unrolled: 160 macro calls whose register arguments rotate. The
  reference is the definition by Dobbertin, Bosselaers and Preneel, with the message order given by
  the permutations \<open>\<rho>\<close> and \<open>\<pi>\<close> and one table of shifts for both lines, so that each of the 160 calls
  is checked against it. The local variables of \<open>compress\<close> are a function from their names to words.
\<close>

section \<open>The code\<close>

definition BYTES_TO_DWORD :: "bytes \<Rightarrow> unit32" where
  "BYTES_TO_DWORD strptr =
     push_bit 24 (ucast (strptr ! 3)) OR push_bit 16 (ucast (strptr ! 2)) OR
     push_bit 8 (ucast (strptr ! 1)) OR ucast (strptr ! 0)"

definition ROL :: "unit32 \<Rightarrow> nat \<Rightarrow> unit32" where
  "ROL x n = push_bit n x OR drop_bit (32 - n) x"

definition rmd_F :: "unit32 \<Rightarrow> unit32 \<Rightarrow> unit32 \<Rightarrow> unit32" where
  "rmd_F x y z = x XOR y XOR z"

definition rmd_G :: "unit32 \<Rightarrow> unit32 \<Rightarrow> unit32 \<Rightarrow> unit32" where
  "rmd_G x y z = (x AND y) OR (NOT x AND z)"

definition rmd_H :: "unit32 \<Rightarrow> unit32 \<Rightarrow> unit32 \<Rightarrow> unit32" where
  "rmd_H x y z = (x OR NOT y) XOR z"

definition rmd_I :: "unit32 \<Rightarrow> unit32 \<Rightarrow> unit32 \<Rightarrow> unit32" where
  "rmd_I x y z = (x AND z) OR (y AND NOT z)"

definition rmd_J :: "unit32 \<Rightarrow> unit32 \<Rightarrow> unit32 \<Rightarrow> unit32" where
  "rmd_J x y z = x XOR (y OR NOT z)"

datatype reg = AA | BB | CC | DD | EE | AAA | BBB | CCC | DDD | EEE

type_synonym locals = "reg \<Rightarrow> unit32"

type_synonym macro = "reg \<Rightarrow> reg \<Rightarrow> reg \<Rightarrow> reg \<Rightarrow> reg \<Rightarrow> unit32 \<Rightarrow> nat \<Rightarrow> locals \<Rightarrow> locals"

text \<open>The last two statements, which the ten macros share.\<close>

definition rotate_in :: "reg \<Rightarrow> reg \<Rightarrow> reg \<Rightarrow> nat \<Rightarrow> locals \<Rightarrow> locals" where
  "rotate_in a c e s r =
    (let r1 = r(a := ROL (r a) s + r e)
     in r1(c := ROL (r1 c) 10))"

definition FF :: macro where
  "FF a b c d e x s r = rotate_in a c e s (r(a := r a + (rmd_F (r b) (r c) (r d) + x)))"

definition GG :: macro where
  "GG a b c d e x s r = rotate_in a c e s (r(a := r a + (rmd_G (r b) (r c) (r d) + x + 0x5a827999)))"

definition HH :: macro where
  "HH a b c d e x s r = rotate_in a c e s (r(a := r a + (rmd_H (r b) (r c) (r d) + x + 0x6ed9eba1)))"

definition II :: macro where
  "II a b c d e x s r = rotate_in a c e s (r(a := r a + (rmd_I (r b) (r c) (r d) + x + 0x8f1bbcdc)))"

definition JJ :: macro where
  "JJ a b c d e x s r = rotate_in a c e s (r(a := r a + (rmd_J (r b) (r c) (r d) + x + 0xa953fd4e)))"

definition FFF :: macro where
  "FFF a b c d e x s r = rotate_in a c e s (r(a := r a + (rmd_F (r b) (r c) (r d) + x)))"

definition GGG :: macro where
  "GGG a b c d e x s r = rotate_in a c e s (r(a := r a + (rmd_G (r b) (r c) (r d) + x + 0x7a6d76e9)))"

definition HHH :: macro where
  "HHH a b c d e x s r = rotate_in a c e s (r(a := r a + (rmd_H (r b) (r c) (r d) + x + 0x6d703ef3)))"

definition III :: macro where
  "III a b c d e x s r = rotate_in a c e s (r(a := r a + (rmd_I (r b) (r c) (r d) + x + 0x5c4dd124)))"

definition JJJ :: macro where
  "JJJ a b c d e x s r = rotate_in a c e s (r(a := r a + (rmd_J (r b) (r c) (r d) + x + 0x50a28be6)))"

definition round1 :: "unit32 list \<Rightarrow> (locals \<Rightarrow> locals) list" where
  "round1 X = [
    FF AA BB CC DD EE (X ! 0) 11,
    FF EE AA BB CC DD (X ! 1) 14,
    FF DD EE AA BB CC (X ! 2) 15,
    FF CC DD EE AA BB (X ! 3) 12,
    FF BB CC DD EE AA (X ! 4) 5,
    FF AA BB CC DD EE (X ! 5) 8,
    FF EE AA BB CC DD (X ! 6) 7,
    FF DD EE AA BB CC (X ! 7) 9,
    FF CC DD EE AA BB (X ! 8) 11,
    FF BB CC DD EE AA (X ! 9) 13,
    FF AA BB CC DD EE (X ! 10) 14,
    FF EE AA BB CC DD (X ! 11) 15,
    FF DD EE AA BB CC (X ! 12) 6,
    FF CC DD EE AA BB (X ! 13) 7,
    FF BB CC DD EE AA (X ! 14) 9,
    FF AA BB CC DD EE (X ! 15) 8]"

definition round2 :: "unit32 list \<Rightarrow> (locals \<Rightarrow> locals) list" where
  "round2 X = [
    GG EE AA BB CC DD (X ! 7) 7,
    GG DD EE AA BB CC (X ! 4) 6,
    GG CC DD EE AA BB (X ! 13) 8,
    GG BB CC DD EE AA (X ! 1) 13,
    GG AA BB CC DD EE (X ! 10) 11,
    GG EE AA BB CC DD (X ! 6) 9,
    GG DD EE AA BB CC (X ! 15) 7,
    GG CC DD EE AA BB (X ! 3) 15,
    GG BB CC DD EE AA (X ! 12) 7,
    GG AA BB CC DD EE (X ! 0) 12,
    GG EE AA BB CC DD (X ! 9) 15,
    GG DD EE AA BB CC (X ! 5) 9,
    GG CC DD EE AA BB (X ! 2) 11,
    GG BB CC DD EE AA (X ! 14) 7,
    GG AA BB CC DD EE (X ! 11) 13,
    GG EE AA BB CC DD (X ! 8) 12]"

definition round3 :: "unit32 list \<Rightarrow> (locals \<Rightarrow> locals) list" where
  "round3 X = [
    HH DD EE AA BB CC (X ! 3) 11,
    HH CC DD EE AA BB (X ! 10) 13,
    HH BB CC DD EE AA (X ! 14) 6,
    HH AA BB CC DD EE (X ! 4) 7,
    HH EE AA BB CC DD (X ! 9) 14,
    HH DD EE AA BB CC (X ! 15) 9,
    HH CC DD EE AA BB (X ! 8) 13,
    HH BB CC DD EE AA (X ! 1) 15,
    HH AA BB CC DD EE (X ! 2) 14,
    HH EE AA BB CC DD (X ! 7) 8,
    HH DD EE AA BB CC (X ! 0) 13,
    HH CC DD EE AA BB (X ! 6) 6,
    HH BB CC DD EE AA (X ! 13) 5,
    HH AA BB CC DD EE (X ! 11) 12,
    HH EE AA BB CC DD (X ! 5) 7,
    HH DD EE AA BB CC (X ! 12) 5]"

definition round4 :: "unit32 list \<Rightarrow> (locals \<Rightarrow> locals) list" where
  "round4 X = [
    II CC DD EE AA BB (X ! 1) 11,
    II BB CC DD EE AA (X ! 9) 12,
    II AA BB CC DD EE (X ! 11) 14,
    II EE AA BB CC DD (X ! 10) 15,
    II DD EE AA BB CC (X ! 0) 14,
    II CC DD EE AA BB (X ! 8) 15,
    II BB CC DD EE AA (X ! 12) 9,
    II AA BB CC DD EE (X ! 4) 8,
    II EE AA BB CC DD (X ! 13) 9,
    II DD EE AA BB CC (X ! 3) 14,
    II CC DD EE AA BB (X ! 7) 5,
    II BB CC DD EE AA (X ! 15) 6,
    II AA BB CC DD EE (X ! 14) 8,
    II EE AA BB CC DD (X ! 5) 6,
    II DD EE AA BB CC (X ! 6) 5,
    II CC DD EE AA BB (X ! 2) 12]"

definition round5 :: "unit32 list \<Rightarrow> (locals \<Rightarrow> locals) list" where
  "round5 X = [
    JJ BB CC DD EE AA (X ! 4) 9,
    JJ AA BB CC DD EE (X ! 0) 15,
    JJ EE AA BB CC DD (X ! 5) 5,
    JJ DD EE AA BB CC (X ! 9) 11,
    JJ CC DD EE AA BB (X ! 7) 6,
    JJ BB CC DD EE AA (X ! 12) 8,
    JJ AA BB CC DD EE (X ! 2) 13,
    JJ EE AA BB CC DD (X ! 10) 12,
    JJ DD EE AA BB CC (X ! 14) 5,
    JJ CC DD EE AA BB (X ! 1) 12,
    JJ BB CC DD EE AA (X ! 3) 13,
    JJ AA BB CC DD EE (X ! 8) 14,
    JJ EE AA BB CC DD (X ! 11) 11,
    JJ DD EE AA BB CC (X ! 6) 8,
    JJ CC DD EE AA BB (X ! 15) 5,
    JJ BB CC DD EE AA (X ! 13) 6]"

definition parallel1 :: "unit32 list \<Rightarrow> (locals \<Rightarrow> locals) list" where
  "parallel1 X = [
    JJJ AAA BBB CCC DDD EEE (X ! 5) 8,
    JJJ EEE AAA BBB CCC DDD (X ! 14) 9,
    JJJ DDD EEE AAA BBB CCC (X ! 7) 9,
    JJJ CCC DDD EEE AAA BBB (X ! 0) 11,
    JJJ BBB CCC DDD EEE AAA (X ! 9) 13,
    JJJ AAA BBB CCC DDD EEE (X ! 2) 15,
    JJJ EEE AAA BBB CCC DDD (X ! 11) 15,
    JJJ DDD EEE AAA BBB CCC (X ! 4) 5,
    JJJ CCC DDD EEE AAA BBB (X ! 13) 7,
    JJJ BBB CCC DDD EEE AAA (X ! 6) 7,
    JJJ AAA BBB CCC DDD EEE (X ! 15) 8,
    JJJ EEE AAA BBB CCC DDD (X ! 8) 11,
    JJJ DDD EEE AAA BBB CCC (X ! 1) 14,
    JJJ CCC DDD EEE AAA BBB (X ! 10) 14,
    JJJ BBB CCC DDD EEE AAA (X ! 3) 12,
    JJJ AAA BBB CCC DDD EEE (X ! 12) 6]"

definition parallel2 :: "unit32 list \<Rightarrow> (locals \<Rightarrow> locals) list" where
  "parallel2 X = [
    III EEE AAA BBB CCC DDD (X ! 6) 9,
    III DDD EEE AAA BBB CCC (X ! 11) 13,
    III CCC DDD EEE AAA BBB (X ! 3) 15,
    III BBB CCC DDD EEE AAA (X ! 7) 7,
    III AAA BBB CCC DDD EEE (X ! 0) 12,
    III EEE AAA BBB CCC DDD (X ! 13) 8,
    III DDD EEE AAA BBB CCC (X ! 5) 9,
    III CCC DDD EEE AAA BBB (X ! 10) 11,
    III BBB CCC DDD EEE AAA (X ! 14) 7,
    III AAA BBB CCC DDD EEE (X ! 15) 7,
    III EEE AAA BBB CCC DDD (X ! 8) 12,
    III DDD EEE AAA BBB CCC (X ! 12) 7,
    III CCC DDD EEE AAA BBB (X ! 4) 6,
    III BBB CCC DDD EEE AAA (X ! 9) 15,
    III AAA BBB CCC DDD EEE (X ! 1) 13,
    III EEE AAA BBB CCC DDD (X ! 2) 11]"

definition parallel3 :: "unit32 list \<Rightarrow> (locals \<Rightarrow> locals) list" where
  "parallel3 X = [
    HHH DDD EEE AAA BBB CCC (X ! 15) 9,
    HHH CCC DDD EEE AAA BBB (X ! 5) 7,
    HHH BBB CCC DDD EEE AAA (X ! 1) 15,
    HHH AAA BBB CCC DDD EEE (X ! 3) 11,
    HHH EEE AAA BBB CCC DDD (X ! 7) 8,
    HHH DDD EEE AAA BBB CCC (X ! 14) 6,
    HHH CCC DDD EEE AAA BBB (X ! 6) 6,
    HHH BBB CCC DDD EEE AAA (X ! 9) 14,
    HHH AAA BBB CCC DDD EEE (X ! 11) 12,
    HHH EEE AAA BBB CCC DDD (X ! 8) 13,
    HHH DDD EEE AAA BBB CCC (X ! 12) 5,
    HHH CCC DDD EEE AAA BBB (X ! 2) 14,
    HHH BBB CCC DDD EEE AAA (X ! 10) 13,
    HHH AAA BBB CCC DDD EEE (X ! 0) 13,
    HHH EEE AAA BBB CCC DDD (X ! 4) 7,
    HHH DDD EEE AAA BBB CCC (X ! 13) 5]"

definition parallel4 :: "unit32 list \<Rightarrow> (locals \<Rightarrow> locals) list" where
  "parallel4 X = [
    GGG CCC DDD EEE AAA BBB (X ! 8) 15,
    GGG BBB CCC DDD EEE AAA (X ! 6) 5,
    GGG AAA BBB CCC DDD EEE (X ! 4) 8,
    GGG EEE AAA BBB CCC DDD (X ! 1) 11,
    GGG DDD EEE AAA BBB CCC (X ! 3) 14,
    GGG CCC DDD EEE AAA BBB (X ! 11) 14,
    GGG BBB CCC DDD EEE AAA (X ! 15) 6,
    GGG AAA BBB CCC DDD EEE (X ! 0) 14,
    GGG EEE AAA BBB CCC DDD (X ! 5) 6,
    GGG DDD EEE AAA BBB CCC (X ! 12) 9,
    GGG CCC DDD EEE AAA BBB (X ! 2) 12,
    GGG BBB CCC DDD EEE AAA (X ! 13) 9,
    GGG AAA BBB CCC DDD EEE (X ! 9) 12,
    GGG EEE AAA BBB CCC DDD (X ! 7) 5,
    GGG DDD EEE AAA BBB CCC (X ! 10) 15,
    GGG CCC DDD EEE AAA BBB (X ! 14) 8]"

definition parallel5 :: "unit32 list \<Rightarrow> (locals \<Rightarrow> locals) list" where
  "parallel5 X = [
    FFF BBB CCC DDD EEE AAA (X ! 12) 8,
    FFF AAA BBB CCC DDD EEE (X ! 15) 5,
    FFF EEE AAA BBB CCC DDD (X ! 10) 12,
    FFF DDD EEE AAA BBB CCC (X ! 4) 9,
    FFF CCC DDD EEE AAA BBB (X ! 1) 12,
    FFF BBB CCC DDD EEE AAA (X ! 5) 5,
    FFF AAA BBB CCC DDD EEE (X ! 8) 14,
    FFF EEE AAA BBB CCC DDD (X ! 7) 6,
    FFF DDD EEE AAA BBB CCC (X ! 6) 8,
    FFF CCC DDD EEE AAA BBB (X ! 2) 13,
    FFF BBB CCC DDD EEE AAA (X ! 13) 6,
    FFF AAA BBB CCC DDD EEE (X ! 14) 5,
    FFF EEE AAA BBB CCC DDD (X ! 0) 15,
    FFF DDD EEE AAA BBB CCC (X ! 3) 13,
    FFF CCC DDD EEE AAA BBB (X ! 9) 11,
    FFF BBB CCC DDD EEE AAA (X ! 11) 11]"

definition exec :: "(locals \<Rightarrow> locals) list \<Rightarrow> locals \<Rightarrow> locals" where
  "exec ss r = foldl (\<lambda>r f. f r) r ss"

definition MDinit :: "unit32 list" where
  "MDinit = [0x67452301, 0xefcdab89, 0x98badcfe, 0x10325476, 0xc3d2e1f0]"

definition compress :: "unit32 list \<Rightarrow> unit32 list \<Rightarrow> unit32 list" where
  "compress MDbuf X =
    (let r = exec
           (round1 X @ round2 X @ round3 X @ round4 X @ round5 X @
            parallel1 X @ parallel2 X @ parallel3 X @ parallel4 X @ parallel5 X)
           ((\<lambda>_. 0)
             (AA := MDbuf ! 0, BB := MDbuf ! 1, CC := MDbuf ! 2, DD := MDbuf ! 3, EE := MDbuf ! 4,
              AAA := MDbuf ! 0, BBB := MDbuf ! 1, CCC := MDbuf ! 2, DDD := MDbuf ! 3, EEE := MDbuf ! 4));
         ddd = r DDD + (r CC + MDbuf ! 1);
         MDbuf = MDbuf[1 := MDbuf ! 2 + r DD + r EEE];
         MDbuf = MDbuf[2 := MDbuf ! 3 + r EE + r AAA];
         MDbuf = MDbuf[3 := MDbuf ! 4 + r AA + r BBB];
         MDbuf = MDbuf[4 := MDbuf ! 0 + r BB + r CCC]
     in MDbuf[0 := ddd])"

text \<open>\<open>MDfinish\<close>: the loop that puts the remaining bytes into \<open>X\<close>, and the function.\<close>

definition put_byte :: "bytes \<Rightarrow> unit32 list \<Rightarrow> nat \<Rightarrow> unit32 list" where
  "put_byte strptr X i =
     X[drop_bit 2 i := X ! drop_bit 2 i XOR push_bit (8 * (i AND 3)) (ucast (strptr ! i))]"

definition MDfinish :: "unit32 list \<Rightarrow> bytes \<Rightarrow> unit32 \<Rightarrow> unit32 \<Rightarrow> unit32 list" where
  "MDfinish MDbuf strptr lswlen mswlen =
    (let X = foldl (put_byte strptr) (replicate 16 0) [0..<unat (lswlen AND 63)];
         j = unat (drop_bit 2 lswlen AND 15);
         X = X[j := X ! j XOR push_bit (8 * unat (lswlen AND 3) + 7) 1];
         (MDbuf, X) = (if lswlen AND 63 > 55 then (compress MDbuf X, replicate 16 0) else (MDbuf, X));
         X = X[14 := push_bit 3 lswlen];
         X = X[15 := drop_bit 29 lswlen OR push_bit 3 mswlen]
     in compress MDbuf X)"

text \<open>\<open>computeRIPEMD160\<close>: the loop over the full blocks, the output loop, and the function.\<close>

function rmd_blocks :: "unit32 list \<Rightarrow> bytes \<Rightarrow> unit32 list \<times> bytes" where
  "rmd_blocks MDbuf message =
    (if length message > 63
     then rmd_blocks (compress MDbuf (map (\<lambda>i. BYTES_TO_DWORD (drop (4 * i) message)) [0..<16]))
       (drop 64 message)
     else (MDbuf, message))"
  by pat_completeness auto
termination
  by (relation "measure (\<lambda>(MDbuf, message). length message)") auto

declare rmd_blocks.simps [simp del]

definition hashcode_word :: "unit32 \<Rightarrow> bytes" where
  "hashcode_word w = [ucast w, ucast (drop_bit 8 w), ucast (drop_bit 16 w), ucast (drop_bit 24 w)]"

definition computeRIPEMD160 :: "bytes \<Rightarrow> bytes" where
  "computeRIPEMD160 message =
    (let (MDbuf, rest) = rmd_blocks MDinit message
     in concat (map hashcode_word (MDfinish MDbuf rest (word_of_nat (length message)) 0)))"


section \<open>RIPEMD-160\<close>

definition rho :: "nat \<Rightarrow> nat" where
  "rho i = [7, 4, 13, 1, 10, 6, 15, 3, 12, 0, 9, 5, 2, 14, 11, 8] ! i"

definition rmd_pi :: "nat \<Rightarrow> nat" where
  "rmd_pi i = (9 * i + 5) mod 16"

text \<open>The message word that step \<open>j\<close> of each line uses, and the shift, by round and message word.\<close>

definition word_left :: "nat \<Rightarrow> nat" where
  "word_left j = (rho ^^ (j div 16)) (j mod 16)"

definition word_right :: "nat \<Rightarrow> nat" where
  "word_right j = (rho ^^ (j div 16)) (rmd_pi (j mod 16))"

definition shift :: "nat \<Rightarrow> nat \<Rightarrow> nat" where
  "shift k i =
    [[11, 14, 15, 12, 5, 8, 7, 9, 11, 13, 14, 15, 6, 7, 9, 8],
     [12, 13, 11, 15, 6, 9, 9, 7, 12, 15, 11, 13, 7, 8, 7, 7],
     [13, 15, 14, 11, 7, 7, 6, 8, 13, 14, 13, 12, 5, 5, 6, 9],
     [14, 11, 12, 14, 8, 6, 5, 5, 15, 12, 15, 14, 9, 9, 8, 6],
     [15, 12, 13, 13, 9, 5, 8, 6, 14, 11, 12, 11, 8, 6, 5, 5]] ! k ! i"

definition rmd_f :: "nat \<Rightarrow> unit32 \<Rightarrow> unit32 \<Rightarrow> unit32 \<Rightarrow> unit32" where
  "rmd_f k x y z =
    (if k = 0 then x XOR y XOR z
     else if k = 1 then (x AND y) OR (NOT x AND z)
     else if k = 2 then (x OR NOT y) XOR z
     else if k = 3 then (x AND z) OR (y AND NOT z)
     else x XOR (y OR NOT z))"

definition const_left :: "nat \<Rightarrow> unit32" where
  "const_left k = [0, 0x5a827999, 0x6ed9eba1, 0x8f1bbcdc, 0xa953fd4e] ! k"

definition const_right :: "nat \<Rightarrow> unit32" where
  "const_right k = [0x50a28be6, 0x5c4dd124, 0x6d703ef3, 0x7a6d76e9, 0] ! k"

type_synonym line = "unit32 \<times> unit32 \<times> unit32 \<times> unit32 \<times> unit32"

definition rmd_step ::
  "(unit32 \<Rightarrow> unit32 \<Rightarrow> unit32 \<Rightarrow> unit32) \<Rightarrow> unit32 \<Rightarrow> unit32 \<Rightarrow> nat \<Rightarrow> line \<Rightarrow> line" where
  "rmd_step f k x s v =
    (case v of (A, B, C, D, E) \<Rightarrow> (E, word_rotl s (A + f B C D + x + k) + E, B, word_rotl 10 C, D))"

definition step_left :: "unit32 list \<Rightarrow> line \<Rightarrow> nat \<Rightarrow> line" where
  "step_left X v j = rmd_step (rmd_f (j div 16)) (const_left (j div 16))
     (X ! word_left j) (shift (j div 16) (word_left j)) v"

definition step_right :: "unit32 list \<Rightarrow> line \<Rightarrow> nat \<Rightarrow> line" where
  "step_right X v j = rmd_step (rmd_f (4 - j div 16)) (const_right (j div 16))
     (X ! word_right j) (shift (j div 16) (word_right j)) v"

definition rmd_block :: "unit32 list \<Rightarrow> bytes \<Rightarrow> unit32 list" where
  "rmd_block H b =
    (let v = (H ! 0, H ! 1, H ! 2, H ! 3, H ! 4);
         (A, B, C, D, E) = foldl (step_left (le_words b)) v [0..<80];
         (A', B', C', D', E') = foldl (step_right (le_words b)) v [0..<80]
     in [H ! 1 + C + D', H ! 2 + D + E', H ! 3 + E + A', H ! 4 + A + B', H ! 0 + B + C'])"

definition le_length :: "nat \<Rightarrow> bytes" where
  "le_length n = le_put 8 (8 * n)"

definition le_out :: "unit32 list \<Rightarrow> bytes" where
  "le_out H = concat (map (le_bytes 4) H)"

definition rmd_H0 :: "unit32 list" where
  "rmd_H0 = [0x67452301, 0xefcdab89, 0x98badcfe, 0x10325476, 0xc3d2e1f0]"

definition ripemd160 :: "bytes \<Rightarrow> bytes" where
  "ripemd160 = md_digest rmd_block le_length rmd_H0 le_out"


section \<open>The unrolled rounds\<close>

text \<open>
  Step \<open>j\<close> of a line sees the five variables in the order \<open>names_left j\<close>: the step assigns its first
  and its third variable and the next step sees the variables turned by one place.
\<close>

type_synonym regs = "reg \<times> reg \<times> reg \<times> reg \<times> reg"

definition names_left :: "nat \<Rightarrow> regs" where
  "names_left j =
    [(AA, BB, CC, DD, EE), (EE, AA, BB, CC, DD), (DD, EE, AA, BB, CC),
     (CC, DD, EE, AA, BB), (BB, CC, DD, EE, AA)] ! (j mod 5)"

definition names_right :: "nat \<Rightarrow> regs" where
  "names_right j =
    [(AAA, BBB, CCC, DDD, EEE), (EEE, AAA, BBB, CCC, DDD), (DDD, EEE, AAA, BBB, CCC),
     (CCC, DDD, EEE, AAA, BBB), (BBB, CCC, DDD, EEE, AAA)] ! (j mod 5)"

definition view :: "locals \<Rightarrow> regs \<Rightarrow> line" where
  "view r n = (case n of (a, b, c, d, e) \<Rightarrow> (r a, r b, r c, r d, r e))"

definition stmt_left :: "unit32 list \<Rightarrow> nat \<Rightarrow> locals \<Rightarrow> locals" where
  "stmt_left X j =
    (case names_left j of (a, b, c, d, e) \<Rightarrow>
      ([FF, GG, HH, II, JJ] ! (j div 16)) a b c d e (X ! word_left j) (shift (j div 16) (word_left j)))"

definition stmt_right :: "unit32 list \<Rightarrow> nat \<Rightarrow> locals \<Rightarrow> locals" where
  "stmt_right X j =
    (case names_right j of (a, b, c, d, e) \<Rightarrow>
      ([JJJ, III, HHH, GGG, FFF] ! (j div 16)) a b c d e (X ! word_right j) (shift (j div 16) (word_right j)))"

lemmas stmt_simps =
  stmt_left_def stmt_right_def names_left_def names_right_def word_left_def word_right_def
  rho_def rmd_pi_def shift_def funpow_eval upt_eval

lemma left_rounds:
  "round1 X = map (stmt_left X) [0..<16]"
  "round2 X = map (stmt_left X) [16..<32]"
  "round3 X = map (stmt_left X) [32..<48]"
  "round4 X = map (stmt_left X) [48..<64]"
  "round5 X = map (stmt_left X) [64..<80]"
  by (simp_all add: stmt_simps round1_def round2_def round3_def round4_def round5_def)

lemma right_rounds:
  "parallel1 X = map (stmt_right X) [0..<16]"
  "parallel2 X = map (stmt_right X) [16..<32]"
  "parallel3 X = map (stmt_right X) [32..<48]"
  "parallel4 X = map (stmt_right X) [48..<64]"
  "parallel5 X = map (stmt_right X) [64..<80]"
  by (simp_all add: stmt_simps parallel1_def parallel2_def parallel3_def parallel4_def parallel5_def)

lemmas macro_defs =
  FF_def GG_def HH_def II_def JJ_def FFF_def GGG_def HHH_def III_def JJJ_def

lemmas function_defs = rmd_F_def rmd_G_def rmd_H_def rmd_I_def rmd_J_def rmd_f_def

lemma ROL_rotl:
  assumes "n < 32"
  shows "ROL x n = word_rotl n x"
proof (rule bit_word_eqI)
  fix i
  assume i: "i < LENGTH(32)"
  have "(i + 32 - n) mod 32 = (if n \<le> i then i - n else i + 32 - n)"
  proof (cases "n \<le> i")
    case True
    then have "i + 32 - n = (i - n) + 32" by simp
    then have "(i + 32 - n) mod 32 = (i - n) mod 32" by (simp only: mod_add_self2)
    with True i show ?thesis by simp
  qed (use assms i in simp)
  moreover have "\<not> bit x (i + 32 - n)" if "n \<le> i"
    using that by (auto dest: bit_imp_le_length)
  ultimately show "bit (ROL x n) i = bit (word_rotl n x) i"
    using assms i by (simp add: ROL_def bit_simps add.commute [of i 32])
qed

lemma shift_left_less: "j < 80 \<Longrightarrow> shift (j div 16) (word_left j) < 32"
proof -
  have "\<forall>j \<in> set [0..<80]. shift (j div 16) (word_left j) < 32"
    by code_simp
  then show "j < 80 \<Longrightarrow> shift (j div 16) (word_left j) < 32" by simp
qed

lemma shift_right_less: "j < 80 \<Longrightarrow> shift (j div 16) (word_right j) < 32"
proof -
  have "\<forall>j \<in> set [0..<80]. shift (j div 16) (word_right j) < 32"
    by code_simp
  then show "j < 80 \<Longrightarrow> shift (j div 16) (word_right j) < 32" by simp
qed

text \<open>Each macro is a step of the reference on its five variables, and changes no other variable.\<close>

lemma macro_step:
  assumes "distinct [a, b, c, d, e]" and "s < 32" and "k < 5"
  shows "view (([FF, GG, HH, II, JJ] ! k) a b c d e x s r) (e, a, b, c, d) =
      rmd_step (rmd_f k) (const_left k) x s (view r (a, b, c, d, e))"
    and "view (([JJJ, III, HHH, GGG, FFF] ! k) a b c d e x s r) (e, a, b, c, d) =
      rmd_step (rmd_f (4 - k)) (const_right k) x s (view r (a, b, c, d, e))"
proof -
  have "k \<in> {0, 1, 2, 3, 4}"
    using \<open>k < 5\<close> by auto
  with assms(1,2)
  show "view (([FF, GG, HH, II, JJ] ! k) a b c d e x s r) (e, a, b, c, d) =
      rmd_step (rmd_f k) (const_left k) x s (view r (a, b, c, d, e))"
    and "view (([JJJ, III, HHH, GGG, FFF] ! k) a b c d e x s r) (e, a, b, c, d) =
      rmd_step (rmd_f (4 - k)) (const_right k) x s (view r (a, b, c, d, e))"
    by (auto simp: view_def rmd_step_def macro_defs function_defs rotate_in_def Let_def ROL_rotl
        const_left_def const_right_def add.assoc)
qed

lemma macro_frame:
  assumes "q \<noteq> a" and "q \<noteq> c" and "k < 5"
  shows "([FF, GG, HH, II, JJ] ! k) a b c d e x s r q = r q"
    and "([JJJ, III, HHH, GGG, FFF] ! k) a b c d e x s r q = r q"
proof -
  have "k \<in> {0, 1, 2, 3, 4}"
    using \<open>k < 5\<close> by auto
  with assms(1,2)
  show "([FF, GG, HH, II, JJ] ! k) a b c d e x s r q = r q"
    and "([JJJ, III, HHH, GGG, FFF] ! k) a b c d e x s r q = r q"
    by (auto simp: macro_defs rotate_in_def)
qed

lemma mod_5_cases:
  fixes j :: nat
  obtains "j mod 5 = 0" | "j mod 5 = 1" | "j mod 5 = 2" | "j mod 5 = 3" | "j mod 5 = 4"
proof -
  have "j mod 5 < 5" by simp
  then show thesis using that by linarith
qed

lemma stmt_left_step:
  assumes "j < 80"
  shows "view (stmt_left X j r) (names_left (Suc j)) = step_left X (view r (names_left j)) j"
  using shift_left_less [OF assms] assms
  by (cases j rule: mod_5_cases)
    (simp_all add: stmt_left_def step_left_def names_left_def mod_Suc macro_step less_mult_imp_div_less)

lemma stmt_right_step:
  assumes "j < 80"
  shows "view (stmt_right X j r) (names_right (Suc j)) = step_right X (view r (names_right j)) j"
  using shift_right_less [OF assms] assms
  by (cases j rule: mod_5_cases)
    (simp_all add: stmt_right_def step_right_def names_right_def mod_Suc macro_step less_mult_imp_div_less)

lemma stmt_left_frame:
  "j < 80 \<Longrightarrow> q \<in> {AAA, BBB, CCC, DDD, EEE} \<Longrightarrow> stmt_left X j r q = r q"
  by (cases j rule: mod_5_cases)
    (auto simp: stmt_left_def names_left_def macro_frame less_mult_imp_div_less)

lemma stmt_right_frame:
  "j < 80 \<Longrightarrow> q \<in> {AA, BB, CC, DD, EE} \<Longrightarrow> stmt_right X j r q = r q"
  by (cases j rule: mod_5_cases)
    (auto simp: stmt_right_def names_right_def macro_frame less_mult_imp_div_less)

lemma exec_append [simp]: "exec (xs @ ys) r = exec ys (exec xs r)"
  by (simp add: exec_def)

lemma exec_left:
  "n \<le> 80 \<Longrightarrow> view (exec (map (stmt_left X) [0..<n]) r) (names_left n) =
     foldl (step_left X) (view r (names_left 0)) [0..<n]"
  by (induction n) (simp_all add: exec_def stmt_left_step)

lemma exec_right:
  "n \<le> 80 \<Longrightarrow> view (exec (map (stmt_right X) [0..<n]) r) (names_right n) =
     foldl (step_right X) (view r (names_right 0)) [0..<n]"
  by (induction n) (simp_all add: exec_def stmt_right_step)

lemma exec_left_frame:
  "n \<le> 80 \<Longrightarrow> q \<in> {AAA, BBB, CCC, DDD, EEE} \<Longrightarrow> exec (map (stmt_left X) [0..<n]) r q = r q"
  by (induction n) (simp_all add: exec_def stmt_left_frame)

lemma exec_right_frame:
  "n \<le> 80 \<Longrightarrow> q \<in> {AA, BB, CC, DD, EE} \<Longrightarrow> exec (map (stmt_right X) [0..<n]) r q = r q"
  by (induction n) (simp_all add: exec_def stmt_right_frame)


lemma compress_rmd_block:
  assumes "length b = 64" and "length H = 5"
  shows "compress H (le_words b) = rmd_block H b"
proof -
  let ?X = "le_words b" and ?v = "(H ! 0, H ! 1, H ! 2, H ! 3, H ! 4)"
  define r0 where "r0 = (\<lambda>_. 0 :: unit32)
    (AA := H ! 0, BB := H ! 1, CC := H ! 2, DD := H ! 3, EE := H ! 4,
     AAA := H ! 0, BBB := H ! 1, CCC := H ! 2, DDD := H ! 3, EEE := H ! 4)"
  define r1 where "r1 = exec (map (stmt_left ?X) [0..<80]) r0"
  define r where "r = exec (map (stmt_right ?X) [0..<80]) r1"
  have upt: "[0..<80] = [0..<16] @ [16..<32] @ [32..<48] @ [48..<64] @ [64..<80]"
    using upt_add_eq_append [of 0 16 64] upt_add_eq_append [of 16 32 48]
      upt_add_eq_append [of 32 48 32] upt_add_eq_append [of 48 64 16] by simp
  have code: "exec (round1 ?X @ round2 ?X @ round3 ?X @ round4 ?X @ round5 ?X @
      parallel1 ?X @ parallel2 ?X @ parallel3 ?X @ parallel4 ?X @ parallel5 ?X) r0 = r"
    unfolding r_def r1_def upt map_append left_rounds right_rounds by (simp only: exec_append)
  have "view r1 (AA, BB, CC, DD, EE) = foldl (step_left ?X) ?v [0..<80]"
    using exec_left [of 80 ?X r0] by (simp add: r1_def names_left_def) (simp add: view_def r0_def)
  then have left: "foldl (step_left ?X) ?v [0..<80] = (r AA, r BB, r CC, r DD, r EE)"
    by (simp add: view_def r_def exec_right_frame)
  have "view r1 (AAA, BBB, CCC, DDD, EEE) = ?v"
    by (simp add: view_def r1_def exec_left_frame) (simp add: r0_def)
  then have right: "foldl (step_right ?X) ?v [0..<80] = (r AAA, r BBB, r CCC, r DDD, r EEE)"
    using exec_right [of 80 ?X r1] by (simp add: r_def names_right_def) (simp add: view_def)
  obtain h0 h1 h2 h3 h4 where "H = [h0, h1, h2, h3, h4]"
    using assms(2) by (auto simp: length_Suc_conv numeral_eq_Suc)
  then show ?thesis
    using left right unfolding compress_def code [unfolded r0_def] Let_def
    by (simp add: rmd_block_def add.commute add.left_commute)
qed


section \<open>Padding and output\<close>

lemma nat_and_3: "(i :: nat) AND 3 = i mod 4"
  using take_bit_eq_mask [of 2 i] by (simp add: take_bit_eq_mod mask_eq_exp_minus_1)

lemma put_byte_words:
  assumes "i < length b" and "4 dvd length b" and "b ! i = 0"
  shows "put_byte strptr (le_words b) i = le_words (b[i := strptr ! i])"
  using le_words_xor_byte [OF assms, of "strptr ! i"]
  by (simp add: put_byte_def nat_and_3 drop_bit_eq_div)

lemma put_bytes:
  assumes "n \<le> length strptr" and "n \<le> 64"
  shows "foldl (put_byte strptr) (replicate 16 0) [0..<n] = le_words (take n strptr @ replicate (64 - n) 0)"
  using assms
proof (induction n)
  case 0
  show ?case using le_words_zeros [of 16] by simp
next
  case (Suc n)
  have "replicate (64 - n) (0 :: unit8) = 0 # replicate (63 - n) 0"
    using Suc.prems by (cases "64 - n") auto
  then have "(take n strptr @ replicate (64 - n) 0)[n := strptr ! n] = take (Suc n) strptr @ replicate (63 - n) 0"
    using Suc.prems by (simp add: list_update_append take_Suc_conv_app_nth)
  moreover have "put_byte strptr (le_words (take n strptr @ replicate (64 - n) 0)) n
      = le_words ((take n strptr @ replicate (64 - n) 0)[n := strptr ! n])"
    using Suc.prems by (intro put_byte_words) (simp_all add: nth_append)
  ultimately show ?case
    using Suc by simp
qed

lemma put_end_bit:
  assumes "length r < 64"
  shows "(let X = le_words (r @ replicate (64 - length r) 0); j = length r div 4
      in X[j := X ! j XOR push_bit (8 * (length r mod 4) + 7) 1])
    = le_words (r @ [0x80] @ replicate (63 - length r) 0)"
proof -
  have "replicate (64 - length r) (0 :: unit8) = 0 # replicate (63 - length r) 0"
    using assms by (cases "64 - length r") auto
  then have upd: "(r @ replicate (64 - length r) 0)[length r := 0x80] = r @ [0x80] @ replicate (63 - length r) 0"
    by (simp add: list_update_append)
  have "push_bit (8 * (length r mod 4) + 7) (1 :: unit32) = push_bit (8 * (length r mod 4)) (ucast (0x80 :: unit8))"
    by (simp add: push_bit_eq_mult power_add)
  then show ?thesis
    using assms le_words_xor_byte [of "length r" "r @ replicate (64 - length r) 0" "0x80"]
    by (simp add: Let_def nth_append upd)
qed

lemma put_length:
  assumes "length b = 56" and "n < 2 ^ 32" and z: "length z = 8"
  shows "(le_words (b @ z))[14 := push_bit 3 (word_of_nat n), 15 := drop_bit 29 (word_of_nat n) OR push_bit 3 0]
    = le_words (b @ le_length n)"
proof -
  have "le_words (b @ z) = le_words b @ le_words z" and "length (le_words b) = 14"
    using assms by (simp_all add: le_words_append)
  moreover obtain z0 z1 where "le_words z = [z0, z1]"
  proof -
    have "length (le_words z) = Suc (Suc 0)" by (simp add: z)
    then obtain z0 z1 where "le_words z = [z0, z1]" by (auto simp: length_Suc_conv simp del: length_le_words)
    then show thesis ..
  qed
  moreover have "le_length n = le_put 4 (8 * n) @ le_put 4 (8 * n div 2 ^ 32)"
    using le_put_add [of 4 4 "8 * n"] by (simp add: le_length_def)
  then have "le_words (le_length n) = [word_of_nat (8 * n), word_of_nat (8 * n div 2 ^ 32)]"
    by (simp add: le_words_def chunks_block le_word_le_put4 chunks_step)
  moreover have "push_bit 3 (word_of_nat n :: unit32) = word_of_nat (8 * n)"
    by (simp add: push_bit_eq_mult)
  moreover have "drop_bit 29 (word_of_nat n :: unit32) = word_of_nat (8 * n div 2 ^ 32)"
    using assms(2) by (simp add: word_unat_eq_iff unat_drop_bit_div unat_of_nat)
  ultimately show ?thesis
    using assms by (simp add: le_words_append list_update_append)
qed

lemma hashcode_word_bytes: "hashcode_word w = le_bytes 4 w"
proof -
  have "ucast (drop_bit (8 * k) w) = (word_of_nat (unat w div 256 ^ k mod 256) :: unit8)" for k
    by (simp add: word_unat_eq_iff unat_of_nat unsigned_ucast_eq unat_drop_bit_div
        take_bit_eq_mod power_mult)
  from this [of 0] this [of 1] this [of 2] this [of 3] show ?thesis
    by (simp add: hashcode_word_def le_bytes_def le_put_eval div_mult2_eq [symmetric])
qed

lemma BYTES_TO_DWORD_word:
  assumes "4 \<le> length bs"
  shows "BYTES_TO_DWORD bs = le_word (take 4 bs)"
proof -
  obtain b0 b1 b2 b3 cs where "bs = b0 # b1 # b2 # b3 # cs"
    using assms by (auto simp: numeral_eq_Suc Suc_le_length_iff)
  moreover have "(le_word [] :: unit32) = 0" by (simp add: le_word_def)
  ultimately show ?thesis
    by (simp add: BYTES_TO_DWORD_def le_word_Cons push_bit_or or.commute or.left_commute)
qed

lemma length_rmd_block [simp]: "length (rmd_block H b) = 5"
  by (simp add: rmd_block_def Let_def split: prod.split)

interpretation rmd: md_hash rmd_block le_length rmd_H0 le_out "\<lambda>H. length H = 5" 20
proof
  show "length (le_out H) = 20" if "length H = 5" for H
    using that by (simp add: le_out_def length_concat comp_def sum_list_triv)
qed (simp_all add: le_length_def rmd_H0_def)

lemma rmd_blocks_run:
  "length H = 5 \<Longrightarrow> rmd_blocks H m = (md_run rmd_block H m, rest64 m)"
proof (induction H m rule: rmd_blocks.induct)
  case (1 H m)
  show ?case
  proof (cases "length m > 63")
    case True
    have "map (\<lambda>i. BYTES_TO_DWORD (drop (4 * i) m)) [0..<16] = le_words (take 64 m)"
    proof (rule nth_equalityI)
      fix i assume "i < length (map (\<lambda>i. BYTES_TO_DWORD (drop (4 * i) m)) [0..<16])"
      then have i: "i < 16" by simp
      then have "take 4 (drop (4 * i) (take 64 m)) = take 4 (drop (4 * i) m)"
        by (simp add: drop_take)
      with i True show "map (\<lambda>i. BYTES_TO_DWORD (drop (4 * i) m)) [0..<16] ! i = le_words (take 64 m) ! i"
        by (simp add: nth_le_words BYTES_TO_DWORD_word)
    qed (use True in simp)
    then have "rmd_blocks H m = rmd_blocks (rmd_block H (take 64 m)) (drop 64 m)"
      using True "1.prems" by (simp add: rmd_blocks.simps [of H m] compress_rmd_block)
    moreover have "md_run rmd_block H m = md_run rmd_block (rmd_block H (take 64 m)) (drop 64 m)"
      using True md_run_block [of "take 64 m" rmd_block H "drop 64 m"] by simp
    moreover have "length m div 64 = Suc ((length m - 64) div 64)"
      using True by (simp add: le_div_geq)
    then have "rest64 m = rest64 (drop 64 m)"
      by (simp add: rest64_def add.commute)
    ultimately show ?thesis
      using "1.IH" True "1.prems" by (simp add: compress_rmd_block \<open>map _ _ = _\<close>)
  next
    case False
    then show ?thesis by (simp add: rmd_blocks.simps [of H m] rest64_def)
  qed
qed

lemma length_word_parts:
  fixes n :: nat
  assumes "n < 2 ^ 32"
  defines "w \<equiv> word_of_nat n :: unit32"
  shows "unat (w AND 63) = n mod 64" and "unat (w AND 3) = n mod 64 mod 4"
    and "unat (drop_bit 2 w AND 15) = n mod 64 div 4" and "w AND 63 > 55 \<longleftrightarrow> n mod 64 > 55"
proof -
  have w: "unat w = n"
    using assms by (simp add: unat_of_nat)
  have masks: "(63 :: unit32) = mask 6" "(3 :: unit32) = mask 2" "(15 :: unit32) = mask 4"
    by (simp_all add: mask_eq_exp_minus_1)
  show 63: "unat (w AND 63) = n mod 64"
    by (simp only: masks unat_and_mask_eq w) simp
  show "unat (w AND 3) = n mod 64 mod 4"
    by (simp only: masks unat_and_mask_eq w) (simp add: mod_mod_cancel)
  have "n div 4 mod 16 = n mod 64 div 4"
    using mod_mult2_eq [of n 4 16] by simp
  then show "unat (drop_bit 2 w AND 15) = n mod 64 div 4"
    by (simp only: masks unat_and_mask_eq unat_drop_bit_div w) simp
  show "w AND 63 > 55 \<longleftrightarrow> n mod 64 > 55"
    by (simp add: word_less_nat_alt 63)
qed

lemma MDfinish_run:
  assumes "length H = 5" and n: "n < 2 ^ 32" and r: "length r = n mod 64"
  shows "MDfinish H r (word_of_nat n) 0 =
    (if n mod 64 \<le> 55
     then rmd_block H (r @ [0x80] @ replicate (55 - n mod 64) 0 @ le_length n)
     else rmd_block (rmd_block H (r @ [0x80] @ replicate (63 - n mod 64) 0)) (replicate 56 0 @ le_length n))"
proof -
  let ?b = "r @ [0x80] @ replicate (63 - n mod 64) 0"
  have len: "length ?b = 64"
    using r mod_less_divisor [of 64 n] by simp
  have small: "length r < 64"
    using r by simp
  have end_bit: "(let X = foldl (put_byte r) (replicate 16 0) [0..<n mod 64]; j = n mod 64 div 4
      in X[j := X ! j XOR push_bit (8 * (n mod 64 mod 4) + 7) 1]) = le_words ?b"
    using put_end_bit [OF small] put_bytes [of "n mod 64" r] small r by simp
  show ?thesis
  proof (cases "n mod 64 \<le> 55")
    case True
    have "replicate (63 - n mod 64) (0 :: unit8) = replicate (55 - n mod 64) 0 @ replicate 8 0"
      using True by (simp flip: replicate_add)
    then have "?b = (r @ [0x80] @ replicate (55 - n mod 64) 0) @ replicate 8 0" by simp
    then have "(le_words ?b)[14 := push_bit 3 (word_of_nat n), 15 := drop_bit 29 (word_of_nat n) OR push_bit 3 0]
        = le_words ((r @ [0x80] @ replicate (55 - n mod 64) 0) @ le_length n)"
      using put_length [of "r @ [0x80] @ replicate (55 - n mod 64) 0" n "replicate 8 0"] r n True by simp
    with True show ?thesis
      unfolding MDfinish_def length_word_parts [OF n] using end_bit assms
      by (simp add: Let_def compress_rmd_block le_length_def)
  next
    case False
    have "(replicate 16 0)[14 := push_bit 3 (word_of_nat n), 15 := drop_bit 29 (word_of_nat n) OR push_bit 3 0]
        = le_words (replicate 56 0 @ le_length n)"
      using put_length [of "replicate 56 0" n "replicate 8 0"] n le_words_zeros [of 16]
      by (simp flip: replicate_add)
    with False show ?thesis
      unfolding MDfinish_def length_word_parts [OF n] using end_bit assms len
      by (simp add: Let_def compress_rmd_block le_length_def)
  qed
qed

lemma computeRIPEMD160_ripemd160:
  assumes "length m < 2 ^ 32"
  shows "computeRIPEMD160 m = ripemd160 m"
proof -
  let ?h = "md_run rmd_block rmd_H0 m"
  have "length ?h = 5"
    using rmd.wf_run [of rmd_H0 m] by (simp add: rmd_H0_def)
  then have "MDfinish ?h (rest64 m) (word_of_nat (length m)) 0 = md_run rmd_block rmd_H0 (md_pad le_length m)"
    using assms by (simp add: MDfinish_run rmd.digest_one rmd.digest_two)
  moreover have "rmd_blocks MDinit m = (?h, rest64 m)"
    by (simp add: rmd_blocks_run rmd_H0_def MDinit_def)
  moreover have "map hashcode_word = map (le_bytes 4)"
    by (rule ext) (simp add: hashcode_word_bytes)
  ultimately show ?thesis
    by (simp add: computeRIPEMD160_def ripemd160_def md_digest_def le_out_def)
qed

lemma length_computeRIPEMD160 [len_simps]: "length m < 2 ^ 32 \<Longrightarrow> length (computeRIPEMD160 m) = 20"
  by (simp add: computeRIPEMD160_ripemd160 ripemd160_def rmd.digest_length)


section \<open>Properties\<close>

text \<open>
  C9. The RIPEMD-160 of \<open>hash.h\<close> is RIPEMD-160 for every message that its 32-bit length argument can
  describe: the 160 unrolled macro calls are the steps of the two lines of the reference, and the
  words that \<open>MDfinish\<close> builds by XOR are the padded last block or blocks.
\<close>

theorem computeRIPEMD160_correct:
  assumes "length message < 2 ^ 32"
  shows "computeRIPEMD160 message = ripemd160 message \<and> length (computeRIPEMD160 message) = 20"
  using assms by (simp add: computeRIPEMD160_ripemd160 ripemd160_def rmd.digest_length)

theorem computeRIPEMD160_correct_witness:
  "computeRIPEMD160 (replicate 120 7) = ripemd160 (replicate 120 7) \<and>
   length (computeRIPEMD160 (replicate 120 7)) = 20"
  by (rule computeRIPEMD160_correct) simp

end
