(* ===== verification/Big_Number.thy ===== *)
theory Big_Number
  imports Prelude
begin

text \<open>
  The class \<open>BigNumber\<close> of the namespace \<open>BLOCKCHAIN_BASE58\<close> (\<open>hash.h\<close>, lines 895 to 1146): unsigned
  integers as little-endian bytes in an array of 256 bytes. Each operation of the code is a
  definition, its loop is a recursive function over the bytes it walks over, and the lemmas give its
  effect on the value \<open>bn_val\<close> of the number.

  \<open>None\<close> stands for undefined behaviour: an access outside the array, or a loop whose index is
  an 8-bit integer and whose bound is above 255, so that it neither ends nor has an effect. It also
  stands for the carry out of a number that fills the whole array. The
  length is a natural number; the operations keep it at most 256, far below the range of the
  32-bit field, and the places where the code subtracts 1 from a zero length give \<open>None\<close>.
\<close>

section \<open>The code\<close>

definition MAX_BIG_NUMBER :: nat where
  "MAX_BIG_NUMBER = 256"

record BigNumber =
  bn_data :: bytes
  bn_len :: nat

definition BigNumber_new :: "bytes option \<Rightarrow> nat \<Rightarrow> BigNumber option" where
  "BigNumber_new sourceData len =
    (let zero = replicate MAX_BIG_NUMBER 0
     in case sourceData of
          None \<Rightarrow> Some \<lparr>bn_data = zero, bn_len = len\<rparr>
        | Some src \<Rightarrow> do {
            bytes \<leftarrow> slice src 0 len;
            d \<leftarrow> blit zero 0 bytes;
            Some \<lparr>bn_data = d, bn_len = len\<rparr>
          })"

datatype BigNumberCompare = CB_COMPARE_MORE_THAN | CB_COMPARE_EQUAL | CB_COMPARE_LESS_THAN

definition BigNumberCompareTo58 :: "BigNumber \<Rightarrow> BigNumberCompare" where
  "BigNumberCompareTo58 a =
    (if bn_len a > 1 then CB_COMPARE_MORE_THAN
     else if bn_data a ! 0 > 58 then CB_COMPARE_MORE_THAN
     else if bn_data a ! 0 < 58 then CB_COMPARE_LESS_THAN
     else CB_COMPARE_EQUAL)"

text \<open>Loops from the highest byte down recurse over the higher bytes first.\<close>

fun compare_loop :: "bytes \<Rightarrow> bytes \<Rightarrow> BigNumberCompare" where
  "compare_loop (x # xs) (y # ys) =
    (case compare_loop xs ys of
       CB_COMPARE_EQUAL \<Rightarrow>
         if x < y then CB_COMPARE_LESS_THAN
         else if x > y then CB_COMPARE_MORE_THAN
         else CB_COMPARE_EQUAL
     | c \<Rightarrow> c)"
| "compare_loop _ _ = CB_COMPARE_EQUAL"

definition BigNumberCompareToBigInt :: "BigNumber \<Rightarrow> BigNumber \<Rightarrow> BigNumberCompare option" where
  "BigNumberCompareToBigInt a b =
    (if bn_len a > bn_len b then Some CB_COMPARE_MORE_THAN
     else if bn_len a < bn_len b then Some CB_COMPARE_LESS_THAN
     else do {
       xs \<leftarrow> slice (bn_data a) 0 (bn_len a);
       ys \<leftarrow> slice (bn_data b) 0 (bn_len a);
       Some (compare_loop xs ys)
     })"

text \<open>The first loop of the addition, over the bytes of both numbers, and the second, over the rest.\<close>

fun add_loop :: "bool \<Rightarrow> bytes \<Rightarrow> bytes \<Rightarrow> bytes \<times> bool" where
  "add_loop overflow (x # xs) (y # ys) =
    (let s = unat y + of_bool overflow;
         x' = (word_of_nat (unat x + s) :: unit8);
         (zs, overflow') = add_loop (unat x' < s) xs ys
     in (x' # zs, overflow'))"
| "add_loop overflow xs _ = (xs, overflow)"

fun carry_loop :: "bool \<Rightarrow> bytes \<Rightarrow> bytes \<times> bool" where
  "carry_loop overflow (x # xs) =
    (if overflow
     then let x' = x + 1; (zs, overflow') = carry_loop (x' = 0) xs in (x' # zs, overflow')
     else (x # xs, False))"
| "carry_loop overflow [] = ([], overflow)"

definition BigNumberEqualsAdditionByBigInt :: "BigNumber \<Rightarrow> BigNumber \<Rightarrow> BigNumber option" where
  "BigNumberEqualsAdditionByBigInt a b = do {
     a \<leftarrow> (if bn_len a < bn_len b
           then do {
             d \<leftarrow> blit (bn_data a) (bn_len a) (replicate (bn_len b - bn_len a) 0);
             Some (a\<lparr>bn_data := d, bn_len := bn_len b\<rparr>)
           }
           else Some a);
     if bn_len b > 255 then None
     else do {
       xs \<leftarrow> slice (bn_data a) 0 (bn_len b);
       ys \<leftarrow> slice (bn_data b) 0 (bn_len b);
       rest \<leftarrow> slice (bn_data a) (bn_len b) (bn_len a - bn_len b);
       let (zs, overflow) = add_loop False xs ys;
       let (ws, overflow) = carry_loop overflow rest;
       d \<leftarrow> blit (bn_data a) 0 (zs @ ws);
       if overflow
       then do {
         d \<leftarrow> blit d (bn_len a) [1];
         Some (a\<lparr>bn_data := d, bn_len := bn_len a + 1\<rparr>)
       }
       else Some (a\<lparr>bn_data := d\<rparr>)
     }
   }"

text \<open>\<open>temp\<close> is a 16-bit integer; the result is the quotient bytes and the last value of \<open>temp\<close>.\<close>

fun div_loop :: "unit16 \<Rightarrow> bytes \<Rightarrow> bytes \<times> unit16" where
  "div_loop temp [] = ([], temp)"
| "div_loop temp (x # xs) =
    (let (qs, temp) = div_loop temp xs;
         temp = push_bit 8 temp OR ucast x;
         q = (ucast (temp div 58) :: unit8)
     in (q # qs, temp - ucast q * 58))"

definition BigNumberEqualsDivisionBy58 :: "BigNumber \<Rightarrow> bytes \<Rightarrow> BigNumber option" where
  "BigNumberEqualsDivisionBy58 a ans =
    (if bn_len a = 1 \<and> bn_data a ! 0 = 0 then Some a
     else if bn_len a = 0 then None
     else do {
       xs \<leftarrow> slice (bn_data a) 0 (bn_len a);
       let (qs, temp) = div_loop 0 xs;
       ans \<leftarrow> blit ans 0 qs;
       let len = (if ans ! (bn_len a - 1) = 0 then bn_len a - 1 else bn_len a);
       d \<leftarrow> blit (bn_data a) 0 (take len ans);
       Some (a\<lparr>bn_data := d, bn_len := len\<rparr>)
     })"

fun mul_loop :: "unit16 \<Rightarrow> unit8 \<Rightarrow> bytes \<Rightarrow> bytes \<times> unit16" where
  "mul_loop carry b [] = ([], carry)"
| "mul_loop carry b (x # xs) =
    (let carry = carry + ucast x * ucast b;
         (zs, carry') = mul_loop (drop_bit 8 carry) b xs
     in (ucast carry # zs, carry'))"

definition BigNumberEqualsMultiplicationByUInt8 :: "BigNumber \<Rightarrow> unit8 \<Rightarrow> BigNumber option" where
  "BigNumberEqualsMultiplicationByUInt8 a b =
    (if b = 0 then Some (a\<lparr>bn_len := 1, bn_data := (bn_data a)[0 := 0]\<rparr>)
     else if bn_len a = 1 \<and> bn_data a ! 0 = 0 then Some a
     else if bn_len a > 255 then None
     else do {
       xs \<leftarrow> slice (bn_data a) 0 (bn_len a);
       let (zs, carry) = mul_loop 0 b xs;
       d \<leftarrow> blit (bn_data a) 0 zs;
       if carry \<noteq> 0
       then do {
         d \<leftarrow> blit d (bn_len a) [ucast carry];
         Some (a\<lparr>bn_data := d, bn_len := bn_len a + 1\<rparr>)
       }
       else Some (a\<lparr>bn_data := d\<rparr>)
     })"

primrec normal_len :: "bytes \<Rightarrow> nat \<Rightarrow> nat" where
  "normal_len d 0 = 0"
| "normal_len d (Suc n) = (if n > 0 \<and> d ! n = 0 then normal_len d n else Suc n)"

definition BigNumberNormalise :: "BigNumber \<Rightarrow> BigNumber" where
  "BigNumberNormalise a = a\<lparr>bn_len := normal_len (bn_data a) (bn_len a)\<rparr>"

fun sub_loop :: "bool \<Rightarrow> bytes \<Rightarrow> bytes \<Rightarrow> bytes \<times> bool" where
  "sub_loop carry (x # xs) (y # ys) =
    (let tmp = (of_bool carry + ucast y :: unit16);
         (zs, carry') = sub_loop (unat x < unat tmp) xs ys
     in ((x - ucast tmp) # zs, carry'))"
| "sub_loop carry xs _ = (xs, carry)"

definition BigNumberEqualsSubtractionByBigInt :: "BigNumber \<Rightarrow> BigNumber \<Rightarrow> BigNumber option" where
  "BigNumberEqualsSubtractionByBigInt a b =
    (if bn_len b > 255 then None
     else do {
       xs \<leftarrow> slice (bn_data a) 0 (bn_len b);
       ys \<leftarrow> slice (bn_data b) 0 (bn_len b);
       let (zs, carry) = sub_loop False xs ys;
       d \<leftarrow> blit (bn_data a) 0 zs;
       Some (BigNumberNormalise (a\<lparr>bn_data :=
         (if carry then d[bn_len b := d ! bn_len b - 1] else d)\<rparr>))
     })"

text \<open>
  The loop of the subtraction of a byte runs over the whole array. Its index wraps to 0 when it
  has reached the end; the first byte is then not 0 and the loop ends there.
\<close>

fun borrow_loop :: "unit8 \<Rightarrow> bytes \<Rightarrow> bytes \<times> bool" where
  "borrow_loop carry [] = ([], True)"
| "borrow_loop carry (x # xs) =
    (if x < carry
     then let (zs, wrapped) = borrow_loop 1 xs in ((255 - carry + x + 1) # zs, wrapped)
     else ((x - carry) # xs, False))"

definition BigNumberEqualsSubtractionByUInt8 :: "BigNumber \<Rightarrow> unit8 \<Rightarrow> BigNumber" where
  "BigNumberEqualsSubtractionByUInt8 a b =
    (let (d, wrapped) = borrow_loop b (bn_data a)
     in BigNumberNormalise (a\<lparr>bn_data := (if wrapped then d[0 := d ! 0 - 1] else d)\<rparr>))"

primrec pow_loop :: "nat \<Rightarrow> unit8 \<Rightarrow> BigNumber \<Rightarrow> BigNumber option" where
  "pow_loop 0 a bi = Some bi"
| "pow_loop (Suc n) a bi = do { bi \<leftarrow> BigNumberEqualsMultiplicationByUInt8 bi a; pow_loop n a bi }"

definition BigNumberFromPowUInt8 :: "BigNumber \<Rightarrow> unit8 \<Rightarrow> unit8 \<Rightarrow> BigNumber option" where
  "BigNumberFromPowUInt8 bi a b =
     pow_loop (unat b) a (bi\<lparr>bn_len := 1, bn_data := (bn_data bi)[0 := 1]\<rparr>)"

fun mod_loop :: "unit16 \<Rightarrow> bytes \<Rightarrow> unit16" where
  "mod_loop result [] = result"
| "mod_loop result (x # xs) =
    (let result = mod_loop result xs;
         result = result * (256 mod 58);
         result = result mod 58;
         result = result + ucast (x mod 58)
     in result mod 58)"

definition BigNumberModuloWith58 :: "BigNumber \<Rightarrow> unit8 option" where
  "BigNumberModuloWith58 a =
    (if bn_len a = 0 then None
     else do {
       xs \<leftarrow> slice (bn_data a) 0 (bn_len a);
       Some (ucast (mod_loop 0 xs))
     })"


section \<open>Values\<close>

text \<open>
  The value of a number, the invariant that the operations need and keep, and the numbers with no
  zero at the top.
\<close>

definition bn_val :: "BigNumber \<Rightarrow> nat" where
  "bn_val a = le_nat (take (bn_len a) (bn_data a))"

definition bn_wf :: "BigNumber \<Rightarrow> bool" where
  "bn_wf a \<longleftrightarrow> length (bn_data a) = 256 \<and> bn_len a \<le> 256"

definition bn_min :: "BigNumber \<Rightarrow> bool" where
  "bn_min a \<longleftrightarrow> (bn_len a > 1 \<longrightarrow> 256 ^ (bn_len a - 1) \<le> bn_val a)"

lemma le_nat_take_last:
  "0 < n \<Longrightarrow> n \<le> length d \<Longrightarrow>
     le_nat (take n d) = le_nat (take (n - 1) d) + 256 ^ (n - 1) * unat (d ! (n - 1))"
  by (cases n) (simp_all add: take_Suc_conv_app_nth le_nat_append)

lemma power_le_mult_byte: "c \<noteq> (0 :: 'a::len word) \<Longrightarrow> 256 ^ n \<le> (256 :: nat) ^ n * unat c"
  by (simp add: unat_gt_0 Suc_le_eq)

lemma mul_loop_val:
  assumes "unat carry < 256"
  shows "length (fst (mul_loop carry b xs)) = length xs \<and> unat (snd (mul_loop carry b xs)) < 256 \<and>
    le_nat (fst (mul_loop carry b xs)) + 256 ^ length xs * unat (snd (mul_loop carry b xs)) =
      le_nat xs * unat b + unat carry"
  using assms
proof (induction carry b xs rule: mul_loop.induct)
  case (2 carry b x xs)
  let ?c = "carry + ucast x * ucast b"
  have xb: "unat x * unat b \<le> 255 * 255"
    using unat_byte_le [of x] unat_byte_le [of b] by (intro mult_le_mono) linarith+
  have c: "unat ?c = unat carry + unat x * unat b"
    using "2.prems" xb by (simp add: unat_word_ariths)
  have "unat (drop_bit 8 ?c) < 256"
    using c "2.prems" xb by (simp add: unat_drop_bit_div)
  note IH = "2.IH" [OF refl this]
  have "unat (ucast ?c :: unit8) + 256 * unat (drop_bit 8 ?c) = unat ?c"
    by (simp add: unat_drop_bit_div unat_ucast_mod)
  with IH c show ?case
    by (auto simp: Let_def algebra_simps split: prod.split)
qed simp

lemma add_loop_val:
  assumes "length xs = length ys"
  shows "length (fst (add_loop ov xs ys)) = length xs \<and>
    le_nat (fst (add_loop ov xs ys)) + 256 ^ length xs * of_bool (snd (add_loop ov xs ys)) =
      le_nat xs + le_nat ys + of_bool ov"
  using assms
proof (induction ov xs ys rule: add_loop.induct)
  case (1 ov x xs y ys)
  define s where "s = unat y + (of_bool ov :: nat)"
  define x' where "x' = (word_of_nat (unat x + s) :: unit8)"
  have "s \<le> 256" and "unat x + s < 512"
    using unat_byte_le [of x] unat_byte_le [of y] by (auto simp: s_def)
  then have "unat x' = (if unat x + s < 256 then unat x + s else unat x + s - 256)"
    unfolding x'_def by (intro unat_byte_of_nat)
  then have "unat x' + 256 * of_bool (unat x' < s) = unat x + s"
    using unat_byte_le [of x] by (simp split: if_splits)
  moreover obtain zs ov' where loop: "add_loop (unat x' < s) xs ys = (zs, ov')"
    by fastforce
  moreover have "length zs = length xs \<and> le_nat zs + 256 ^ length xs * of_bool ov' =
      le_nat xs + le_nat ys + of_bool (unat x' < s)"
    using "1.IH" [OF s_def x'_def] "1.prems" loop by simp
  moreover have "add_loop ov (x # xs) (y # ys) = (x' # zs, ov')"
    using loop by (simp add: s_def x'_def)
  ultimately show ?case
    by (simp add: s_def algebra_simps)
qed simp_all

lemma carry_loop_val:
  "length (fst (carry_loop ov xs)) = length xs \<and>
    le_nat (fst (carry_loop ov xs)) + 256 ^ length xs * of_bool (snd (carry_loop ov xs)) =
      le_nat xs + of_bool ov"
proof (induction ov xs rule: carry_loop.induct)
  case (1 ov x xs)
  have "unat (x + 1) + 256 * of_bool (x + 1 = 0) = unat x + 1"
    using unat_byte_le [of x] by (simp add: unat_word_ariths unat_eq_0 [symmetric] mod_if)
  moreover obtain zs ov' where "carry_loop (x + 1 = 0) xs = (zs, ov')"
    by fastforce
  moreover from this have "length zs = length xs \<and>
      le_nat zs + 256 ^ length xs * of_bool ov' = le_nat xs + of_bool (x + 1 = 0)" if ov
    using "1.IH" [OF that refl] by simp
  ultimately show ?case
    by (cases "x + 1 = 0"; cases ov; cases ov') (simp_all add: Let_def)
qed simp

lemma div_loop_val:
  assumes "unat temp < 58"
  shows "length (fst (div_loop temp xs)) = length xs \<and> unat (snd (div_loop temp xs)) < 58 \<and>
    256 ^ length xs * unat temp + le_nat xs = 58 * le_nat (fst (div_loop temp xs)) + unat (snd (div_loop temp xs))"
  using assms
proof (induction temp xs rule: div_loop.induct)
  case (2 temp x xs)
  obtain qs t where loop: "div_loop temp xs = (qs, t)" by fastforce
  with 2 have IH: "length qs = length xs" "unat t < 58"
      "256 ^ length xs * unat temp + le_nat xs = 58 * le_nat qs + unat t"
    by simp_all
  let ?t = "push_bit 8 t OR ucast x :: unit16"
  have "?t = push_bit 8 t + ucast x"
    by (intro disjunctive_add [symmetric]) (auto simp: bit_simps dest: bit_imp_le_length)
  then have t: "unat ?t = 256 * unat t + unat x"
    using IH(2) unat_byte_le [of x]
    by (simp add: push_bit_eq_mult unat_word_ariths)
  then have "unat ?t div 58 < 256"
    using IH(2) unat_byte_le [of x] by (simp add: less_mult_imp_div_less)
  then have q: "unat (ucast (?t div 58) :: unit8) = unat ?t div 58"
    by (simp add: unat_ucast_mod unat_div)
  have "unat (ucast (ucast (?t div 58) :: unit8) * 58 :: unit16) = unat ?t div 58 * 58"
    using t IH(2) unat_byte_le [of x] by (simp add: unat_word_ariths q)
  then have r: "unat (?t - ucast (ucast (?t div 58) :: unit8) * 58) = unat ?t mod 58"
    by (simp add: unat_sub word_le_nat_alt modulo_nat_def mult.commute)
  have "256 * unat t + unat x = 58 * (unat ?t div 58) + unat ?t mod 58"
    by (simp add: t)
  with IH q r show ?case
    by (simp add: loop Let_def algebra_simps)
qed simp

lemma mod_loop_val:
  "unat result < 58 \<Longrightarrow> unat (mod_loop result xs) = (256 ^ length xs * unat result + le_nat xs) mod 58"
proof (induction result xs rule: mod_loop.induct)
  case (2 result x xs)
  let ?r = "mod_loop result xs"
  let ?n = "256 ^ length xs * unat result + le_nat xs"
  have IH: "unat ?r = ?n mod 58" and r: "unat ?r < 58"
    using 2 by simp_all
  have "unat (x mod 58) < 58" by (simp add: unat_mod)
  then have "unat (mod_loop result (x # xs)) = (unat ?r * 24 mod 58 + unat x mod 58) mod 58"
    using r by (simp add: Let_def unat_word_ariths unat_mod)
  also have "\<dots> = (unat ?r * 24 + unat x) mod 58"
    by (simp add: mod_simps)
  also have "\<dots> = (unat ?r * 24 + unat x + 58 * (4 * unat ?r)) mod 58"
    by (simp only: mod_mult_self2)
  also have "\<dots> = (unat ?r * 256 + unat x) mod 58"
    by (rule arg_cong [where f = "\<lambda>n. n mod 58"]) simp
  also have "\<dots> = (?n * 256 + unat x) mod 58"
    unfolding IH by (metis mod_add_left_eq mod_mult_left_eq)
  finally show ?case
    by (simp add: algebra_simps)
qed simp

lemma borrow_loop_less:
  assumes "x < c"
  shows "borrow_loop c (x # xs) = (case borrow_loop 1 xs of (zs, w) \<Rightarrow> ((x - c) # zs, w))"
proof -
  have "255 - c + x + 1 = x - c" by simp
  with assms show ?thesis
    unfolding borrow_loop.simps Let_def by (simp only: if_True)
qed

lemma borrow_loop_val:
  assumes "unat c \<le> le_nat xs" and "xs \<noteq> []"
  shows "length (fst (borrow_loop c (xs @ zs))) = length (xs @ zs) \<and> \<not> snd (borrow_loop c (xs @ zs)) \<and>
    le_nat (take (length xs) (fst (borrow_loop c (xs @ zs)))) = le_nat xs - unat c"
  using assms
proof (induction xs arbitrary: c)
  case (Cons x xs)
  show ?case
  proof (cases "x < c")
    case True
    then have less: "unat x < unat c" by (simp add: word_less_nat_alt)
    have "le_nat xs \<noteq> 0"
      using Cons.prems(1) less unat_byte_le [of c] by (cases "le_nat xs = 0") simp_all
    then have IH: "length (fst (borrow_loop 1 (xs @ zs))) = length (xs @ zs) \<and> \<not> snd (borrow_loop 1 (xs @ zs)) \<and>
        le_nat (take (length xs) (fst (borrow_loop 1 (xs @ zs)))) = le_nat xs - 1"
      using Cons.IH [of 1] by fastforce
    have "unat (x - c) + unat c = 256 + unat x"
      using less unat_byte_le [of c] by (simp add: unat_sub_if_size word_size word_less_nat_alt word_le_nat_alt)
    moreover obtain ws w where "borrow_loop 1 (xs @ zs) = (ws, w)"
      by fastforce
    ultimately show ?thesis
      using IH True less \<open>le_nat xs \<noteq> 0\<close> by (simp add: borrow_loop_less del: borrow_loop.simps)
  next
    case False
    then have "unat (x - c) = unat x - unat c" and "unat c \<le> unat x"
      by (simp_all add: unat_sub word_le_nat_alt word_less_nat_alt)
    with False show ?thesis by simp
  qed
qed simp


section \<open>The operations on values\<close>

lemma addition_val:
  assumes "bn_wf a" and "bn_wf b" and "bn_len a \<le> 255" and "bn_len b \<le> 255"
  shows "\<exists>a'. BigNumberEqualsAdditionByBigInt a b = Some a' \<and> bn_wf a' \<and>
    bn_val a' = bn_val a + bn_val b \<and> bn_len a' \<le> max (bn_len a) (bn_len b) + 1 \<and>
    max (bn_len a) (bn_len b) \<le> bn_len a' \<and> (bn_min a \<and> bn_min b \<longrightarrow> bn_min a')"
proof -
  let ?n = "max (bn_len a) (bn_len b)" and ?m = "bn_len b"
  define da where "da = take (bn_len a) (bn_data a) @ replicate (?n - bn_len a) 0 @ drop ?n (bn_data a)"
  have da: "length da = 256" and n: "?n \<le> 255"
    using assms by (auto simp: da_def bn_wf_def)
  have ext: "(if bn_len a < bn_len b
      then do {
        d \<leftarrow> blit (bn_data a) (bn_len a) (replicate (bn_len b - bn_len a) 0);
        Some (a\<lparr>bn_data := d, bn_len := bn_len b\<rparr>)
      }
      else Some a) = Some (a\<lparr>bn_data := da, bn_len := ?n\<rparr>)"
    using assms by (simp add: blit_def bn_wf_def da_def max_def)
  have vda: "le_nat (take ?n da) = bn_val a"
    using assms by (simp add: da_def bn_val_def bn_wf_def le_nat_append min_absorb2)
  obtain zs ov where add: "add_loop False (take ?m da) (take ?m (bn_data b)) = (zs, ov)" by fastforce
  obtain ws ov' where carry: "carry_loop ov (take (?n - ?m) (drop ?m da)) = (ws, ov')" by fastforce
  have 1: "length zs = ?m" "le_nat zs + 256 ^ ?m * of_bool ov = le_nat (take ?m da) + bn_val b"
    using add_loop_val [of "take ?m da" "take ?m (bn_data b)" False] add da assms
    by (simp_all add: bn_wf_def bn_val_def)
  have 2: "length ws = ?n - ?m" "le_nat ws + 256 ^ (?n - ?m) * of_bool ov' = le_nat (take (?n - ?m) (drop ?m da)) + of_bool ov"
    using carry_loop_val [of ov "take (?n - ?m) (drop ?m da)"] carry da n
    by (simp_all add: min_absorb2)
  have split: "take ?n da = take ?m da @ take (?n - ?m) (drop ?m da)"
    by (metis max.cobounded2 le_add_diff_inverse take_add)
  have sum: "le_nat (zs @ ws) + 256 ^ ?n * of_bool ov' = bn_val a + bn_val b"
  proof -
    have "(256 :: nat) ^ ?n = 256 ^ ?m * 256 ^ (?n - ?m)"
      by (simp flip: power_add)
    then have "le_nat (zs @ ws) + 256 ^ ?n * of_bool ov' =
        le_nat zs + 256 ^ ?m * (le_nat ws + 256 ^ (?n - ?m) * of_bool ov')"
      by (simp add: le_nat_append 1 algebra_simps)
    also have "\<dots> = le_nat (take ?m da) + bn_val b + 256 ^ ?m * le_nat (take (?n - ?m) (drop ?m da))"
      unfolding 2(2) using 1(2) by (simp add: algebra_simps)
    also have "\<dots> = le_nat (take ?n da) + bn_val b"
      using da n by (simp add: split le_nat_append)
    finally show ?thesis by (simp add: vda)
  qed
  let ?d = "(zs @ ws) @ drop ?n da"
  have len: "length (zs @ ws) = ?n" by (simp add: 1 2)
  let ?a = "if ov' then a\<lparr>bn_data := (zs @ ws) @ [1] @ drop (?n + 1) da, bn_len := ?n + 1\<rparr>
    else a\<lparr>bn_data := ?d, bn_len := ?n\<rparr>"
  have code: "BigNumberEqualsAdditionByBigInt a b = Some ?a"
    unfolding BigNumberEqualsAdditionByBigInt_def ext
    using assms(4) n da len 1(1) 2(1) add carry assms(2)
    by (simp add: slice_def blit_def bn_wf_def)
  have "bn_wf ?a"
    using len da n by (simp add: bn_wf_def flip: add.assoc)
  moreover have val: "bn_val ?a = bn_val a + bn_val b"
    using sum len by (cases ov') (simp_all add: bn_val_def le_nat_append distrib_left flip: power_add)
  moreover have "bn_min ?a" if min: "bn_min a" "bn_min b"
  proof (cases ov')
    case True
    then have "256 ^ ?n \<le> bn_val a + bn_val b"
      using sum by simp
    then show ?thesis using True val by (simp add: bn_min_def)
  next
    case False
    have "256 ^ (?n - 1) \<le> bn_val a + bn_val b" if "?n > 1"
    proof (cases "bn_len a < bn_len b")
      case True
      with that min show ?thesis by (simp add: bn_min_def)
    next
      case False
      with that min show ?thesis by (simp add: bn_min_def max_def)
    qed
    then show ?thesis using False val by (simp add: bn_min_def)
  qed
  ultimately show ?thesis
    using code by (intro exI [of _ ?a]) auto
qed

lemma multiplication_val:
  assumes "bn_wf a" and "1 \<le> bn_len a" and "bn_len a \<le> 255"
  shows "\<exists>a'. BigNumberEqualsMultiplicationByUInt8 a b = Some a' \<and> bn_wf a' \<and>
    bn_val a' = bn_val a * unat b \<and> 1 \<le> bn_len a' \<and> bn_len a' \<le> bn_len a + 1 \<and> (bn_min a \<longrightarrow> bn_min a')"
proof -
  let ?n = "bn_len a"
  obtain x xs where data: "bn_data a = x # xs"
    using assms(1) by (cases "bn_data a") (auto simp: bn_wf_def)
  consider "b = 0" | "b \<noteq> 0" "?n = 1" "x = 0" | "b \<noteq> 0" "\<not> (?n = 1 \<and> x = 0)" by blast
  then show ?thesis
  proof cases
    case 1
    then show ?thesis
      using assms by (simp add: BigNumberEqualsMultiplicationByUInt8_def bn_wf_def bn_val_def bn_min_def data)
  next
    case 2
    then show ?thesis
      using assms by (simp add: BigNumberEqualsMultiplicationByUInt8_def bn_val_def data)
  next
    case 3
    obtain zs c where loop: "mul_loop 0 b (take ?n (bn_data a)) = (zs, c)" by fastforce
    then have zs: "length zs = ?n" "unat c < 256" "le_nat zs + 256 ^ ?n * unat c = bn_val a * unat b"
      using mul_loop_val [of 0 b "take ?n (bn_data a)"] assms by (auto simp: bn_wf_def bn_val_def)
    have c: "unat (ucast c :: unit8) = unat c"
      using zs(2) by (simp add: unat_ucast_mod)
    let ?a = "if c \<noteq> 0 then a\<lparr>bn_data := zs @ [ucast c] @ drop (?n + 1) (bn_data a), bn_len := ?n + 1\<rparr>
      else a\<lparr>bn_data := zs @ drop ?n (bn_data a)\<rparr>"
    have "BigNumberEqualsMultiplicationByUInt8 a b = Some ?a"
      using 3 assms loop zs data
      by (auto simp: BigNumberEqualsMultiplicationByUInt8_def slice_def blit_def bn_wf_def)
    moreover have "bn_wf ?a"
      using assms zs by (simp add: bn_wf_def)
    moreover have val: "bn_val ?a = bn_val a * unat b"
      using zs c by (cases "c = 0") (simp_all add: bn_val_def le_nat_append)
    moreover have "bn_min ?a" if "bn_min a"
    proof (cases "c = 0")
      case False
      then have "256 ^ ?n \<le> bn_val a * unat b"
        using zs(3) power_le_mult_byte [of c ?n] by linarith
      with False val show ?thesis by (simp add: bn_min_def)
    next
      case True
      have "bn_val a \<le> bn_val a * unat b"
        using 3(1) by (simp add: unat_gt_0 Suc_le_eq)
      then have "256 ^ (?n - 1) \<le> bn_val a * unat b" if "?n > 1"
        using that \<open>bn_min a\<close> unfolding bn_min_def by linarith
      with True val show ?thesis
        by (simp add: bn_min_def)
    qed
    ultimately show ?thesis
      using assms(2) by (intro exI [of _ ?a]) auto
  qed
qed

lemma normal_len_props:
  "n \<ge> 1 \<Longrightarrow> n \<le> length d \<Longrightarrow> le_nat (take (normal_len d n) d) = le_nat (take n d) \<and>
     1 \<le> normal_len d n \<and> normal_len d n \<le> n \<and> (normal_len d n > 1 \<longrightarrow> d ! (normal_len d n - 1) \<noteq> 0)"
proof (induction n)
  case (Suc n)
  then show ?case
    by (cases "n > 0 \<and> d ! n = 0") (auto simp: take_Suc_conv_app_nth le_nat_append)
qed simp

lemma top_byte_le:
  assumes "0 < n" and "n \<le> length d" and "d ! (n - 1) \<noteq> 0"
  shows "256 ^ (n - 1) \<le> le_nat (take n d)"
  unfolding le_nat_take_last [OF assms(1,2)] using power_le_mult_byte [OF assms(3), of "n - 1"]
  by linarith

lemma normalise_val:
  assumes "bn_wf a" and "1 \<le> bn_len a"
  shows "bn_wf (BigNumberNormalise a) \<and> bn_val (BigNumberNormalise a) = bn_val a \<and>
    bn_min (BigNumberNormalise a) \<and> 1 \<le> bn_len (BigNumberNormalise a) \<and> bn_len (BigNumberNormalise a) \<le> bn_len a"
proof -
  let ?m = "normal_len (bn_data a) (bn_len a)"
  have m: "le_nat (take ?m (bn_data a)) = le_nat (take (bn_len a) (bn_data a))" "1 \<le> ?m" "?m \<le> bn_len a"
      "?m > 1 \<longrightarrow> bn_data a ! (?m - 1) \<noteq> 0"
    using normal_len_props [of "bn_len a" "bn_data a"] assms by (auto simp: bn_wf_def)
  then have "bn_min (BigNumberNormalise a)"
    using top_byte_le [of ?m "bn_data a"] assms(1)
    by (auto simp: bn_min_def bn_val_def BigNumberNormalise_def bn_wf_def)
  with m assms show ?thesis
    by (auto simp: BigNumberNormalise_def bn_wf_def bn_val_def)
qed

lemma subtraction8_val:
  assumes "bn_wf a" and "1 \<le> bn_len a" and "unat b \<le> bn_val a"
  defines "a' \<equiv> BigNumberEqualsSubtractionByUInt8 a b"
  shows "bn_wf a' \<and> bn_val a' = bn_val a - unat b \<and> bn_min a' \<and> 1 \<le> bn_len a' \<and> bn_len a' \<le> bn_len a"
proof -
  let ?n = "bn_len a"
  obtain d w where loop: "borrow_loop b (bn_data a) = (d, w)" by fastforce
  have "take ?n (bn_data a) \<noteq> []"
    using assms by (auto simp: bn_wf_def)
  then have d: "length d = 256" "\<not> w" "le_nat (take ?n d) = bn_val a - unat b"
    using borrow_loop_val [of b "take ?n (bn_data a)" "drop ?n (bn_data a)"] assms(1-3) loop
    by (simp_all add: bn_wf_def bn_val_def)
  then have "a' = BigNumberNormalise (a\<lparr>bn_data := d\<rparr>)"
    by (simp add: a'_def BigNumberEqualsSubtractionByUInt8_def loop)
  moreover have "bn_wf (a\<lparr>bn_data := d\<rparr>)" "bn_val (a\<lparr>bn_data := d\<rparr>) = bn_val a - unat b"
    using d assms(1) by (simp_all add: bn_wf_def bn_val_def)
  ultimately show ?thesis
    using normalise_val [of "a\<lparr>bn_data := d\<rparr>"] assms(2) by simp
qed

lemma division58_val:
  assumes "bn_wf a" and "1 \<le> bn_len a" and "bn_min a" and "58 \<le> bn_val a \<or> bn_val a = 0" and "length ans = 256"
  shows "\<exists>a'. BigNumberEqualsDivisionBy58 a ans = Some a' \<and> bn_wf a' \<and> bn_val a' = bn_val a div 58 \<and>
    bn_min a' \<and> 1 \<le> bn_len a' \<and> bn_len a' \<le> bn_len a"
proof (cases "bn_len a = 1 \<and> bn_data a ! 0 = 0")
  case True
  moreover obtain x xs where "bn_data a = x # xs"
    using assms(1) by (cases "bn_data a") (auto simp: bn_wf_def)
  ultimately show ?thesis
    using assms by (simp add: BigNumberEqualsDivisionBy58_def bn_val_def)
next
  case False
  let ?n = "bn_len a"
  obtain qs t where loop: "div_loop 0 (take ?n (bn_data a)) = (qs, t)" by fastforce
  then have qs: "length qs = ?n" "unat t < 58" "bn_val a = 58 * le_nat qs + unat t"
    using div_loop_val [of 0 "take ?n (bn_data a)"] assms(1) by (auto simp: bn_wf_def bn_val_def)
  then have q: "le_nat qs = bn_val a div 58" by simp
  have pos: "58 \<le> bn_val a"
  proof (rule ccontr)
    assume "\<not> 58 \<le> bn_val a"
    then have "bn_val a = 0" using assms(4) by blast
    with assms(2,3) have "?n = 1" by (auto simp: bn_min_def)
    moreover obtain x xs where "bn_data a = x # xs"
      using assms(1) by (cases "bn_data a") (auto simp: bn_wf_def)
    ultimately show False
      using False \<open>bn_val a = 0\<close> by (simp add: bn_val_def unat_eq_0)
  qed
  define m where "m = (if qs ! (?n - 1) = 0 then ?n - 1 else ?n)"
  have m: "m \<le> ?n" "?n \<le> 256" "take m qs = take m (qs @ drop ?n ans)"
    using assms(1) qs(1) by (auto simp: m_def bn_wf_def)
  have val: "le_nat (take m qs) = bn_val a div 58"
    using le_nat_take_last [of ?n qs] assms(2) qs(1) q by (auto simp: m_def)
  then have "m \<noteq> 0"
    using pos by (cases m) (auto simp: div_eq_0_iff)
  let ?a = "a\<lparr>bn_data := take m qs @ drop m (bn_data a), bn_len := m\<rparr>"
  have "(qs @ drop ?n ans) ! (?n - 1) = qs ! (?n - 1)"
    using qs(1) assms(2) by (simp add: nth_append)
  then have "BigNumberEqualsDivisionBy58 a ans = Some ?a"
    using False assms(1,2,5) loop qs(1) m
    by (auto simp: BigNumberEqualsDivisionBy58_def slice_def blit_def bn_wf_def m_def Let_def)
  moreover have "bn_wf ?a" "bn_val ?a = bn_val a div 58"
    using m assms(1) qs(1) val by (simp_all add: bn_wf_def bn_val_def)
  moreover have "256 ^ (m - 1) \<le> bn_val a div 58" if "m > 1"
  proof (cases "qs ! (?n - 1) = 0")
    case False
    then show ?thesis
      using top_byte_le [of ?n qs] assms(2) qs(1) q by (simp add: m_def)
  next
    case True
    then have "256 ^ (?n - 1) \<le> bn_val a"
      using that assms(3) by (simp add: m_def bn_min_def)
    moreover have "?n - 1 = Suc (m - 1)"
      using True that by (simp add: m_def)
    ultimately have "256 * 256 ^ (m - 1) \<le> bn_val a" by simp
    then show ?thesis by linarith
  qed
  ultimately show ?thesis
    using m(1) \<open>m \<noteq> 0\<close> by (intro exI [of _ ?a]) (simp add: bn_min_def)
qed

lemma modulo58_val:
  assumes "bn_wf a" and "1 \<le> bn_len a"
  shows "\<exists>m. BigNumberModuloWith58 a = Some m \<and> unat m = bn_val a mod 58"
proof -
  have "bn_val a mod 58 < 58" by simp
  then show ?thesis
    using assms mod_loop_val [of 0 "take (bn_len a) (bn_data a)"]
    by (simp add: BigNumberModuloWith58_def slice_def bn_wf_def bn_val_def unat_ucast_mod)
qed

lemma pow_loop_val:
  assumes "bn_wf bi" and "1 \<le> bn_len bi" and "bn_len bi + n \<le> 256" and "bn_min bi"
  shows "\<exists>bi'. pow_loop n a bi = Some bi' \<and> bn_wf bi' \<and> bn_val bi' = bn_val bi * unat a ^ n \<and>
    bn_min bi' \<and> 1 \<le> bn_len bi' \<and> bn_len bi' \<le> bn_len bi + n"
  using assms
proof (induction n arbitrary: bi)
  case (Suc n)
  then obtain b1 where b1: "BigNumberEqualsMultiplicationByUInt8 bi a = Some b1" "bn_wf b1"
      "bn_val b1 = bn_val bi * unat a" "1 \<le> bn_len b1" "bn_len b1 \<le> bn_len bi + 1" "bn_min b1"
    using multiplication_val [of bi a] by auto
  with Suc.prems Suc.IH [of b1] show ?case
    by (auto simp: mult.assoc)
qed simp

lemma pow_val:
  assumes "length (bn_data bi) = 256" and "unat b < 255"
  shows "\<exists>bi'. BigNumberFromPowUInt8 bi a b = Some bi' \<and> bn_wf bi' \<and> bn_val bi' = unat a ^ unat b \<and>
    bn_min bi' \<and> 1 \<le> bn_len bi' \<and> bn_len bi' \<le> unat b + 1"
proof -
  let ?b = "bi\<lparr>bn_len := 1, bn_data := (bn_data bi)[0 := 1]\<rparr>"
  obtain x xs where "bn_data bi = x # xs"
    using assms(1) by (cases "bn_data bi") auto
  then have "bn_wf ?b" "bn_val ?b = 1" "bn_min ?b"
    using assms(1) by (simp_all add: bn_wf_def bn_val_def bn_min_def)
  then show ?thesis
    using pow_loop_val [of ?b "unat b" a] assms(2) by (simp add: BigNumberFromPowUInt8_def add.commute)
qed

lemma byte_lex:
  "unat x + 256 * m < unat y + 256 * n \<longleftrightarrow> m < n \<or> m = n \<and> x < (y :: unit8)"
  using unat_byte_le [of x] unat_byte_le [of y] by (auto simp: word_less_nat_alt)

lemma compare_loop_val:
  "length xs = length ys \<Longrightarrow> compare_loop xs ys =
    (if le_nat xs < le_nat ys then CB_COMPARE_LESS_THAN
     else if le_nat ys < le_nat xs then CB_COMPARE_MORE_THAN
     else CB_COMPARE_EQUAL)"
  by (induction xs ys rule: list_induct2) (auto simp: byte_lex)

lemma sub_loop_val:
  assumes "length xs = length ys"
  shows "length (fst (sub_loop c xs ys)) = length xs \<and>
    le_nat (fst (sub_loop c xs ys)) + le_nat ys + of_bool c =
      le_nat xs + 256 ^ length xs * of_bool (snd (sub_loop c xs ys))"
  using assms
proof (induction c xs ys rule: sub_loop.induct)
  case (1 c x xs y ys)
  define tmp where "tmp = (of_bool c + ucast y :: unit16)"
  have tmp: "unat tmp = of_bool c + unat y"
    using unat_byte_le [of y] by (simp add: tmp_def unat_word_ariths)
  have "unat (x - ucast tmp) + unat tmp = unat x + 256 * of_bool (unat x < unat tmp)"
  proof -
    have "unat tmp \<le> 256" using tmp unat_byte_le [of y] by simp
    then consider "unat tmp = 256" | "unat tmp < 256" by linarith
    then show ?thesis
    proof cases
      case 1
      then have "(ucast tmp :: unit8) = 0"
        by (simp add: word_unat_eq_iff unat_ucast_mod)
      with 1 unat_byte_le [of x] show ?thesis by simp
    next
      case 2
      then have "unat (ucast tmp :: unit8) = unat tmp"
        by (simp add: unat_ucast_mod)
      with 2 show ?thesis
        by (auto simp: unat_sub_if_size word_size word_le_nat_alt)
    qed
  qed
  moreover obtain zs c' where loop: "sub_loop (unat x < unat tmp) xs ys = (zs, c')" by fastforce
  moreover have "length zs = length xs \<and> le_nat zs + le_nat ys + of_bool (unat x < unat tmp) =
      le_nat xs + 256 ^ length xs * of_bool c'"
    using "1.IH" [OF tmp_def] "1.prems" loop by simp
  moreover have "sub_loop c (x # xs) (y # ys) = ((x - ucast tmp) # zs, c')"
    using loop by (simp add: tmp_def)
  ultimately show ?case
    using tmp by (simp add: algebra_simps)
qed simp_all

lemma bn_val_bound: "bn_val a < 256 ^ bn_len a" if "bn_wf a"
  using le_nat_less [of "take (bn_len a) (bn_data a)"] that by (simp add: bn_wf_def bn_val_def)


section \<open>Properties\<close>



text \<open>
  C17. One round of the encoder's loop is a division with remainder: \<open>BigNumberModuloWith58\<close>, the
  subtraction of the remainder and \<open>BigNumberEqualsDivisionBy58\<close> give the quotient and the
  remainder of the value by 58, on every number of 1 to 256 bytes with leading zeros or without.
\<close>

theorem BigNumber_divmod58:
  assumes "bn_wf a" and "1 \<le> bn_len a" and "length ans = 256"
  shows "\<exists>m q. BigNumberModuloWith58 a = Some m \<and>
    BigNumberEqualsDivisionBy58 (BigNumberEqualsSubtractionByUInt8 a m) ans = Some q \<and>
    bn_val a = 58 * bn_val q + unat m \<and> unat m < 58 \<and> bn_wf q \<and> bn_min q"
proof -
  obtain m where m: "BigNumberModuloWith58 a = Some m" "unat m = bn_val a mod 58"
    using modulo58_val [OF assms(1,2)] by blast
  let ?s = "BigNumberEqualsSubtractionByUInt8 a m"
  have "unat m \<le> bn_val a" by (simp add: m(2))
  note s = subtraction8_val [OF assms(1,2) this]
  then have val: "bn_val ?s = 58 * (bn_val a div 58)"
    by (simp add: m(2) minus_mod_eq_mult_div)
  then have "58 \<le> bn_val ?s \<or> bn_val ?s = 0"
    by (cases "bn_val a div 58") simp_all
  then obtain q where "BigNumberEqualsDivisionBy58 ?s ans = Some q" "bn_wf q" "bn_min q"
      "bn_val q = bn_val ?s div 58"
    using division58_val [of ?s ans] s assms(3) by blast
  then show ?thesis
    using m val by (intro exI [of _ m] exI [of _ q]) simp
qed

theorem BigNumber_divmod58_witness:
  defines "a \<equiv> \<lparr>bn_data = [5, 0, 1, 0] @ replicate 252 0, bn_len = 4\<rparr>"
  shows "\<exists>m q. BigNumberModuloWith58 a = Some m \<and>
    BigNumberEqualsDivisionBy58 (BigNumberEqualsSubtractionByUInt8 a m) (replicate 256 0) = Some q \<and>
    bn_val a = 58 * bn_val q + unat m \<and> unat m < 58 \<and> bn_wf q \<and> bn_min q"
  by (rule BigNumber_divmod58) (simp_all add: a_def bn_wf_def)

text \<open>
  \<open>BigNumberCompareToBigInt\<close> orders two numbers without zero bytes at the top by their values.
\<close>

theorem BigNumberCompareToBigInt_correct:
  assumes "bn_wf a" and "bn_wf b" and "bn_min a" and "bn_min b" and "1 \<le> bn_len a" and "1 \<le> bn_len b"
  shows "BigNumberCompareToBigInt a b = Some
    (if bn_val a < bn_val b then CB_COMPARE_LESS_THAN
     else if bn_val b < bn_val a then CB_COMPARE_MORE_THAN
     else CB_COMPARE_EQUAL)"
proof -
  have less: "bn_val x < bn_val y"
    if "bn_wf x" "bn_min y" "1 \<le> bn_len x" "bn_len x < bn_len y" for x y
  proof -
    have "bn_val x < 256 ^ bn_len x" by (rule bn_val_bound) fact
    also have "(256 :: nat) ^ bn_len x \<le> 256 ^ (bn_len y - 1)"
      using that by (intro power_increasing) simp_all
    also have "\<dots> \<le> bn_val y" using that by (simp add: bn_min_def)
    finally show ?thesis .
  qed
  show ?thesis
    using assms less [of a b] less [of b a]
    by (cases "bn_len a" "bn_len b" rule: linorder_cases)
      (auto simp: BigNumberCompareToBigInt_def slice_def bn_wf_def bn_val_def compare_loop_val)
qed

theorem BigNumberCompareToBigInt_correct_witness:
  "BigNumberCompareToBigInt \<lparr>bn_data = [9, 1] @ replicate 254 0, bn_len = 2\<rparr>
     \<lparr>bn_data = [8, 2] @ replicate 254 0, bn_len = 2\<rparr> = Some CB_COMPARE_LESS_THAN"
  using BigNumberCompareToBigInt_correct [of "\<lparr>bn_data = [9, 1] @ replicate 254 0, bn_len = 2\<rparr>"
      "\<lparr>bn_data = [8, 2] @ replicate 254 0, bn_len = 2\<rparr>"]
  by (simp add: bn_wf_def bn_min_def bn_val_def)



end
