(* ===== verification/Base58.thy ===== *)
theory Base58
  imports Big_Number
begin

text \<open>
  Base 58 encoding and decoding, the rest of the namespace \<open>BLOCKCHAIN_BASE58\<close> (\<open>hash.h\<close>, lines 1150
  to 1353). The output string of the encoder is the caller's buffer, a list of exactly the bytes it
  owns, and every write is checked against its end: \<open>None\<close> is a write or a read outside an array.
  The strings that the decoder reads are lists without the terminating zero.
\<close>

section \<open>The code\<close>

definition base58Characters :: bytes where
  "base58Characters = ascii ''123456789ABCDEFGHJKLMNPQRSTUVWXYZabcdefghijkmnopqrstuvwxyz'' @ [0]"

definition put :: "bytes \<Rightarrow> nat \<Rightarrow> unit8 \<Rightarrow> bytes option" where
  "put str x c = (if x < length str then Some (str[x := c]) else None)"

text \<open>\<open>CBDecodeBase58\<close>: the index of a character (\<open>char\<close> is signed), the loop and the function.\<close>

definition alphaIndex :: "unit8 \<Rightarrow> unit8" where
  "alphaIndex c =
    (if c = 49 then c
     else if sint c < 58 then c - 49
     else if sint c < 73 then c - 56
     else if sint c < 79 then c - 57
     else if sint c < 91 then c - 58
     else if sint c < 108 then c - 64
     else c - 65)"

text \<open>
  The loop works backwards through the string: its list argument is the reversed rest of the
  string and \<open>k\<close> is \<open>slen - 1 - x\<close>. Both numbers are part of the state.
\<close>

fun decode_loop :: "nat \<Rightarrow> BigNumber \<Rightarrow> BigNumber \<Rightarrow> bytes \<Rightarrow> BigNumber option" where
  "decode_loop k bi bi2 [] = Some bi"
| "decode_loop k bi bi2 (c # cs) =
    (if c \<noteq> 49
     then do {
       bi2 \<leftarrow> BigNumberFromPowUInt8 bi2 58 (word_of_nat k);
       bi2 \<leftarrow> BigNumberEqualsMultiplicationByUInt8 bi2 (alphaIndex c);
       bi \<leftarrow> BigNumberEqualsAdditionByBigInt bi bi2;
       decode_loop (k + 1) bi bi2 cs
     }
     else decode_loop (k + 1) bi bi2 cs)"

definition CBDecodeBase58 :: "BigNumber \<Rightarrow> bytes \<Rightarrow> BigNumber option" where
  "CBDecodeBase58 bi str =
    (if str = [] then None
     else do {
       bi2 \<leftarrow> BigNumber_new None 1;
       bi \<leftarrow> decode_loop 0 bi bi2 (rev str);
       let zeros = length (takeWhile (\<lambda>c. c = 49) str);
       if zeros > 255 then None
       else do {
         d \<leftarrow> blit (bn_data bi) (bn_len bi) (replicate zeros 0);
         Some (bi\<lparr>bn_data := d, bn_len := bn_len bi + zeros\<rparr>)
       }
     })"

text \<open>\<open>CBEncodeBase58\<close>: its three loops and the function.\<close>

fun encode_zeros :: "bytes \<Rightarrow> nat \<Rightarrow> bytes \<Rightarrow> nat \<Rightarrow> (bytes \<times> nat) option" where
  "encode_zeros d y str x =
    (if d ! y = 0
     then do {
       str \<leftarrow> put str x 49;
       if y = 0 then Some (str, x + 1) else encode_zeros d (y - 1) str (x + 1)
     }
     else Some (str, x))"

declare encode_zeros.simps [simp del]

partial_function (option) encode_loop ::
  "nat \<Rightarrow> BigNumber \<Rightarrow> bytes \<Rightarrow> nat \<Rightarrow> (bool \<times> BigNumber \<times> bytes \<times> nat) option" where
  "encode_loop maxStrLen bi str x =
    (if BigNumberCompareTo58 bi \<noteq> CB_COMPARE_LESS_THAN
     then do {
       m \<leftarrow> BigNumberModuloWith58 bi;
       if bn_len bi < x + 3 \<and> x + 3 > maxStrLen then Some (False, bi, str, x)
       else do {
         c \<leftarrow> at base58Characters (unat m);
         str \<leftarrow> put str x c;
         bi \<leftarrow> BigNumberEqualsDivisionBy58 (BigNumberEqualsSubtractionByUInt8 bi m) (replicate MAX_BIG_NUMBER 0);
         encode_loop maxStrLen bi str (x + 1)
       }
     }
     else Some (True, bi, str, x))"

definition swap :: "bytes \<Rightarrow> nat \<Rightarrow> nat \<Rightarrow> bytes" where
  "swap str i j = (let temp = str ! i; str = str[i := str ! j] in str[j := temp])"

definition reverse_loop :: "nat \<Rightarrow> nat \<Rightarrow> bytes \<Rightarrow> nat \<Rightarrow> bytes" where
  "reverse_loop zeros x str n = foldl (\<lambda>str y. swap str (y + zeros) (x - y - 1)) str [0..<n]"

definition CBEncodeBase58 :: "BigNumber \<Rightarrow> bytes \<Rightarrow> nat \<Rightarrow> (bool \<times> bytes) option" where
  "CBEncodeBase58 bi str maxStrLen =
    (if maxStrLen < bn_len bi then Some (False, str)
     else if bn_len bi = 0 \<or> bn_len bi > MAX_BIG_NUMBER then None
     else do {
       (str, zeros) \<leftarrow> encode_zeros (bn_data bi) (bn_len bi - 1) str 0;
       (ok, bi, str, x) \<leftarrow> encode_loop maxStrLen bi str zeros;
       if \<not> ok then Some (False, str)
       else do {
         c \<leftarrow> at base58Characters (unat (bn_data bi ! (bn_len bi - 1)));
         str \<leftarrow> put str x c;
         let x = x + 1;
         if (x - zeros) div 2 > 255 then None
         else do {
           let str = reverse_loop zeros x str ((x - zeros) div 2);
           str \<leftarrow> put str x 0;
           Some (True, str)
         }
       }
     })"

definition encodeBase58 :: "bytes \<Rightarrow> nat \<Rightarrow> bool \<Rightarrow> bytes \<Rightarrow> nat \<Rightarrow> (bool \<times> bytes) option" where
  "encodeBase58 bigNumber len littleEndian output maxStrLen = do {
     hash \<leftarrow> (if littleEndian
        then if len \<ge> 25 \<and> len \<le> length bigNumber
             then Some (map (\<lambda>i. bigNumber ! (len - 1 - i)) [0..<25]) else None
        else do { bs \<leftarrow> slice bigNumber 0 len; blit (replicate 25 0) 0 bs });
     bytes \<leftarrow> BigNumber_new (Some hash) len;
     CBEncodeBase58 bytes output maxStrLen
   }"

definition decodeBase58 :: "bytes \<Rightarrow> bytes \<Rightarrow> nat \<Rightarrow> bool \<Rightarrow> (nat \<times> bytes) option" where
  "decodeBase58 string output maxOutputLength littleEndian = do {
     bn \<leftarrow> BigNumber_new None 0;
     bn \<leftarrow> CBDecodeBase58 bn string;
     if bn_len bn \<le> maxOutputLength
     then do {
       bs \<leftarrow> slice (bn_data bn) 0 (bn_len bn);
       output \<leftarrow> blit output 0 (if littleEndian then rev bs else bs);
       Some (bn_len bn, output)
     }
     else Some (0, output)
   }"


section \<open>Digits\<close>

text \<open>The digits of a number in base 58, the lowest first.\<close>

fun digits58 :: "nat \<Rightarrow> nat list" where
  "digits58 n = (if n < 58 then [n] else n mod 58 # digits58 (n div 58))"

declare digits58.simps [simp del]

primrec of_digits58 :: "nat list \<Rightarrow> nat" where
  "of_digits58 [] = 0"
| "of_digits58 (d # ds) = d + 58 * of_digits58 ds"

definition char58 :: "nat \<Rightarrow> unit8" where
  "char58 d = base58Characters ! d"

lemma digits58_nonempty [simp]: "digits58 n \<noteq> []"
  by (simp add: digits58.simps [of n])

lemma of_digits58_digits58 [simp]: "of_digits58 (digits58 n) = n"
  by (induction n rule: digits58.induct) (subst digits58.simps, simp)

lemma digits58_less: "d \<in> set (digits58 n) \<Longrightarrow> d < 58"
  by (induction n rule: digits58.induct) (subst (asm) (2) digits58.simps, auto split: if_splits)

lemma last_digits58: "0 < n \<Longrightarrow> last (digits58 n) \<noteq> 0"
  by (induction n rule: digits58.induct) (subst digits58.simps, auto simp: div_eq_0_iff)

lemma power_digits58: "0 < n \<Longrightarrow> 58 ^ (length (digits58 n) - 1) \<le> n"
proof (induction n rule: digits58.induct)
  case (1 n)
  show ?case
  proof (cases "n < 58")
    case True
    with 1 show ?thesis by (simp add: digits58.simps [of n])
  next
    case False
    then have IH: "58 ^ (length (digits58 (n div 58)) - 1) \<le> n div 58"
      using 1 by (simp add: div_greater_zero_iff)
    have "length (digits58 (n div 58)) = Suc (length (digits58 (n div 58)) - 1)"
      by (metis digits58_nonempty Suc_diff_1 length_greater_0_conv)
    then have "(58 :: nat) ^ length (digits58 (n div 58)) = 58 * 58 ^ (length (digits58 (n div 58)) - 1)"
      by (metis power_Suc)
    then show ?thesis
      using False IH by (simp add: digits58.simps [of n])
  qed
qed

lemma base58_codes: "base58Characters =
   [49, 50, 51, 52, 53, 54, 55, 56, 57, 65, 66, 67, 68, 69, 70, 71, 72, 74, 75, 76, 77, 78, 80, 81, 82,
    83, 84, 85, 86, 87, 88, 89, 90, 97, 98, 99, 100, 101, 102, 103, 104, 105, 106, 107, 109, 110, 111,
    112, 113, 114, 115, 116, 117, 118, 119, 120, 121, 122, 0]"
  by (simp add: base58Characters_def ascii_def)

lemma char58_table:
  "\<forall>d \<in> set [0..<58]. unat (alphaIndex (char58 d)) = (if d = 0 then 49 else d) \<and> char58 d \<noteq> 0 \<and>
     (char58 d = 49 \<longleftrightarrow> d = 0)"
  unfolding char58_def base58_codes by code_simp

lemma char58_props:
  assumes "d < 58"
  shows "char58 d \<noteq> 0" and "char58 d = 49 \<longleftrightarrow> d = 0" and "0 < d \<Longrightarrow> unat (alphaIndex (char58 d)) = d"
    and "at base58Characters d = Some (char58 d)"
proof -
  have "d \<in> set [0..<58]" using assms by simp
  with char58_table
  show "char58 d \<noteq> 0" and "char58 d = 49 \<longleftrightarrow> d = 0" and "0 < d \<Longrightarrow> unat (alphaIndex (char58 d)) = d"
    by (auto split: if_splits)
  show "at base58Characters d = Some (char58 d)"
    using assms by (simp add: at_def char58_def base58_codes)
qed


section \<open>The encoder\<close>

definition top_zeros :: "bytes \<Rightarrow> nat" where
  "top_zeros bs = length (takeWhile (\<lambda>b. b = 0) (rev bs))"

lemma top_zeros_snoc: "top_zeros (bs @ [b]) = (if b = 0 then Suc (top_zeros bs) else 0)"
  by (simp add: top_zeros_def)

lemma top_zeros_le: "top_zeros bs \<le> length bs"
  unfolding top_zeros_def by (metis length_rev length_takeWhile_le)

lemma le_nat_0_top_zeros: "le_nat bs = 0 \<Longrightarrow> top_zeros bs = length bs"
  by (induction bs rule: rev_induct) (simp_all add: le_nat_append top_zeros_snoc unat_eq_0, simp add: top_zeros_def)

lemma encode_zeros_run:
  assumes "Suc y \<le> length d" and "x + top_zeros (take (Suc y) d) \<le> length str"
  shows "encode_zeros d y str x =
    (let z = top_zeros (take (Suc y) d) in Some (memput str x (replicate z 49), x + z))"
  using assms
proof (induction y arbitrary: str x)
  case 0
  then obtain b ds where "d = b # ds" by (cases d) auto
  with 0 memput_Cons [of x str 49 "[]"] show ?case
    by (subst encode_zeros.simps) (auto simp: put_def top_zeros_def)
next
  case (Suc y)
  have take: "take (Suc (Suc y)) d = take (Suc y) d @ [d ! Suc y]"
    using Suc.prems(1) by (simp add: take_Suc_conv_app_nth)
  show ?case
  proof (cases "d ! Suc y = 0")
    case True
    then have "encode_zeros d y (str[x := 49]) (x + 1) =
        (let z = top_zeros (take (Suc y) d) in Some (memput (str[x := 49]) (x + 1) (replicate z 49), x + 1 + z))"
      using Suc.prems by (intro Suc.IH) (simp_all add: take top_zeros_snoc)
    then show ?thesis
      using True Suc.prems
      by (simp add: encode_zeros.simps [of d "Suc y"] put_def Let_def take top_zeros_snoc memput_Cons [of x str, simplified])
  next
    case False
    then show ?thesis
      by (simp add: encode_zeros.simps [of d "Suc y"] take top_zeros_snoc)
  qed
qed

lemma compare58_min:
  assumes "bn_wf bi" and "1 \<le> bn_len bi" and "bn_min bi"
  shows "BigNumberCompareTo58 bi \<noteq> CB_COMPARE_LESS_THAN \<longleftrightarrow> 58 \<le> bn_val bi"
proof (cases "bn_len bi = 1")
  case True
  moreover obtain x xs where "bn_data bi = x # xs"
    using assms(1) by (cases "bn_data bi") (auto simp: bn_wf_def)
  ultimately show ?thesis
    by (auto simp: BigNumberCompareTo58_def bn_val_def word_less_nat_alt)
next
  case False
  then have "(256 :: nat) ^ 1 \<le> 256 ^ (bn_len bi - 1)"
    using assms(2) by (intro power_increasing) simp_all
  with False assms(2,3) show ?thesis
    by (simp add: BigNumberCompareTo58_def bn_min_def)
qed

lemma encode_loop_step:
  assumes "bn_wf bi" and "1 \<le> bn_len bi" and "BigNumberCompareTo58 bi \<noteq> CB_COMPARE_LESS_THAN"
    and "length str = maxStrLen" and "bn_len bi \<le> maxStrLen"
  shows "\<exists>bi'. bn_wf bi' \<and> 1 \<le> bn_len bi' \<and> bn_min bi' \<and> bn_len bi' \<le> bn_len bi \<and>
     bn_val bi' = bn_val bi div 58 \<and>
     encode_loop maxStrLen bi str x =
       (if x + 3 > maxStrLen then Some (False, bi, str, x)
        else encode_loop maxStrLen bi' (str[x := char58 (bn_val bi mod 58)]) (x + 1))"
proof -
  obtain m where m: "BigNumberModuloWith58 bi = Some m" "unat m = bn_val bi mod 58"
    using modulo58_val [OF assms(1,2)] by blast
  let ?s = "BigNumberEqualsSubtractionByUInt8 bi m"
  have le: "unat m \<le> bn_val bi" by (simp add: m(2))
  note s = subtraction8_val [OF assms(1,2) le]
  have "58 \<le> bn_val ?s \<or> bn_val ?s = 0"
    using s m(2) by (metis (no_types) le_add_diff_inverse2 less_one linorder_not_less minus_mod_eq_mult_div
        mult_le_cancel1 mult_0_right nat_mult_1_right)
  then obtain bi' where bi': "BigNumberEqualsDivisionBy58 ?s (replicate MAX_BIG_NUMBER 0) = Some bi'"
      "bn_wf bi'" "bn_val bi' = bn_val ?s div 58" "bn_min bi'" "1 \<le> bn_len bi'" "bn_len bi' \<le> bn_len ?s"
    using division58_val [of ?s "replicate MAX_BIG_NUMBER 0"] s by (auto simp: MAX_BIG_NUMBER_def)
  have "bn_val ?s div 58 = bn_val bi div 58"
    using s m(2) by (simp add: minus_mod_eq_mult_div)
  moreover have "encode_loop maxStrLen bi str x =
       (if x + 3 > maxStrLen then Some (False, bi, str, x)
        else encode_loop maxStrLen bi' (str[x := char58 (bn_val bi mod 58)]) (x + 1))"
    using assms(3-5) m bi'(1) char58_props(4) [of "bn_val bi mod 58"]
    by (subst encode_loop.simps) (simp add: put_def)
  ultimately show ?thesis
    using bi' s by (intro exI [of _ bi']) auto
qed

lemma encode_loop_run:
  assumes "bn_wf bi" and "1 \<le> bn_len bi" and "bn_min bi"
    and "length str = maxStrLen" and "bn_len bi \<le> maxStrLen"
  shows "if 58 \<le> bn_val bi \<and> x + length (digits58 (bn_val bi)) + 1 > maxStrLen
    then \<exists>bi' str' x'. encode_loop maxStrLen bi str x = Some (False, bi', str', x') \<and> length str' = maxStrLen
    else \<exists>bi'. encode_loop maxStrLen bi str x = Some (True, bi',
        memput str x (map char58 (butlast (digits58 (bn_val bi)))), x + length (digits58 (bn_val bi)) - 1) \<and>
      bn_wf bi' \<and> bn_len bi' = 1 \<and> bn_val bi' = last (digits58 (bn_val bi))"
  using assms
proof (induction "bn_val bi" arbitrary: bi str x rule: less_induct)
  case less
  show ?case
  proof (cases "58 \<le> bn_val bi")
    case False
    then have "BigNumberCompareTo58 bi = CB_COMPARE_LESS_THAN"
      using compare58_min [OF less.prems(1-3)] by auto
    moreover have "bn_len bi = 1"
    proof (rule ccontr)
      assume "bn_len bi \<noteq> 1"
      then have "(256 :: nat) ^ 1 \<le> 256 ^ (bn_len bi - 1)"
        using less.prems(2) by (intro power_increasing) simp_all
      with False less.prems(2,3) \<open>bn_len bi \<noteq> 1\<close> show False by (simp add: bn_min_def)
    qed
    ultimately show ?thesis
      using False less.prems by (subst encode_loop.simps) (simp add: digits58.simps [of "bn_val bi"])
  next
    case True
    then have "BigNumberCompareTo58 bi \<noteq> CB_COMPARE_LESS_THAN"
      using compare58_min [OF less.prems(1-3)] by simp
    from encode_loop_step [OF less.prems(1,2) this less.prems(4,5), of x]
    obtain bi' where bi': "bn_wf bi'" "1 \<le> bn_len bi'" "bn_min bi'" "bn_len bi' \<le> bn_len bi"
      "bn_val bi' = bn_val bi div 58"
      and code: "encode_loop maxStrLen bi str x =
       (if x + 3 > maxStrLen then Some (False, bi, str, x)
        else encode_loop maxStrLen bi' (str[x := char58 (bn_val bi mod 58)]) (x + 1))" by blast
    have dig: "digits58 (bn_val bi) = bn_val bi mod 58 # digits58 (bn_val bi')"
      using True bi'(5) by (simp add: digits58.simps [of "bn_val bi"])
    show ?thesis
    proof (cases "x + 3 > maxStrLen")
      case True
      have "1 \<le> length (digits58 (bn_val bi'))"
        by (simp add: Suc_le_eq)
      with True \<open>58 \<le> bn_val bi\<close> code dig less.prems(4) show ?thesis by simp
    next
      case False
      have "bn_val bi' < bn_val bi" using bi'(5) True by simp
      note IH = less.hyps [OF this bi'(1-3), of "str[x := char58 (bn_val bi mod 58)]" "x + 1"]
      have "memput (str[x := char58 (bn_val bi mod 58)]) (x + 1) (map char58 (butlast (digits58 (bn_val bi'))))
          = memput str x (map char58 (butlast (digits58 (bn_val bi))))"
        using False less.prems(4) by (simp add: dig memput_Cons [simplified])
      moreover have "bn_val bi' < 58 \<Longrightarrow> length (digits58 (bn_val bi')) = 1"
        by (simp add: digits58.simps)
      ultimately show ?thesis
        using IH False True code dig less.prems(4,5) bi'(4) by (auto split: if_splits)
    qed
  qed
qed

text \<open>The reversal loop: after \<open>k\<close> swaps the outer \<open>k\<close> places on each side are exchanged.\<close>

lemma length_swap [simp]: "length (swap str i j) = length str"
  by (simp add: swap_def)

lemma reverse_loop_Suc:
  "reverse_loop z x str (Suc k) = swap (reverse_loop z x str k) (k + z) (x - k - 1)"
  by (simp add: reverse_loop_def)

lemma length_reverse_loop [simp]: "length (reverse_loop z x str k) = length str"
  by (induction k) (simp_all add: reverse_loop_Suc, simp add: reverse_loop_def)

lemma reverse_loop_nth:
  assumes "z \<le> x" and "x \<le> length str" and "k \<le> (x - z) div 2" and "i < length str"
  shows "reverse_loop z x str k ! i =
    (if z \<le> i \<and> i < z + k \<or> x - k \<le> i \<and> i < x then str ! (x + z - 1 - i) else str ! i)"
  using assms
proof (induction k arbitrary: i)
  case 0
  then show ?case by (auto simp: reverse_loop_def)
next
  case (Suc k)
  let ?r = "reverse_loop z x str k"
  have k: "k + z < x - k - 1" "x - k - 1 < length str" "k + z < length str"
    using Suc.prems by linarith+
  have "?r ! (k + z) = str ! (k + z)" and "?r ! (x - k - 1) = str ! (x - k - 1)"
    using Suc.IH [of "k + z"] Suc.IH [of "x - k - 1"] Suc.prems k by auto
  moreover have "x + z - 1 - (k + z) = x - k - 1" and "x + z - 1 - (x - k - 1) = k + z"
    using k by auto
  moreover have "?r ! i = (if z \<le> i \<and> i < z + k \<or> x - k \<le> i \<and> i < x then str ! (x + z - 1 - i) else str ! i)"
    using Suc by simp
  ultimately show ?case
    using k Suc.prems
    by (auto simp: reverse_loop_Suc swap_def Let_def nth_list_update add.commute [of z k])
qed

lemma reverse_loop_run:
  "reverse_loop (length pre) (length pre + length seg) (pre @ seg @ post) (length seg div 2) = pre @ rev seg @ post"
proof (rule nth_equalityI)
  fix i
  let ?z = "length pre" and ?n = "length seg"
  assume "i < length (reverse_loop ?z (?z + ?n) (pre @ seg @ post) (?n div 2))"
  then have i: "i < ?z + ?n + length post" by simp
  have "reverse_loop ?z (?z + ?n) (pre @ seg @ post) (?n div 2) ! i =
     (if ?z \<le> i \<and> i < ?z + ?n div 2 \<or> ?z + ?n - ?n div 2 \<le> i \<and> i < ?z + ?n
      then (pre @ seg @ post) ! (?z + ?n + ?z - 1 - i) else (pre @ seg @ post) ! i)"
    using i by (subst reverse_loop_nth) simp_all
  also have "\<dots> = (pre @ rev seg @ post) ! i"
  proof (cases "?z \<le> i \<and> i < ?z + ?n")
    case True
    then obtain j where j: "i = ?z + j" "j < ?n" by (metis add_less_cancel_left le_Suc_ex)
    have mid: "?n - 1 - j = j" if "\<not> j < ?n div 2" "\<not> ?n - ?n div 2 \<le> j"
      using that by linarith
    from j have "?z + ?n + ?z - 1 - i = ?z + (?n - 1 - j)" by auto
    with j mid show ?thesis
      by (auto simp: nth_append rev_nth)
  qed (use i in \<open>auto simp: nth_append\<close>)
  finally show "reverse_loop ?z (?z + ?n) (pre @ seg @ post) (?n div 2) ! i = (pre @ rev seg @ post) ! i" .
qed simp

text \<open>
  What the encoder writes for a number: a ``1'' for each zero byte at the top, then the digits of
  the value. A number of more than one byte always passes through the loop once, so that a value
  below 58 gets a second digit.
\<close>

definition code_digits :: "nat \<Rightarrow> nat \<Rightarrow> nat list" where
  "code_digits len v = (if len = 1 then digits58 v else v mod 58 # digits58 (v div 58))"

definition base58_text :: "bytes \<Rightarrow> bytes" where
  "base58_text bs = replicate (top_zeros bs) 49 @ map char58 (rev (code_digits (length bs) (le_nat bs)))"

lemma code_digits_large: "58 \<le> v \<Longrightarrow> code_digits len v = digits58 v"
  by (simp add: code_digits_def digits58.simps [of v])

lemma code_digits_nonempty [simp]: "code_digits len v \<noteq> []"
  by (simp add: code_digits_def)

lemma code_digits_less: "d \<in> set (code_digits len v) \<Longrightarrow> d < 58"
  by (auto simp: code_digits_def dest: digits58_less split: if_splits)

lemma length_digits58:
  assumes "v < 256 ^ 256"
  shows "length (digits58 v) \<le> 411"
proof (cases "v = 0")
  case True
  then show ?thesis by (simp add: digits58.simps)
next
  case False
  let ?n = "length (digits58 v) - 1"
  have "(2 :: nat) ^ (5 * ?n) = 32 ^ ?n"
    by (simp add: power_mult)
  also have "\<dots> \<le> 58 ^ ?n" by (rule power_mono) simp_all
  also have "\<dots> \<le> v" using False by (intro power_digits58) simp
  also have "\<dots> < 2 ^ (8 * 256)" using assms by (simp add: power_mult)
  finally have "5 * ?n < 8 * 256" by (rule power_less_imp_less_exp [rotated]) simp
  then show ?thesis by linarith
qed

lemma bn_val_less: "bn_wf a \<Longrightarrow> bn_val a < 256 ^ 256"
proof -
  assume "bn_wf a"
  then have "bn_val a < 256 ^ bn_len a" and "bn_len a \<le> 256"
    using le_nat_less [of "take (bn_len a) (bn_data a)"] by (auto simp: bn_wf_def bn_val_def)
  moreover have "(256 :: nat) ^ bn_len a \<le> 256 ^ 256"
    by (rule power_increasing [OF \<open>bn_len a \<le> 256\<close>]) simp
  ultimately show ?thesis by (meson order_less_le_trans)
qed

lemma encode_first:
  assumes "bn_wf bi" and "1 \<le> bn_len bi" and "length str = maxStrLen" and "bn_len bi \<le> maxStrLen"
  defines "ds \<equiv> code_digits (bn_len bi) (bn_val bi)"
  shows "if (58 \<le> bn_val bi \<or> 1 < bn_len bi) \<and> x + length ds + 1 > maxStrLen
    then \<exists>bi' str' x'. encode_loop maxStrLen bi str x = Some (False, bi', str', x') \<and> length str' = maxStrLen
    else \<exists>bi'. encode_loop maxStrLen bi str x = Some (True, bi',
        memput str x (map char58 (butlast ds)), x + length ds - 1) \<and>
      bn_wf bi' \<and> bn_len bi' = 1 \<and> bn_val bi' = last ds"
proof (cases "bn_len bi = 1")
  case True
  then have "bn_min bi" by (simp add: bn_min_def)
  with encode_loop_run [OF assms(1,2) _ assms(3,4), of x] True show ?thesis
    by (auto simp: ds_def code_digits_def split: if_splits)
next
  case False
  then have "BigNumberCompareTo58 bi \<noteq> CB_COMPARE_LESS_THAN"
    using assms(2) by (simp add: BigNumberCompareTo58_def)
  from encode_loop_step [OF assms(1,2) this assms(3,4), of x]
  obtain bi' where bi': "bn_wf bi'" "1 \<le> bn_len bi'" "bn_min bi'" "bn_len bi' \<le> bn_len bi"
    "bn_val bi' = bn_val bi div 58"
    and code: "encode_loop maxStrLen bi str x =
       (if x + 3 > maxStrLen then Some (False, bi, str, x)
        else encode_loop maxStrLen bi' (str[x := char58 (bn_val bi mod 58)]) (x + 1))" by blast
  have ds: "ds = bn_val bi mod 58 # digits58 (bn_val bi')"
    using False bi'(5) by (simp add: ds_def code_digits_def)
  show ?thesis
  proof (cases "x + 3 > maxStrLen")
    case True
    have "1 \<le> length (digits58 (bn_val bi'))"
      by (simp add: Suc_le_eq)
    with True False assms(2,3) code ds show ?thesis by simp
  next
    case small: False
    note run = encode_loop_run [OF bi'(1-3), of "str[x := char58 (bn_val bi mod 58)]" maxStrLen "x + 1"]
    have "memput (str[x := char58 (bn_val bi mod 58)]) (x + 1) (map char58 (butlast (digits58 (bn_val bi'))))
        = memput str x (map char58 (butlast ds))"
      using small assms(3) by (simp add: ds memput_Cons [simplified])
    moreover have "bn_val bi' < 58 \<Longrightarrow> length (digits58 (bn_val bi')) = 1"
      by (simp add: digits58.simps)
    ultimately show ?thesis
      using run small False code ds assms(2-4) bi'(4) by (auto split: if_splits)
  qed
qed

lemma CBEncodeBase58_run:
  assumes "bn_wf bi" and "1 \<le> bn_len bi" and "length str = maxStrLen" and "bn_len bi \<le> maxStrLen"
  defines "s \<equiv> base58_text (take (bn_len bi) (bn_data bi))"
  shows "if length s < maxStrLen
    then CBEncodeBase58 bi str maxStrLen = Some (True, memput str 0 (s @ [0]))
    else 58 \<le> bn_val bi \<or> 1 < bn_len bi \<longrightarrow>
      (\<exists>str'. CBEncodeBase58 bi str maxStrLen = Some (False, str') \<and> length str' = maxStrLen)"
proof -
  let ?bs = "take (bn_len bi) (bn_data bi)"
  let ?z = "top_zeros ?bs" and ?ds = "code_digits (bn_len bi) (bn_val bi)"
  let ?str = "memput str 0 (replicate ?z 49)"
  have len: "length ?bs = bn_len bi"
    using assms(1) by (simp add: bn_wf_def)
  then have s: "s = replicate ?z 49 @ map char58 (rev ?ds)"
    by (simp add: s_def base58_text_def bn_val_def)
  have z: "?z \<le> maxStrLen"
    using top_zeros_le [of ?bs] assms(4) len by simp
  then have str: "length ?str = maxStrLen"
    using assms(3) by (simp add: length_memput)
  have zeros: "encode_zeros (bn_data bi) (bn_len bi - 1) str 0 = Some (?str, ?z)"
    using encode_zeros_run [of "bn_len bi - 1" "bn_data bi" 0 str] assms(1-3) z
    by (simp add: bn_wf_def Let_def)
  note first = encode_first [OF assms(1,2) str assms(4), of ?z]
  have guard: "\<not> maxStrLen < bn_len bi" "\<not> (bn_len bi = 0 \<or> bn_len bi > MAX_BIG_NUMBER)"
    using assms by (auto simp: bn_wf_def MAX_BIG_NUMBER_def)
  show ?thesis
  proof (cases "length s < maxStrLen")
    case False
    then show ?thesis
      using first guard zeros by (auto simp: CBEncodeBase58_def s)
  next
    case True
    then have room: "?z + length ?ds + 1 \<le> maxStrLen" by (simp add: s)
    then obtain bi' where loop: "encode_loop maxStrLen bi ?str ?z = Some (True, bi',
        memput ?str ?z (map char58 (butlast ?ds)), ?z + length ?ds - 1)"
      and bi': "bn_wf bi'" "bn_len bi' = 1" "bn_val bi' = last ?ds"
      using first by auto
    have ds1: "1 \<le> length ?ds" by (simp add: Suc_le_eq)
    obtain b bs where "bn_data bi' = b # bs"
      using bi'(1) by (cases "bn_data bi'") (auto simp: bn_wf_def)
    moreover from this have "unat b = last ?ds"
      using bi'(2,3) by (simp add: bn_val_def [of bi'])
    moreover have "last ?ds < 58"
      by (rule code_digits_less [OF last_in_set]) simp
    ultimately have last: "at base58Characters (unat (bn_data bi' ! (bn_len bi' - 1))) = Some (char58 (last ?ds))"
      using bi'(2) by (simp add: char58_props(4))
    let ?s1 = "memput ?str ?z (map char58 (butlast ?ds))"
    have "?s1[?z + length (map char58 (butlast ?ds)) := char58 (last ?ds)]
        = memput ?str ?z (map char58 (butlast ?ds) @ [char58 (last ?ds)])"
      using str room by (intro memput_update) simp
    also have "map char58 (butlast ?ds) @ [char58 (last ?ds)] = map char58 ?ds"
      by (metis append_butlast_last_id code_digits_nonempty list.map(1,2) map_append)
    also have "memput ?str ?z (map char58 ?ds) = replicate ?z 49 @ map char58 ?ds @ drop (?z + length ?ds) str"
      using z assms(3) by (simp add: memput_def add.commute)
    finally have put: "put ?s1 (?z + length ?ds - 1) (char58 (last ?ds))
        = Some (replicate ?z 49 @ map char58 ?ds @ drop (?z + length ?ds) str)"
      using str room ds1 by (simp add: put_def length_memput)
    have rev: "reverse_loop ?z (?z + length ?ds) (replicate ?z 49 @ map char58 ?ds @ drop (?z + length ?ds) str)
         (length ?ds div 2) = s @ drop (?z + length ?ds) str"
      using reverse_loop_run [of "replicate ?z 49" "map char58 ?ds" "drop (?z + length ?ds) str"]
      by (simp add: s rev_map)
    have small: "length ?ds div 2 \<le> 255"
      using length_digits58 [OF bn_val_less [OF assms(1)]]
        length_digits58 [OF le_less_trans [OF div_le_dividend bn_val_less [OF assms(1)]], of 58]
      by (simp add: code_digits_def) linarith
    have "put (s @ drop (?z + length ?ds) str) (?z + length ?ds) 0 = Some (memput str 0 (s @ [0]))"
      using room assms(3) Cons_nth_drop_Suc [of "?z + length ?ds" str]
      by (simp add: put_def memput_def s list_update_append)
        (metis Suc_le_eq list_update_code(2))
    then show ?thesis
      using True guard zeros loop last put rev small ds1
      by (simp add: CBEncodeBase58_def)
  qed
qed


section \<open>The decoder\<close>

text \<open>The value of a valid string, read from its end, and the invariant of the loop.\<close>

definition index58 :: "unit8 \<Rightarrow> nat" where
  "index58 c = (if c = 49 then 0 else unat (alphaIndex c))"

definition valid58 :: "bytes \<Rightarrow> bool" where
  "valid58 s \<longleftrightarrow> (\<forall>c \<in> set s. \<exists>d < 58. c = char58 d)"

lemma index58_char58 [simp]: "d < 58 \<Longrightarrow> index58 (char58 d) = d"
  by (auto simp: index58_def char58_props)

lemma bn_min_len:
  assumes "bn_min a" and "bn_val a < 256 ^ n" and "1 \<le> n"
  shows "bn_len a \<le> n"
proof (rule ccontr)
  assume "\<not> bn_len a \<le> n"
  then have "(256 :: nat) ^ n \<le> 256 ^ (bn_len a - 1)"
    by (intro power_increasing) simp_all
  moreover have "256 ^ (bn_len a - 1) \<le> bn_val a"
    using assms(1,3) \<open>\<not> bn_len a \<le> n\<close> by (simp add: bn_min_def)
  ultimately show False using assms(2) by linarith
qed

lemma of_digits58_less: "\<forall>d \<in> set ds. d < 58 \<Longrightarrow> of_digits58 ds < 58 ^ length ds"
  by (induction ds) (auto intro!: less_le_trans [of _ "58 * Suc (of_digits58 _)"])

lemma of_digits58_append: "of_digits58 (xs @ ys) = of_digits58 xs + 58 ^ length xs * of_digits58 ys"
  by (induction xs) (simp_all add: algebra_simps)

lemma decode_loop_run:
  assumes "bn_wf bi" and "bn_min bi" and "bn_val bi < 58 ^ k" and "length (bn_data bi2) = 256"
    and "valid58 cs" and "k + length cs \<le> 250"
  shows "\<exists>bi'. decode_loop k bi bi2 cs = Some bi' \<and> bn_wf bi' \<and> bn_min bi' \<and>
    bn_val bi' = bn_val bi + 58 ^ k * of_digits58 (map index58 cs) \<and>
    (bn_len bi = 0 \<or> 0 < bn_val bi \<longrightarrow> bn_len bi' = 0 \<or> 0 < bn_val bi')"
  using assms
proof (induction k bi bi2 cs rule: decode_loop.induct)
  case (2 k bi bi2 c cs)
  obtain d where d: "d < 58" "c = char58 d"
    using "2.prems"(5) by (auto simp: valid58_def)
  have pow_le: "(58 :: nat) ^ n \<le> 256 ^ n" for n
    by (rule power_mono) simp_all
  show ?case
  proof (cases "d = 0")
    case True
    then have c: "c = 49" using d char58_props(2) by simp
    moreover have "bn_val bi < 58 ^ (k + 1)"
      using "2.prems"(3) by (rule less_le_trans) simp
    ultimately show ?thesis
      using "2.IH"(2) "2.prems" by (simp add: valid58_def index58_def algebra_simps)
  next
    case False
    then have c: "c \<noteq> 49" and a: "unat (alphaIndex c) = d"
      using d char58_props [OF d(1)] by auto
    have k: "unat (word_of_nat k :: unit8) = k"
      using "2.prems"(6) by (simp add: unat_of_nat)
    obtain p where p: "BigNumberFromPowUInt8 bi2 58 (word_of_nat k) = Some p" "bn_wf p"
        "bn_val p = 58 ^ k" "bn_min p" "1 \<le> bn_len p" "bn_len p \<le> k + 1"
      using pow_val [of bi2 "word_of_nat k" 58] "2.prems"(4,6) k by auto
    then obtain q where q: "BigNumberEqualsMultiplicationByUInt8 p (alphaIndex c) = Some q" "bn_wf q"
        "bn_val q = 58 ^ k * d" "bn_min q" "1 \<le> bn_len q" "bn_len q \<le> k + 2"
      using multiplication_val [of p "alphaIndex c"] "2.prems"(6) a by auto
    have "bn_len bi \<le> k + 1"
      using "2.prems"(2,3) pow_le [of k] by (intro bn_min_len) (auto intro: less_le_trans)
    then obtain r where r: "BigNumberEqualsAdditionByBigInt bi q = Some r" "bn_wf r"
        "bn_val r = bn_val bi + 58 ^ k * d" "bn_min r"
      using addition_val [of bi q] "2.prems"(1,2,6) q by auto
    have "58 ^ k * d \<le> 58 ^ k * 57"
      using d(1) by (intro mult_le_mono2) simp
    then have less: "bn_val r < 58 ^ (k + 1)"
      using "2.prems"(3) unfolding r(3) by (simp only: power_add power_one_right)
    have "0 < bn_val r"
      using r(3) False by simp
    obtain bi' where "decode_loop (k + 1) r q cs = Some bi'" "bn_wf bi'" "bn_min bi'"
        "bn_val bi' = bn_val r + 58 ^ (k + 1) * of_digits58 (map index58 cs)"
      using "2.IH"(1) [OF c p(1) q(1) r(1) r(2) r(4) less] "2.prems" q(2)
      by (auto simp: valid58_def bn_wf_def)
    then show ?thesis
      using c p(1) q(1) r(1,3) d \<open>0 < bn_val r\<close>
      by (intro exI [of _ bi']) (auto simp: algebra_simps)
  qed
qed simp

lemma CBDecodeBase58_run:
  assumes "str \<noteq> []" and "valid58 str" and "length str \<le> 120"
  defines "zeros \<equiv> length (takeWhile (\<lambda>c. c = 49) str)"
    and "v \<equiv> of_digits58 (map index58 (rev str))"
  shows "\<exists>bi n. CBDecodeBase58 \<lparr>bn_data = replicate 256 0, bn_len = 0\<rparr> str = Some bi \<and>
    length (bn_data bi) = 256 \<and> bn_len bi = n + zeros \<and> bn_len bi \<le> 256 \<and>
    take (bn_len bi) (bn_data bi) = le_put n v @ replicate zeros 0 \<and>
    v < 256 ^ n \<and> (0 < n \<longrightarrow> 256 ^ (n - 1) \<le> v)"
proof -
  let ?b0 = "\<lparr>bn_data = replicate 256 0, bn_len = 0\<rparr>" and ?b1 = "\<lparr>bn_data = replicate 256 0, bn_len = 1\<rparr>"
  have new: "BigNumber_new None 1 = Some ?b1"
    by (simp add: BigNumber_new_def MAX_BIG_NUMBER_def)
  have valid: "valid58 (rev str)" using assms(2) by (simp add: valid58_def)
  obtain bi where bi: "decode_loop 0 ?b0 ?b1 (rev str) = Some bi" "bn_wf bi" "bn_min bi" "bn_val bi = v"
      "bn_len bi = 0 \<or> 0 < bn_val bi"
    using decode_loop_run [of ?b0 0 ?b1 "rev str"] valid assms(3)
    by (auto simp: bn_wf_def bn_min_def bn_val_def v_def)
  let ?n = "bn_len bi"
  have zeros: "zeros \<le> length str"
    unfolding zeros_def by (rule length_takeWhile_le)
  have "\<forall>d \<in> set (map index58 (rev str)). d < 58"
    using valid by (auto simp: valid58_def)
  then have "v < 58 ^ length str"
    using of_digits58_less [of "map index58 (rev str)"] by (simp add: v_def)
  also have "\<dots> \<le> 256 ^ length str" by (rule power_mono) simp_all
  finally have n: "?n \<le> length str"
    using bi(3,4) assms(1) by (intro bn_min_len) (simp_all add: Suc_le_eq)
  let ?d = "take ?n (bn_data bi) @ replicate zeros 0 @ drop (?n + zeros) (bn_data bi)"
  have code: "CBDecodeBase58 ?b0 str = Some \<lparr>bn_data = ?d, bn_len = ?n + zeros\<rparr>"
    using assms(1,3) zeros n bi(1,2) new
    by (simp add: CBDecodeBase58_def blit_def bn_wf_def flip: zeros_def)
  have "take ?n (bn_data bi) = le_put ?n v"
    using le_put_le_nat [of "take ?n (bn_data bi)"] bi(2,4) by (simp add: bn_wf_def bn_val_def)
  moreover have "v < 256 ^ ?n"
    using le_nat_less [of "take ?n (bn_data bi)"] bi(2,4) by (simp add: bn_wf_def bn_val_def)
  moreover have "256 ^ (?n - 1) \<le> v" if "0 < ?n"
    using that bi(3,4,5) by (cases "?n = 1") (auto simp: bn_min_def)
  ultimately show ?thesis
    using code n zeros bi(2) assms(3)
    by (intro exI [of _ "\<lparr>bn_data = ?d, bn_len = ?n + zeros\<rparr>"] exI [of _ ?n]) (simp add: bn_wf_def)
qed


section \<open>The round trip\<close>

lemma valid58_text: "valid58 (base58_text bs)"
proof -
  have "\<exists>d < 58. (49 :: unit8) = char58 d"
    using char58_props(2) [of 0] by (intro exI [of _ 0]) simp
  then show ?thesis
    using code_digits_less by (auto simp: valid58_def base58_text_def)
qed

lemma zero_notin_valid58: "valid58 s \<Longrightarrow> 0 \<notin> set s"
  using char58_props(1) by (fastforce simp: valid58_def)

lemma takeWhile_ones: "c \<noteq> 49 \<Longrightarrow> takeWhile (\<lambda>c :: unit8. c = 49) (replicate n 49 @ c # cs) = replicate n 49"
  by (induction n) simp_all

lemma takeWhile_text:
  assumes "58 \<le> le_nat bs"
  shows "length (takeWhile (\<lambda>c. c = 49) (base58_text bs)) = top_zeros bs"
    and "of_digits58 (map index58 (rev (base58_text bs))) = le_nat bs"
proof -
  let ?v = "le_nat bs"
  let ?ds = "digits58 ?v"
  have shape: "base58_text bs = replicate (top_zeros bs) 49 @ map char58 (rev ?ds)"
    using assms by (simp add: base58_text_def code_digits_large)
  have "last ?ds \<noteq> 0" "last ?ds < 58"
    using assms last_digits58 [of ?v] digits58_less [OF last_in_set [of ?ds]] by auto
  then have "char58 (last ?ds) \<noteq> 49"
    by (simp add: char58_props(2))
  moreover obtain es where "rev ?ds = last ?ds # es"
    by (metis append_butlast_last_id digits58_nonempty rev_eq_Cons_iff rev_rev_ident)
  then have "map char58 (rev ?ds) = char58 (last ?ds) # map char58 es"
    by (simp only: list.map)
  ultimately show "length (takeWhile (\<lambda>c. c = 49) (base58_text bs)) = top_zeros bs"
    by (simp add: shape takeWhile_ones)
  have "map index58 (map char58 ?ds) = ?ds"
    using digits58_less by (simp add: map_idI)
  moreover have "of_digits58 (replicate n 0) = 0" for n
    by (induction n) simp_all
  ultimately show "of_digits58 (map index58 (rev (base58_text bs))) = ?v"
    by (simp add: shape rev_map [symmetric] of_digits58_append index58_def [of 49])
qed

lemma split_top_zeros:
  assumes "0 < le_nat bs"
  defines "n \<equiv> length bs - top_zeros bs"
  shows "bs = le_put n (le_nat bs) @ replicate (top_zeros bs) 0 \<and> 0 < n \<and>
    256 ^ (n - 1) \<le> le_nat bs \<and> le_nat bs < 256 ^ n"
proof -
  define lo where "lo = rev (dropWhile (\<lambda>b. b = 0) (rev bs))"
  have "rev bs = replicate (top_zeros bs) 0 @ rev lo"
    unfolding lo_def top_zeros_def by (metis (mono_tags, lifting) replicate_length_same rev_rev_ident
        set_takeWhileD takeWhile_dropWhile_id)
  then have bs: "bs = lo @ replicate (top_zeros bs) 0"
    by (metis rev_append rev_replicate rev_rev_ident)
  then have n: "length lo = n" and val: "le_nat lo = le_nat bs"
    by (metis n_def add_diff_cancel_right' length_append length_replicate,
        metis add.right_neutral le_nat_append le_nat_zeros mult_0_right)
  have "lo \<noteq> []" using val assms(1) by auto
  then have last: "last lo \<noteq> 0"
    unfolding lo_def by (metis (mono_tags, lifting) hd_dropWhile last_rev rev_is_Nil_conv)
  have "256 ^ (n - 1) \<le> le_nat (take n lo)"
    using \<open>lo \<noteq> []\<close> last n by (intro top_byte_le) (auto simp: last_conv_nth)
  then show ?thesis
    using bs n val le_nat_less [of lo] le_put_le_nat [of lo] \<open>lo \<noteq> []\<close> by auto
qed

lemma byte_length_unique:
  fixes v :: nat
  assumes "256 ^ (n - 1) \<le> v" and "v < 256 ^ n" and "256 ^ (m - 1) \<le> v" and "v < 256 ^ m" and "0 < n" and "0 < m"
  shows "n = (m :: nat)"
proof -
  have "(256 :: nat) ^ (n - 1) < 256 ^ m" and "(256 :: nat) ^ (m - 1) < 256 ^ n"
    using assms by linarith+
  then have "n - 1 < m" and "m - 1 < n"
    by (simp_all add: power_strict_increasing_iff)
  with assms(5,6) show ?thesis by linarith
qed

lemma decode_text:
  assumes "58 \<le> le_nat bs" and "length (base58_text bs) \<le> 120"
  shows "\<exists>bi. CBDecodeBase58 \<lparr>bn_data = replicate 256 0, bn_len = 0\<rparr> (base58_text bs) = Some bi \<and>
    length (bn_data bi) = 256 \<and> bn_len bi = length bs \<and> bn_len bi \<le> 256 \<and> take (bn_len bi) (bn_data bi) = bs"
proof -
  let ?v = "le_nat bs"
  have "base58_text bs \<noteq> []" by (simp add: base58_text_def)
  from CBDecodeBase58_run [OF this valid58_text assms(2)]
  obtain bi n where bi: "CBDecodeBase58 \<lparr>bn_data = replicate 256 0, bn_len = 0\<rparr> (base58_text bs) = Some bi"
    "length (bn_data bi) = 256" "bn_len bi = n + top_zeros bs" "bn_len bi \<le> 256"
    "take (bn_len bi) (bn_data bi) = le_put n ?v @ replicate (top_zeros bs) 0"
    and n: "?v < 256 ^ n" "0 < n \<longrightarrow> 256 ^ (n - 1) \<le> ?v"
    by (auto simp: takeWhile_text [OF assms(1)])
  note split = split_top_zeros [of bs]
  have "0 < n" using n(1) assms(1) by (cases n) auto
  then have "n = length bs - top_zeros bs"
    using n split assms(1) by (intro byte_length_unique) auto
  moreover from this have "le_put n ?v @ replicate (top_zeros bs) 0 = bs"
    using split assms(1) by simp
  moreover have "top_zeros bs \<le> length bs" by (rule top_zeros_le)
  ultimately show ?thesis
    using bi by (intro exI [of _ bi]) auto
qed

lemma length_text_25:
  assumes "length bs = 25"
  shows "length (base58_text bs) \<le> 39"
proof (cases "58 \<le> le_nat bs")
  case False
  then show ?thesis
    using top_zeros_le [of bs] assms by (simp add: base58_text_def code_digits_def digits58.simps)
next
  case True
  let ?z = "top_zeros bs" and ?k = "length (digits58 (le_nat bs)) - 1"
  let ?q = "?k div 6"
  have "(2 :: nat) ^ (35 * ?q) = (2 ^ 35) ^ ?q"
    by (simp only: power_mult)
  also have "\<dots> \<le> (58 ^ 6) ^ ?q" by (rule power_mono) simp_all
  also have "\<dots> = 58 ^ (6 * ?q)" by (simp only: power_mult)
  also have "\<dots> \<le> 58 ^ ?k" by (rule power_increasing) simp_all
  also have "\<dots> \<le> le_nat bs" using True by (intro power_digits58) simp
  also have "\<dots> < 256 ^ (25 - ?z)" using split_top_zeros [of bs] True assms by simp
  also have "\<dots> = 2 ^ (8 * (25 - ?z))" by (simp add: power_mult)
  finally have "35 * ?q < 8 * (25 - ?z)" by (rule power_less_imp_less_exp [rotated]) simp
  moreover have "?k \<le> 6 * ?q + 5" by linarith
  moreover have "z + k + 1 \<le> 39" if "35 * q < 8 * (25 - z)" "k \<le> 6 * q + 5" for z k q :: nat
  proof -
    have "q \<le> 5" using that(1) by linarith
    then consider "q = 0" | "q = 1" | "q = 2" | "q = 3" | "q = 4" | "q = 5" by linarith
    then show ?thesis using that by cases linarith+
  qed
  ultimately have "?z + ?k + 1 \<le> 39" by blast
  then show ?thesis
    using True by (simp add: base58_text_def code_digits_large)
qed

lemma map_nth_rev: "length xs = n \<Longrightarrow> map (\<lambda>i. xs ! (n - 1 - i)) [0..<n] = rev xs"
  by (rule nth_equalityI) (auto simp: rev_nth)

lemma encodeBase58_run:
  assumes "length adr = 25" and "length output = maxStrLen" and "25 \<le> maxStrLen"
  defines "s \<equiv> base58_text (rev adr)"
  shows "if length s < maxStrLen
    then encodeBase58 adr 25 True output maxStrLen = Some (True, memput output 0 (s @ [0]))
    else \<exists>str. encodeBase58 adr 25 True output maxStrLen = Some (False, str) \<and> length str = maxStrLen"
proof -
  let ?bi = "\<lparr>bn_data = rev adr @ replicate 231 0, bn_len = 25\<rparr>"
  have "BigNumber_new (Some (rev adr)) 25 = Some ?bi"
    using assms(1) by (simp add: BigNumber_new_def slice_def blit_def MAX_BIG_NUMBER_def)
  then have "encodeBase58 adr 25 True output maxStrLen = CBEncodeBase58 ?bi output maxStrLen"
    using assms(1) map_nth_rev [of adr 25] by (simp add: encodeBase58_def)
  then show ?thesis
    using CBEncodeBase58_run [of ?bi "output" maxStrLen] assms by (simp add: bn_wf_def)
qed

lemma decodeBase58_run:
  assumes "CBDecodeBase58 \<lparr>bn_data = replicate 256 0, bn_len = 0\<rparr> string = Some bi"
    and "length (bn_data bi) = 256" and "bn_len bi \<le> 256" and "maxOutputLength \<le> length output"
  shows "decodeBase58 string output maxOutputLength True =
    (if bn_len bi \<le> maxOutputLength
     then Some (bn_len bi, memput output 0 (rev (take (bn_len bi) (bn_data bi)))) else Some (0, output))"
proof -
  have "BigNumber_new None 0 = Some \<lparr>bn_data = replicate 256 0, bn_len = 0\<rparr>"
    by (simp add: BigNumber_new_def MAX_BIG_NUMBER_def)
  with assms show ?thesis
    by (simp add: decodeBase58_def slice_0 blit_memput)
qed

lemma c_str_memput: "0 \<notin> set s \<Longrightarrow> c_str (memput buf 0 (s @ [0])) = s"
  by (simp add: memput_def c_str_append)


lemma base58_roundtrip_run:
  assumes "length adr = 25" and "58 \<le> le_nat (rev adr)" and "length output = 40" and "25 \<le> length buf"
  shows "\<exists>str. encodeBase58 adr 25 True output 40 = Some (True, str) \<and>
    decodeBase58 (c_str str) buf 25 True = Some (25, adr @ drop 25 buf)"
proof -
  let ?s = "base58_text (rev adr)"
  have len: "length ?s \<le> 39" using length_text_25 [of "rev adr"] assms(1) by simp
  then have "encodeBase58 adr 25 True output 40 = Some (True, memput output 0 (?s @ [0]))"
    using encodeBase58_run [OF assms(1,3)] by simp
  moreover have "c_str (memput output 0 (?s @ [0])) = ?s"
    by (intro c_str_memput zero_notin_valid58 valid58_text)
  moreover obtain bi where "CBDecodeBase58 \<lparr>bn_data = replicate 256 0, bn_len = 0\<rparr> ?s = Some bi"
      "length (bn_data bi) = 256" "bn_len bi = 25" "take 25 (bn_data bi) = rev adr"
    using decode_text [OF assms(2)] len assms(1) by auto
  then have "decodeBase58 ?s buf 25 True = Some (25, adr @ drop 25 buf)"
    using decodeBase58_run [of ?s bi 25 buf] assms(1,4) by (simp add: memput_def)
  ultimately show ?thesis by simp
qed


section \<open>Properties\<close>



text \<open>
  C8. Encoding and decoding an address gives the address back: for every 25 bytes whose value is at
  least 58 and a buffer of 40 characters, \<open>encodeBase58\<close> succeeds and \<open>decodeBase58\<close> of the string
  it wrote returns 25 and the same 25 bytes.
\<close>

theorem base58_roundtrip:
  assumes "length adr = 25" and "58 \<le> le_nat (rev adr)" and "length output = 40" and "25 \<le> length buf"
  shows "\<exists>str. encodeBase58 adr 25 True output 40 = Some (True, str) \<and>
    decodeBase58 (c_str str) buf 25 True = Some (25, adr @ drop 25 buf)"
  using assms by (rule base58_roundtrip_run)

theorem base58_roundtrip_witness:
  "\<exists>str. encodeBase58 (0 # replicate 24 7) 25 True (replicate 40 0) 40 = Some (True, str) \<and>
    decodeBase58 (c_str str) (replicate 30 1) 25 True = Some (25, (0 # replicate 24 7) @ drop 25 (replicate 30 1))"
  by (rule base58_roundtrip) (simp_all add: replicate_eval)



end
