(* ===== verification/Bitcoin_Address.thy ===== *)
theory Bitcoin_Address
  imports Sha256 Ripemd160 Base58
begin

text \<open>
  The namespace \<open>BLOCKCHAIN_BITCOIN_ADDRESS\<close> of \<open>hash.h\<close> (lines 1355 to 1443): addresses from public
  keys and from RIPEMD-160 values, and their text. An address has 25 bytes: the network byte 0,
  the 20 bytes of the hash, and the first 4 bytes of the double SHA-256 of these 21 bytes. The array
  parameters have the sizes that the declarations give (65, 25 and 20 bytes).
\<close>

section \<open>The code\<close>

definition bitcoinPublicKeyToAddress :: "bytes \<Rightarrow> bytes \<Rightarrow> bool \<times> bytes" where
  "bitcoinPublicKeyToAddress input output =
    (if input ! 0 = 0x04 then
       let hash1 = computeSHA256 (take 65 input);
           output = output[0 := 0];
           output = memput output 1 (computeRIPEMD160 hash1);
           hash1 = computeSHA256 (take 21 output);
           hash1 = computeSHA256 hash1;
           output = output[21 := hash1 ! 0];
           output = output[22 := hash1 ! 1];
           output = output[23 := hash1 ! 2];
           output = output[24 := hash1 ! 3]
       in (True, output)
     else (False, output))"

definition bitcoinPublicKeyToAscii :: "bytes \<Rightarrow> bytes \<Rightarrow> nat \<Rightarrow> (bool \<times> bytes) option" where
  "bitcoinPublicKeyToAscii input output maxOutputLen = do {
     output \<leftarrow> put output 0 0;
     let (ok, hash2) = bitcoinPublicKeyToAddress input (replicate 25 0);
     if ok then encodeBase58 hash2 25 True output maxOutputLen else Some (False, output)
   }"

definition bitcoinAsciiToAddress :: "bytes \<Rightarrow> bytes \<Rightarrow> (bool \<times> bytes) option" where
  "bitcoinAsciiToAddress input output = do {
     (len, output) \<leftarrow> decodeBase58 input output 25 True;
     if len = 25
     then let checksum = computeSHA256 (take 21 output);
              checksum = computeSHA256 checksum
          in Some (output ! 21 = checksum ! 0 \<or> output ! 22 = checksum ! 1 \<or>
                   output ! 23 = checksum ! 2 \<or> output ! 24 = checksum ! 3, output)
     else Some (False, output)
   }"

definition bitcoinRIPEMD160ToAddress :: "bytes \<Rightarrow> bytes \<Rightarrow> bytes" where
  "bitcoinRIPEMD160ToAddress ripeMD160 output =
    (let output = output[0 := 0];
         output = memput output 1 (take 20 ripeMD160);
         hash1 = computeSHA256 (take 21 output);
         hash1 = computeSHA256 hash1;
         output = output[21 := hash1 ! 0];
         output = output[22 := hash1 ! 1];
         output = output[23 := hash1 ! 2];
         output = output[24 := hash1 ! 3]
     in output)"

definition bitcoinAddressToAscii :: "bytes \<Rightarrow> bytes \<Rightarrow> nat \<Rightarrow> (bool \<times> bytes) option" where
  "bitcoinAddressToAscii address output maxOutputLen = encodeBase58 address 25 True output maxOutputLen"


section \<open>Addresses\<close>

definition checksum :: "bytes \<Rightarrow> bytes" where
  "checksum bs = take 4 (sha256 (sha256 bs))"

definition address_of :: "bytes \<Rightarrow> bytes" where
  "address_of r = 0 # r @ checksum (0 # r)"

lemma length_sha256 [simp]: "length (sha256 m) = 32"
  by (simp add: sha256_def sha.digest_length)

lemma length_ripemd160 [simp]: "length (ripemd160 m) = 20"
  by (simp add: ripemd160_def rmd.digest_length)

lemma length_checksum [simp]: "length (checksum bs) = 4"
  by (simp add: checksum_def)

lemma length_address_of [simp]: "length (address_of r) = length r + 5"
  by (simp add: address_of_def)

lemma store_checksum:
  assumes "length output = 25"
  shows "output[21 := h ! 0, 22 := h ! 1, 23 := h ! 2, 24 := h ! 3] = take 21 output @ [h ! 0, h ! 1, h ! 2, h ! 3]"
proof -
  have "length (drop 21 output) = 4" using assms by simp
  then obtain a b c d where "drop 21 output = [a, b, c, d]"
    by (rule list_of_length_4)
  moreover define p where "p = take 21 output"
  ultimately have "output = p @ [a, b, c, d]" and "length p = 21"
    using append_take_drop_id [of 21 "output"] assms by simp_all
  then show ?thesis
    by (simp add: list_update_append)
qed

lemma first_four: "4 \<le> length h \<Longrightarrow> [h ! 0, h ! 1, h ! 2, h ! 3] = take 4 h"
  by (rule nth_equalityI) (auto simp: less_Suc_eq numeral_eq_Suc)

lemma computeSHA256_twice:
  "length m < 2 ^ 32 \<Longrightarrow> computeSHA256 (computeSHA256 m) = sha256 (sha256 m)"
  by (simp add: computeSHA256_sha256)

text \<open>The common part of the two functions that build an address.\<close>

lemma build_address:
  assumes "length output = 25" and "length r = 20"
  shows "(let output = output[0 := 0];
         output = memput output 1 r;
         hash1 = computeSHA256 (take 21 output);
         hash1 = computeSHA256 hash1;
         output = output[21 := hash1 ! 0];
         output = output[22 := hash1 ! 1];
         output = output[23 := hash1 ! 2];
         output = output[24 := hash1 ! 3]
     in output) = address_of r"
proof -
  let ?o = "memput (output[0 := 0]) 1 r"
  obtain x xs where "output = x # xs" using assms(1) by (cases "output") auto
  then have take: "take 21 ?o = 0 # r" and len: "length ?o = 25"
    using assms by (simp_all add: memput_def)
  let ?h = "computeSHA256 (computeSHA256 (0 # r))"
  have h: "[?h ! 0, ?h ! 1, ?h ! 2, ?h ! 3] = checksum (0 # r)"
    using assms(2) by (subst first_four) (simp_all add: computeSHA256_twice checksum_def)
  show ?thesis
    unfolding Let_def take store_checksum [OF len] h by (simp add: address_of_def)
qed

lemma bitcoinRIPEMD160ToAddress_run:
  "length output = 25 \<Longrightarrow> length r = 20 \<Longrightarrow> bitcoinRIPEMD160ToAddress r output = address_of r"
  using build_address [of "output" r] by (simp add: bitcoinRIPEMD160ToAddress_def)

lemma bitcoinPublicKeyToAddress_run:
  assumes "length input = 65" and "length output = 25"
  shows "bitcoinPublicKeyToAddress input output =
    (if input ! 0 = 4 then (True, address_of (ripemd160 (sha256 input))) else (False, output))"
proof -
  have "computeRIPEMD160 (computeSHA256 input) = ripemd160 (sha256 input)"
    using assms(1) by (simp add: computeSHA256_sha256 computeRIPEMD160_ripemd160)
  then show ?thesis
    using assms build_address [OF assms(2), of "ripemd160 (sha256 input)"]
    by (simp add: bitcoinPublicKeyToAddress_def Let_def)
qed

lemma le_nat_pos: "\<exists>b \<in> set bs. b \<noteq> 0 \<Longrightarrow> 0 < le_nat bs"
  by (induction bs) (auto simp: unat_gt_0)

lemma address_value:
  assumes "\<exists>b \<in> set r. b \<noteq> 0" and "length c = 4"
  shows "58 \<le> le_nat (rev (0 # r @ c))"
proof -
  have "0 < le_nat (rev r)"
    using assms(1) by (intro le_nat_pos) simp
  then show ?thesis
    using assms(2) by (simp add: le_nat_append)
qed

text \<open>The decoder and the test of the checksum on the text of any 25 bytes.\<close>

lemma bitcoinAsciiToAddress_text:
  assumes "length adr = 25" and "58 \<le> le_nat (rev adr)" and "length output = 40" and "length buf = 25"
  shows "\<exists>str. bitcoinAddressToAscii adr output 40 = Some (True, str) \<and>
    bitcoinAsciiToAddress (c_str str) buf =
      Some (\<exists>i < 4. adr ! (21 + i) = checksum (take 21 adr) ! i, adr)"
proof -
  obtain str where str: "encodeBase58 adr 25 True output 40 = Some (True, str)"
      "decodeBase58 (c_str str) buf 25 True = Some (25, adr)"
    using base58_roundtrip_run [OF assms(1-3), of buf] assms(4) by auto
  have "(\<exists>i < 4. adr ! (21 + i) = checksum (take 21 adr) ! i) \<longleftrightarrow>
      adr ! 21 = checksum (take 21 adr) ! 0 \<or> adr ! 22 = checksum (take 21 adr) ! 1 \<or>
      adr ! 23 = checksum (take 21 adr) ! 2 \<or> adr ! 24 = checksum (take 21 adr) ! 3"
    by (auto simp: numeral_eq_Suc less_Suc_eq)
  moreover have "checksum (take 21 adr) ! i = computeSHA256 (computeSHA256 (take 21 adr)) ! i" if "i < 4" for i
    using that assms(1) by (simp add: computeSHA256_twice checksum_def)
  ultimately show ?thesis
    using str by (intro exI [of _ str]) (simp add: bitcoinAddressToAscii_def bitcoinAsciiToAddress_def Let_def)
qed


section \<open>Properties\<close>

text \<open>
  C13. \<open>bitcoinPublicKeyToAddress\<close> and \<open>bitcoinRIPEMD160ToAddress\<close> build the address of the Bitcoin
  protocol in every byte, whatever the output array held: the network byte 0, the RIPEMD-160 of
  the SHA-256 of the key, and the first 4 bytes of the double SHA-256 of both. A key that does not
  start with 4 is refused and the output is left alone.
\<close>

theorem bitcoin_address_correct:
  assumes "length input = 65" and "length output = 25" and "length r = 20"
  shows "bitcoinPublicKeyToAddress input output =
      (if input ! 0 = 4
       then (True, 0 # ripemd160 (sha256 input) @ take 4 (sha256 (sha256 (0 # ripemd160 (sha256 input)))))
       else (False, output)) \<and>
    bitcoinRIPEMD160ToAddress r output = 0 # r @ take 4 (sha256 (sha256 (0 # r)))"
  using bitcoinPublicKeyToAddress_run [OF assms(1,2)] bitcoinRIPEMD160ToAddress_run [OF assms(2,3)]
  by (simp add: address_of_def checksum_def)

theorem bitcoin_address_correct_witness:
  "bitcoinPublicKeyToAddress (4 # replicate 64 9) (replicate 25 1) =
      (True, 0 # ripemd160 (sha256 (4 # replicate 64 9)) @
        take 4 (sha256 (sha256 (0 # ripemd160 (sha256 (4 # replicate 64 9)))))) \<and>
    bitcoinRIPEMD160ToAddress (replicate 20 3) (replicate 25 1) =
      0 # replicate 20 3 @ take 4 (sha256 (sha256 (0 # replicate 20 3)))"
  using bitcoin_address_correct [of "4 # replicate 64 9" "replicate 25 1" "replicate 20 3"] by simp

text \<open>
  C14. The address of every hash that is not zero survives the way through its text: a buffer of 40
  characters holds the text, \<open>bitcoinAsciiToAddress\<close> accepts it and returns the 25 bytes.
\<close>

theorem bitcoin_address_roundtrip:
  assumes "length r = 20" and "\<exists>b \<in> set r. b \<noteq> 0" and "length adr = 25" and "length output = 40"
    and "length buf = 25"
  shows "\<exists>str. bitcoinAddressToAscii (bitcoinRIPEMD160ToAddress r adr) output 40 = Some (True, str) \<and>
    bitcoinAsciiToAddress (c_str str) buf = Some (True, bitcoinRIPEMD160ToAddress r adr)"
proof -
  have "58 \<le> le_nat (rev (address_of r))"
    unfolding address_of_def by (rule address_value [OF assms(2)]) simp
  moreover have "\<exists>i < 4. address_of r ! (21 + i) = checksum (take 21 (address_of r)) ! i"
    using assms(1) by (intro exI [of _ 0]) (simp add: address_of_def nth_append)
  ultimately show ?thesis
    using bitcoinAsciiToAddress_text [of "address_of r" "output" buf] assms
    by (auto simp: bitcoinRIPEMD160ToAddress_run)
qed

theorem bitcoin_address_roundtrip_witness:
  "\<exists>str. bitcoinAddressToAscii (bitcoinRIPEMD160ToAddress (replicate 20 3) (replicate 25 0)) (replicate 40 0) 40
      = Some (True, str) \<and>
    bitcoinAsciiToAddress (c_str str) (replicate 25 1) = Some (True, bitcoinRIPEMD160ToAddress (replicate 20 3) (replicate 25 0))"
  by (rule bitcoin_address_roundtrip) simp_all

text \<open>
  C20. \<open>bitcoinAsciiToAddress\<close> joins the four comparisons of the checksum by ``or'': it accepts
  the text of 25 bytes as soon as one of the four bytes of the checksum is right. Any three of
  them can be changed in the address of a hash and the text is still accepted.
\<close>

theorem bitcoinAsciiToAddress_weak_checksum:
  assumes "length r = 20" and "\<exists>b \<in> set r. b \<noteq> 0" and "length c = 4"
    and "\<exists>i < 4. c ! i = checksum (0 # r) ! i" and "length output = 40" and "length buf = 25"
  shows "\<exists>str. bitcoinAddressToAscii (0 # r @ c) output 40 = Some (True, str) \<and>
    bitcoinAsciiToAddress (c_str str) buf = Some (True, 0 # r @ c)"
proof -
  have "58 \<le> le_nat (rev (0 # r @ c))"
    using assms(2,3) by (rule address_value)
  moreover have "(0 # r @ c) ! (21 + i) = c ! i" for i
    using assms(1) by (simp add: nth_append)
  ultimately show ?thesis
    using bitcoinAsciiToAddress_text [of "0 # r @ c" "output" buf] assms by simp
qed

theorem bitcoinAsciiToAddress_weak_checksum_witness:
  "\<exists>str. bitcoinAddressToAscii (0 # replicate 20 3 @ (checksum (0 # replicate 20 3))[0 := 1, 1 := 2, 2 := 3])
      (replicate 40 0) 40 = Some (True, str) \<and>
    bitcoinAsciiToAddress (c_str str) (replicate 25 1) =
      Some (True, 0 # replicate 20 3 @ (checksum (0 # replicate 20 3))[0 := 1, 1 := 2, 2 := 3])"
  by (rule bitcoinAsciiToAddress_weak_checksum) (auto intro: exI [of _ 3])

end
