(* ===== verification/Block_Format.thy ===== *)
theory Block_Format
  imports Bitcoin_Address
begin

text \<open>
  The header \<open>block.h\<close>: the structures of a block and of a transaction, the readers of the
  transaction section, the double SHA-256, and \<open>outAddress\<close>, which finds the 20-byte address in an
  output script. The loops of \<open>unzipBlocks.h\<close> (lines 122 to 223) that read the block header and the
  transactions with these readers are modelled here as well.

  A reader takes the transaction section and the position in it and returns the value and the new
  position; \<open>None\<close> is a \<open>memcpy\<close> outside the section. Positions are natural numbers: the section is
  shorter than \<open>2 ^ 31\<close> bytes, the range of the \<open>int\<close> of the code.
\<close>

section \<open>Script opcodes\<close>

definition ScriptOpcodes :: "(string \<times> unit8) list" where
  "ScriptOpcodes =
    [(''OP_0'', 0), (''OP_PUSHDATA1'', 76), (''OP_PUSHDATA2'', 77), (''OP_PUSHDATA4'', 78),
     (''OP_1NEGATE'', 79), (''OP_RESERVED'', 80), (''OP_1'', 81), (''OP_2'', 82),
     (''OP_3'', 83), (''OP_4'', 84), (''OP_5'', 85), (''OP_6'', 86),
     (''OP_7'', 87), (''OP_8'', 88), (''OP_9'', 89), (''OP_10'', 90),
     (''OP_11'', 91), (''OP_12'', 92), (''OP_13'', 93), (''OP_14'', 94),
     (''OP_15'', 95), (''OP_16'', 96), (''OP_NOP'', 97), (''OP_VER'', 98),
     (''OP_IF'', 99), (''OP_NOTIF'', 100), (''OP_VERIF'', 101), (''OP_VERNOTIF'', 102),
     (''OP_ELSE'', 103), (''OP_ENDIF'', 104), (''OP_VERIFY'', 105), (''OP_RETURN'', 106),
     (''OP_TOALTSTACK'', 107), (''OP_FROMALTSTACK'', 108), (''OP_2DROP'', 109), (''OP_2DUP'', 110),
     (''OP_3DUP'', 111), (''OP_2OVER'', 112), (''OP_2ROT'', 113), (''OP_2SWAP'', 114),
     (''OP_IFDUP'', 115), (''OP_DEPTH'', 116), (''OP_DROP'', 117), (''OP_DUP'', 118),
     (''OP_NIP'', 119), (''OP_OVER'', 120), (''OP_PICK'', 121), (''OP_ROLL'', 122),
     (''OP_ROT'', 123), (''OP_SWAP'', 124), (''OP_TUCK'', 125), (''OP_CAT'', 126),
     (''OP_SUBSTR'', 127), (''OP_LEFT'', 128), (''OP_RIGHT'', 129), (''OP_SIZE'', 130),
     (''OP_INVERT'', 131), (''OP_AND'', 132), (''OP_OR'', 133), (''OP_XOR'', 134),
     (''OP_EQUAL'', 135), (''OP_EQUALVERIFY'', 136), (''OP_RESERVED1'', 137), (''OP_RESERVED2'', 138),
     (''OP_1ADD'', 139), (''OP_1SUB'', 140), (''OP_2MUL'', 141), (''OP_2DIV'', 142),
     (''OP_NEGATE'', 143), (''OP_ABS'', 144), (''OP_NOT'', 145), (''OP_0NOTEQUAL'', 146),
     (''OP_ADD'', 147), (''OP_SUB'', 148), (''OP_MUL'', 149), (''OP_DIV'', 150),
     (''OP_MOD'', 151), (''OP_LSHIFT'', 152), (''OP_RSHIFT'', 153), (''OP_BOOLAND'', 154),
     (''OP_BOOLOR'', 155), (''OP_NUMEQUAL'', 156), (''OP_NUMEQUALVERIFY'', 157), (''OP_NUMNOTEQUAL'', 158),
     (''OP_LESSTHAN'', 159), (''OP_GREATERTHAN'', 160), (''OP_LESSTHANOREQUAL'', 161), (''OP_GREATERTHANOREQUAL'', 162),
     (''OP_MIN'', 163), (''OP_MAX'', 164), (''OP_WITHIN'', 165), (''OP_RIPEMD160'', 166),
     (''OP_SHA1'', 167), (''OP_SHA256'', 168), (''OP_HASH160'', 169), (''OP_HASH256'', 170),
     (''OP_CODESEPARATOR'', 171), (''OP_CHECKSIG'', 172), (''OP_CHECKSIGVERIFY'', 173), (''OP_CHECKMULTISIG'', 174),
     (''OP_CHECKMULTISIGVERIFY'', 175), (''OP_NOP1'', 176), (''OP_NOP2'', 177), (''OP_NOP3'', 178),
     (''OP_NOP4'', 179), (''OP_NOP5'', 180), (''OP_NOP6'', 181), (''OP_NOP7'', 182),
     (''OP_NOP8'', 183), (''OP_NOP9'', 184), (''OP_NOP10'', 185), (''OP_SMALLINTEGER'', 250),
     (''OP_PUBKEYS'', 251), (''OP_PUBKEYHASH'', 253), (''OP_PUBKEY'', 254), (''OP_INVALIDOPCODE'', 255)]"

definition OP :: "string \<Rightarrow> unit8" where
  "OP name = the (map_of ScriptOpcodes name)"

lemma OP_codes [simp]:
  "OP ''OP_DUP'' = 0x76" "OP ''OP_HASH160'' = 0xa9" "OP ''OP_CHECKSIG'' = 0xac"
  "OP ''OP_EQUALVERIFY'' = 0x88" "OP ''OP_NOP2'' = 0xb1" "OP ''OP_DROP'' = 0x75"
  "OP ''OP_RETURN'' = 0x6a" "OP ''OP_1'' = 0x51" "OP ''OP_2'' = 0x52" "OP ''OP_3'' = 0x53"
  "OP ''OP_CHECKMULTISIG'' = 0xae" "OP ''OP_EQUAL'' = 0x87" "OP ''OP_NOP'' = 0x61"
  by code_simp+


section \<open>Structures\<close>

text \<open>
  The fields that no code of the repository writes or reads are left out: \<open>Txin::address\<close>,
  \<open>Block::trans\<close> (its \<open>push_back\<close> is commented out) and \<open>Block::warning\<close>.
\<close>

record Txin =
  in_hash :: bytes
  in_index :: unit32
  in_script_length :: unit32
  in_script :: bytes
  in_seq :: unit32

record Txout =
  out_val :: unit64
  out_script_length :: unit32
  out_script :: bytes
  out_address :: bytes

record Transaction =
  tx_ver :: unit32
  tx_in_count :: unit32
  tx_ins :: "Txin list"
  tx_out_count :: unit32
  tx_outs :: "Txout list"
  tx_lock_time :: unit32
  tx_blocknumber :: unit32
  tx_txnumber :: unit16
  tx_txcounter :: unit32
  tx_length :: unit32
  tx_txtime :: unit32
  tx_curhash :: bytes

record Blkheader =
  hd_magic :: unit32
  hd_Blocksize :: unit32
  hd_Version :: unit32
  hd_preBlockHash :: bytes
  hd_merkRoot :: bytes
  hd_timeStamp :: unit32
  hd_bits :: unit32
  hd_nonce :: unit32

record Block =
  blk_Head :: Blkheader
  blk_trans_count :: unit32
  blk_curhash :: bytes
  blk_blocknumber :: unit32
  blk_blockReward :: unit64


section \<open>Readers\<close>

type_synonym 'a reader = "bytes \<Rightarrow> nat \<Rightarrow> ('a \<times> nat) option"

definition readU8 :: "unit8 reader" where
  "readU8 transSec transPos = do { bs \<leftarrow> slice transSec transPos 1; Some (le_word bs, transPos + 1) }"

definition readU16 :: "unit16 reader" where
  "readU16 transSec transPos = do { bs \<leftarrow> slice transSec transPos 2; Some (le_word bs, transPos + 2) }"

definition readU32 :: "unit32 reader" where
  "readU32 transSec transPos = do { bs \<leftarrow> slice transSec transPos 4; Some (le_word bs, transPos + 4) }"

definition readU64 :: "unit64 reader" where
  "readU64 transSec transPos = do { bs \<leftarrow> slice transSec transPos 8; Some (le_word bs, transPos + 8) }"

definition readHash :: "bytes reader" where
  "readHash transSec transPos = do { bs \<leftarrow> slice transSec transPos 32; Some (bs, transPos + 32) }"

definition readVarLen :: "unit32 reader" where
  "readVarLen transSec transPos = do {
     (v, transPos) \<leftarrow> readU8 transSec transPos;
     if v < 0xfd then Some (ucast v, transPos)
     else if v = 0xfd then do {
       (w, transPos) \<leftarrow> readU16 transSec transPos;
       Some (ucast w, transPos)
     }
     else if v = 0xfe then readU32 transSec transPos
     else Some (0, transPos)
   }"

definition readBufferAdvance :: "unit32 \<Rightarrow> bytes reader" where
  "readBufferAdvance readLength transSec transPos = do {
     bs \<leftarrow> slice transSec transPos (unat readLength);
     Some (bs, transPos + unat readLength)
   }"

definition twiceSHA256 :: "bytes \<Rightarrow> bytes" where
  "twiceSHA256 input = computeSHA256 (computeSHA256 input)"


section \<open>The address of an output script\<close>

text \<open>
  \<open>outAddress\<close> returns whether it could decode the script, and the 20 bytes of the address, which
  every branch writes completely. The loop that looks for the pattern of a payment to a key hash in
  the middle of a script is \<open>scan_pattern\<close>, from the position \<open>i\<close> on.
\<close>

definition pattern_at :: "bytes \<Rightarrow> nat \<Rightarrow> bool" where
  "pattern_at Script i \<longleftrightarrow>
     Script ! i = OP ''OP_DUP'' \<and> Script ! (i + 1) = OP ''OP_HASH160'' \<and> Script ! (i + 2) = 20 \<and>
     Script ! (i + 23) = OP ''OP_EQUALVERIFY'' \<and> Script ! (i + 24) = OP ''OP_CHECKSIG''"

function scan_pattern :: "bytes \<Rightarrow> nat \<Rightarrow> nat \<Rightarrow> nat option" where
  "scan_pattern Script endIndex i =
    (if i < endIndex
     then if pattern_at Script i then Some i else scan_pattern Script endIndex (i + 1)
     else None)"
  by pat_completeness auto
termination
  by (relation "measure (\<lambda>(Script, endIndex, i). endIndex - i)") auto

declare scan_pattern.simps [simp del]

definition outAddress :: "bytes \<Rightarrow> bool \<times> bytes" where
  "outAddress Script =
    (let ScriptLength = length Script;
         key_address = (\<lambda>publicKey. take 20 (drop 1 (snd (bitcoinPublicKeyToAddress publicKey (replicate 25 0)))))
     in if ScriptLength = 67 \<and> Script ! 0 = 65 \<and> Script ! 66 = OP ''OP_CHECKSIG''
        then (True, key_address (take 65 (drop 1 Script)))
        else if ScriptLength = 66 \<and> Script ! 65 = OP ''OP_CHECKSIG''
        then (True, key_address (take 65 Script))
        else if ScriptLength \<ge> 25 \<and> Script ! 0 = OP ''OP_DUP'' \<and> Script ! 1 = OP ''OP_HASH160'' \<and> Script ! 2 = 20
        then (True, take 20 (drop 3 Script))
        else if ScriptLength = 23 \<and> Script ! 0 = OP ''OP_HASH160'' \<and> Script ! 1 = 20
        then (True, take 20 (drop 2 Script))
        else if ScriptLength = 23 \<and> Script ! 0 = 20 \<and> Script ! 21 = OP ''OP_NOP2'' \<and> Script ! 22 = OP ''OP_DROP''
        then (True, take 20 (drop 1 Script))
        else if ScriptLength = 35 \<and> Script ! 0 = 33 \<and> Script ! 34 = OP ''OP_CHECKSIG''
        then (True, computeRIPEMD160 (take 33 (drop 1 Script)))
        else if ScriptLength = 33 \<and> Script ! 0 = 32
        then (True, computeRIPEMD160 (take 32 (drop 1 Script)))
        else if ScriptLength = 37 \<and> Script ! 0 = 36
        then (True, computeRIPEMD160 (take 36 (drop 1 Script)))
        else if ScriptLength = 22 \<and> Script ! 0 = OP ''OP_RETURN'' \<and> Script ! 1 = 20
        then (True, take 20 (drop 2 Script))
        else if ScriptLength > 35 \<and> (Script ! 0 = OP ''OP_1'' \<or> Script ! 0 = OP ''OP_2'' \<or> Script ! 0 = OP ''OP_3'') \<and>
          Script ! (ScriptLength - 1) = OP ''OP_CHECKMULTISIG''
        then (True, computeRIPEMD160 Script)
        else if ScriptLength < 20
        then (True, replicate 20 49)
        else if ScriptLength > 25
        then case scan_pattern Script (ScriptLength - 25) 0 of
               Some i \<Rightarrow> (True, take 20 (drop (i + 3) Script))
             | None \<Rightarrow> (False, computeRIPEMD160 Script)
        else (False, computeRIPEMD160 Script))"


section \<open>Headers and transactions\<close>

text \<open>\<open>memcpy(&curBlock.Head, blockStart, 88)\<close>: the fields of \<open>Blkheader\<close> have no gaps.\<close>

definition read_header :: "bytes \<Rightarrow> Blkheader" where
  "read_header blockStart = \<lparr>
     hd_magic = le_word (take 4 blockStart),
     hd_Blocksize = le_word (take 4 (drop 4 blockStart)),
     hd_Version = le_word (take 4 (drop 8 blockStart)),
     hd_preBlockHash = take 32 (drop 12 blockStart),
     hd_merkRoot = take 32 (drop 44 blockStart),
     hd_timeStamp = le_word (take 4 (drop 76 blockStart)),
     hd_bits = le_word (take 4 (drop 80 blockStart)),
     hd_nonce = le_word (take 4 (drop 84 blockStart))\<rparr>"

definition read_txin :: "Txin reader" where
  "read_txin transSec transPos = do {
     (hash, transPos) \<leftarrow> readHash transSec transPos;
     (index, transPos) \<leftarrow> readU32 transSec transPos;
     (script_length, transPos) \<leftarrow> readVarLen transSec transPos;
     (script, transPos) \<leftarrow> readBufferAdvance script_length transSec transPos;
     (seq, transPos) \<leftarrow> readU32 transSec transPos;
     Some (\<lparr>in_hash = hash, in_index = index, in_script_length = script_length, in_script = script,
            in_seq = seq\<rparr>, transPos)
   }"

definition read_txout :: "Txout reader" where
  "read_txout transSec transPos = do {
     (val, transPos) \<leftarrow> readU64 transSec transPos;
     (script_length, transPos) \<leftarrow> readVarLen transSec transPos;
     (script, transPos) \<leftarrow> readBufferAdvance script_length transSec transPos;
     Some (\<lparr>out_val = val, out_script_length = script_length, out_script = script,
            out_address = snd (outAddress script)\<rparr>, transPos)
   }"

primrec read_many :: "'a reader \<Rightarrow> nat \<Rightarrow> 'a list reader" where
  "read_many r 0 transSec transPos = Some ([], transPos)"
| "read_many r (Suc n) transSec transPos = do {
     (x, transPos) \<leftarrow> r transSec transPos;
     (xs, transPos) \<leftarrow> read_many r n transSec transPos;
     Some (x # xs, transPos)
   }"

definition read_tx :: "unit32 \<Rightarrow> unit16 \<Rightarrow> unit32 \<Rightarrow> unit32 \<Rightarrow> Transaction reader" where
  "read_tx blocknumber txNum txcounter timeStamp transSec tx_start = do {
     (ver, transPos) \<leftarrow> readU32 transSec tx_start;
     (in_count, transPos) \<leftarrow> readVarLen transSec transPos;
     (ins, transPos) \<leftarrow> read_many read_txin (unat in_count) transSec transPos;
     (out_count, transPos) \<leftarrow> readVarLen transSec transPos;
     (outs, transPos) \<leftarrow> read_many read_txout (unat out_count) transSec transPos;
     (lock_time, tx_end) \<leftarrow> readU32 transSec transPos;
     Some (\<lparr>tx_ver = ver, tx_in_count = in_count, tx_ins = ins, tx_out_count = out_count, tx_outs = outs,
            tx_lock_time = lock_time, tx_blocknumber = blocknumber, tx_txnumber = txNum,
            tx_txcounter = txcounter, tx_length = word_of_nat (tx_end - tx_start),
            tx_txtime = timeStamp,
            tx_curhash = twiceSHA256 (take (tx_end - tx_start) (drop tx_start transSec))\<rparr>, tx_end)
   }"


section \<open>Encodings and their readers\<close>

text \<open>
  The contract between an encoding and its reader: wherever the encoding of a value stands in the
  section, the reader returns the value and the position behind it. Sequences and unique
  readability follow from it once for all.
\<close>

locale codec =
  fixes ser :: "'a \<Rightarrow> bytes"
    and rd :: "'a reader"
    and wf :: "'a \<Rightarrow> bool"
  assumes reads: "wf x \<Longrightarrow> rd (pre @ ser x @ post) (length pre) = Some (x, length pre + length (ser x))"
begin

lemma reads_many:
  "list_all wf xs \<Longrightarrow>
     read_many rd (length xs) (pre @ concat (map ser xs) @ post) (length pre) =
       Some (xs, length pre + length (concat (map ser xs)))"
proof (induction xs arbitrary: pre)
  case (Cons x xs)
  have "rd (pre @ ser x @ (concat (map ser xs) @ post)) (length pre) = Some (x, length pre + length (ser x))"
    using Cons.prems by (intro reads) simp
  moreover have "read_many rd (length xs) ((pre @ ser x) @ concat (map ser xs) @ post) (length (pre @ ser x)) =
      Some (xs, length (pre @ ser x) + length (concat (map ser xs)))"
    using Cons by (intro Cons.IH) simp
  ultimately show ?case by simp
qed simp

lemma unique_reading:
  assumes "wf x" and "wf y" and "ser x @ p = ser y @ q"
  shows "x = y \<and> p = q"
proof -
  have "Some (x, length (ser x)) = Some (y, length (ser y))"
    using reads [OF assms(1), of "[]" p] reads [OF assms(2), of "[]" q] assms(3) by simp
  with assms(3) show ?thesis by simp
qed

end

lemma slice_middle: "n = length s \<Longrightarrow> slice (pre @ s @ post) (length pre) n = Some s"
  by (simp add: slice_def)

interpretation u8: codec "le_bytes 1" readU8 "\<lambda>_. True"
  by unfold_locales (simp add: readU8_def slice_middle le_word_le_bytes)

interpretation u16: codec "le_bytes 2" readU16 "\<lambda>_. True"
  by unfold_locales (simp add: readU16_def slice_middle le_word_le_bytes)

interpretation u32: codec "le_bytes 4" readU32 "\<lambda>_. True"
  by unfold_locales (simp add: readU32_def slice_middle le_word_le_bytes)

interpretation u64: codec "le_bytes 8" readU64 "\<lambda>_. True"
  by unfold_locales (simp add: readU64_def slice_middle le_word_le_bytes)

interpretation hash32: codec "\<lambda>h. h" readHash "\<lambda>h. length h = 32"
  by unfold_locales (simp add: readHash_def slice_middle)

text \<open>The variable length integers of the protocol that fit into 32 bits.\<close>

definition ser_varlen :: "unit32 \<Rightarrow> bytes" where
  "ser_varlen n =
    (if n < 0xfd then [ucast n]
     else if n \<le> 0xffff then 0xfd # le_bytes 2 (ucast n :: unit16)
     else 0xfe # le_bytes 4 n)"

lemma ucast_16_32: "n \<le> 0xffff \<Longrightarrow> ucast (ucast (n :: unit32) :: unit16) = n"
  by (simp add: word_unat_eq_iff unat_ucast_mod word_le_nat_alt)

lemma ucast_8_32: "n < 0xfd \<Longrightarrow> ucast (ucast (n :: unit32) :: unit8) = n \<and> (ucast n :: unit8) < 0xfd"
  by (simp add: word_unat_eq_iff unat_ucast_mod word_less_nat_alt)

lemma le_bytes_1: "le_bytes (Suc 0) (b :: unit8) = [b]"
  by (simp add: le_bytes_def)

interpretation varlen: codec ser_varlen readVarLen "\<lambda>_. True"
proof
  fix n :: unit32 and pre post :: bytes
  have byte: "readU8 (pre @ b # s @ post) (length pre) = Some (b, length pre + 1)" for b s
    using u8.reads [of pre b "s @ post"] by (simp add: le_bytes_1)
  consider "n < 0xfd" | "\<not> n < 0xfd" "n \<le> 0xffff" | "\<not> n \<le> 0xffff" by blast
  then show "readVarLen (pre @ ser_varlen n @ post) (length pre) = Some (n, length pre + length (ser_varlen n))"
  proof cases
    case 1
    then show ?thesis
      using byte [of "ucast n" "[]"] ucast_8_32 [OF 1] by (simp add: readVarLen_def ser_varlen_def)
  next
    case 2
    then show ?thesis
      using byte [of "0xfd" "le_bytes 2 (ucast n :: unit16)"] u16.reads [of "pre @ [0xfd]" "ucast n" post]
      by (simp add: readVarLen_def ser_varlen_def ucast_16_32)
  next
    case 3
    then have "\<not> n < 0xfd" by (auto simp: word_le_nat_alt word_less_nat_alt)
    with 3 show ?thesis
      using byte [of "0xfe" "le_bytes 4 n"] u32.reads [of "pre @ [0xfe]" n post]
      by (simp add: readVarLen_def ser_varlen_def)
  qed
qed

text \<open>The encodings of inputs, outputs and transactions in the Bitcoin protocol.\<close>

definition ser_txin :: "Txin \<Rightarrow> bytes" where
  "ser_txin i = in_hash i @ le_bytes 4 (in_index i) @ ser_varlen (in_script_length i) @ in_script i @
     le_bytes 4 (in_seq i)"

definition wf_txin :: "Txin \<Rightarrow> bool" where
  "wf_txin i \<longleftrightarrow> length (in_hash i) = 32 \<and> unat (in_script_length i) = length (in_script i)"

definition ser_txout :: "Txout \<Rightarrow> bytes" where
  "ser_txout t = le_bytes 8 (out_val t) @ ser_varlen (out_script_length t) @ out_script t"

definition wf_txout :: "Txout \<Rightarrow> bool" where
  "wf_txout t \<longleftrightarrow> unat (out_script_length t) = length (out_script t) \<and>
     out_address t = snd (outAddress (out_script t))"

definition ser_tx :: "Transaction \<Rightarrow> bytes" where
  "ser_tx tx = le_bytes 4 (tx_ver tx) @ ser_varlen (tx_in_count tx) @ concat (map ser_txin (tx_ins tx)) @
     ser_varlen (tx_out_count tx) @ concat (map ser_txout (tx_outs tx)) @ le_bytes 4 (tx_lock_time tx)"

definition wf_tx :: "Transaction \<Rightarrow> bool" where
  "wf_tx tx \<longleftrightarrow> unat (tx_in_count tx) = length (tx_ins tx) \<and> unat (tx_out_count tx) = length (tx_outs tx) \<and>
     list_all wf_txin (tx_ins tx) \<and> list_all wf_txout (tx_outs tx)"

lemma readBuffer_middle:
  "unat n = length s \<Longrightarrow> readBufferAdvance n (pre @ s @ post) (length pre) = Some (s, length pre + length s)"
  by (simp add: readBufferAdvance_def slice_middle)

interpretation txin: codec ser_txin read_txin wf_txin
proof
  fix i :: Txin and pre post :: bytes
  assume wf: "wf_txin i"
  let ?h = "in_hash i" and ?i = "le_bytes 4 (in_index i)" and ?l = "ser_varlen (in_script_length i)"
    and ?s = "in_script i" and ?q = "le_bytes 4 (in_seq i)"
  from wf show "read_txin (pre @ ser_txin i @ post) (length pre) = Some (i, length pre + length (ser_txin i))"
    using hash32.reads [of ?h pre "?i @ ?l @ ?s @ ?q @ post"]
      u32.reads [of "pre @ ?h" "in_index i" "?l @ ?s @ ?q @ post"]
      varlen.reads [of "pre @ ?h @ ?i" "in_script_length i" "?s @ ?q @ post"]
      readBuffer_middle [of "in_script_length i" ?s "pre @ ?h @ ?i @ ?l" "?q @ post"]
      u32.reads [of "pre @ ?h @ ?i @ ?l @ ?s" "in_seq i" post]
    by (simp add: read_txin_def ser_txin_def wf_txin_def add.assoc)
qed

interpretation txout: codec ser_txout read_txout wf_txout
proof
  fix t :: Txout and pre post :: bytes
  assume wf: "wf_txout t"
  let ?v = "le_bytes 8 (out_val t)" and ?l = "ser_varlen (out_script_length t)" and ?s = "out_script t"
  from wf show "read_txout (pre @ ser_txout t @ post) (length pre) = Some (t, length pre + length (ser_txout t))"
    using u64.reads [of pre "out_val t" "?l @ ?s @ post"]
      varlen.reads [of "pre @ ?v" "out_script_length t" "?s @ post"]
      readBuffer_middle [of "out_script_length t" ?s "pre @ ?v @ ?l" post]
    by (simp add: read_txout_def ser_txout_def wf_txout_def add.assoc)
qed

definition tx_meta :: "unit32 \<Rightarrow> unit16 \<Rightarrow> unit32 \<Rightarrow> unit32 \<Rightarrow> Transaction \<Rightarrow> bool" where
  "tx_meta blocknumber txNum txcounter timeStamp tx \<longleftrightarrow>
     tx_blocknumber tx = blocknumber \<and> tx_txnumber tx = txNum \<and> tx_txcounter tx = txcounter \<and>
     tx_txtime tx = timeStamp \<and> tx_length tx = word_of_nat (length (ser_tx tx)) \<and>
     tx_curhash tx = twiceSHA256 (ser_tx tx)"

interpretation tx: codec ser_tx "read_tx bn tn tc ts" "\<lambda>tx. wf_tx tx \<and> tx_meta bn tn tc ts tx"
proof
  fix tx :: Transaction and pre post :: bytes
  assume wf: "wf_tx tx \<and> tx_meta bn tn tc ts tx"
  let ?v = "le_bytes 4 (tx_ver tx)" and ?n = "ser_varlen (tx_in_count tx)" and ?m = "ser_varlen (tx_out_count tx)"
    and ?i = "concat (map ser_txin (tx_ins tx))" and ?o = "concat (map ser_txout (tx_outs tx))"
    and ?l = "le_bytes 4 (tx_lock_time tx)"
  from wf show "read_tx bn tn tc ts (pre @ ser_tx tx @ post) (length pre) = Some (tx, length pre + length (ser_tx tx))"
    using u32.reads [of pre "tx_ver tx" "?n @ ?i @ ?m @ ?o @ ?l @ post"]
      varlen.reads [of "pre @ ?v" "tx_in_count tx" "?i @ ?m @ ?o @ ?l @ post"]
      txin.reads_many [of "tx_ins tx" "pre @ ?v @ ?n" "?m @ ?o @ ?l @ post"]
      varlen.reads [of "pre @ ?v @ ?n @ ?i" "tx_out_count tx" "?o @ ?l @ post"]
      txout.reads_many [of "tx_outs tx" "pre @ ?v @ ?n @ ?i @ ?m" "?l @ post"]
      u32.reads [of "pre @ ?v @ ?n @ ?i @ ?m @ ?o" "tx_lock_time tx" post]
    by (simp add: read_tx_def wf_tx_def tx_meta_def ser_tx_def add.assoc)
qed


section \<open>What the readers accept\<close>

text \<open>A reader that returns has stayed inside the section and moved forward by at least \<open>k\<close> bytes.\<close>

definition advances :: "'a reader \<Rightarrow> nat \<Rightarrow> bool" where
  "advances r k \<longleftrightarrow> (\<forall>sec pos x e. r sec pos = Some (x, e) \<longrightarrow> pos + k \<le> e \<and> e \<le> length sec)"

lemma advancesD: "advances r k \<Longrightarrow> r sec pos = Some (x, e) \<Longrightarrow> pos + k \<le> e \<and> e \<le> length sec"
  by (simp add: advances_def)

lemma advances_basic:
  "advances readU8 1" "advances readU16 2" "advances readU32 4" "advances readU64 8" "advances readHash 32"
  "advances (readBufferAdvance n) (unat n)"
  by (auto simp: advances_def readU8_def readU16_def readU32_def readU64_def readHash_def readBufferAdvance_def
      slice_def split: if_splits)

lemma advances_varlen: "advances readVarLen 1"
proof -
  have "pos + 1 \<le> e \<and> e \<le> length sec" if "readVarLen sec pos = Some (x, e)" for sec pos x e
    using that advancesD [OF advances_basic(1), of sec pos] advancesD [OF advances_basic(2), of sec]
      advancesD [OF advances_basic(3), of sec]
    by (fastforce simp: readVarLen_def bind_eq_Some_conv split: if_splits prod.splits)
  then show ?thesis by (simp add: advances_def)
qed

lemma read_txin_sound:
  assumes "read_txin sec pos = Some (i, e)"
  shows "wf_txin i \<and> pos + 41 \<le> e \<and> e \<le> length sec"
proof -
  obtain hash p1 idx p2 len p3 script p4 seq where steps:
    "readHash sec pos = Some (hash, p1)" "readU32 sec p1 = Some (idx, p2)" "readVarLen sec p2 = Some (len, p3)"
    "readBufferAdvance len sec p3 = Some (script, p4)" "readU32 sec p4 = Some (seq, e)"
    and i: "i = \<lparr>in_hash = hash, in_index = idx, in_script_length = len, in_script = script, in_seq = seq\<rparr>"
    using assms by (auto simp: read_txin_def bind_eq_Some_conv)
  have "length hash = 32" "length script = unat len"
    using steps(1,4) by (auto simp: readHash_def readBufferAdvance_def bind_eq_Some_conv dest: length_slice)
  then show ?thesis
    using i advancesD [OF advances_basic(5) steps(1)] advancesD [OF advances_basic(3) steps(2)]
      advancesD [OF advances_varlen steps(3)] advancesD [OF advances_basic(6) steps(4)]
      advancesD [OF advances_basic(3) steps(5)]
    by (simp add: wf_txin_def)
qed

lemma read_txout_sound:
  assumes "read_txout sec pos = Some (t, e)"
  shows "wf_txout t \<and> pos + 9 \<le> e \<and> e \<le> length sec"
proof -
  obtain v p1 len p2 script where steps:
    "readU64 sec pos = Some (v, p1)" "readVarLen sec p1 = Some (len, p2)"
    "readBufferAdvance len sec p2 = Some (script, e)"
    and t: "t = \<lparr>out_val = v, out_script_length = len, out_script = script, out_address = snd (outAddress script)\<rparr>"
    using assms by (auto simp: read_txout_def bind_eq_Some_conv)
  have "length script = unat len"
    using steps(3) by (auto simp: readBufferAdvance_def bind_eq_Some_conv dest: length_slice)
  then show ?thesis
    using t advancesD [OF advances_basic(4) steps(1)] advancesD [OF advances_varlen steps(2)]
      advancesD [OF advances_basic(6) steps(3)]
    by (simp add: wf_txout_def)
qed

lemma read_many_sound:
  assumes "\<And>pos x e. r sec pos = Some (x, e) \<Longrightarrow> P x \<and> pos \<le> e \<and> e \<le> length sec"
    and "read_many r n sec pos = Some (xs, e)" and "pos \<le> length sec"
  shows "list_all P xs \<and> length xs = n \<and> pos \<le> e \<and> e \<le> length sec"
  using assms(2,3)
proof (induction n arbitrary: pos xs)
  case (Suc n)
  then obtain x p ys where "r sec pos = Some (x, p)" "read_many r n sec p = Some (ys, e)" "xs = x # ys"
    by (auto simp: bind_eq_Some_conv)
  with Suc.IH [of p ys] assms(1) [of pos x p] show ?case by auto
qed simp

lemma read_tx_sound:
  assumes "read_tx bn tn tc ts sec pos = Some (tx, e)"
  shows "wf_tx tx \<and> pos + 10 \<le> e \<and> e \<le> length sec \<and>
    tx_curhash tx = twiceSHA256 (take (e - pos) (drop pos sec)) \<and> tx_length tx = word_of_nat (e - pos)"
proof -
  obtain ver p1 ic p2 ins p3 oc p4 outs p5 lt where steps:
    "readU32 sec pos = Some (ver, p1)" "readVarLen sec p1 = Some (ic, p2)"
    "read_many read_txin (unat ic) sec p2 = Some (ins, p3)" "readVarLen sec p3 = Some (oc, p4)"
    "read_many read_txout (unat oc) sec p4 = Some (outs, p5)" "readU32 sec p5 = Some (lt, e)"
    and tx: "tx_in_count tx = ic" "tx_ins tx = ins" "tx_out_count tx = oc" "tx_outs tx = outs"
      "tx_curhash tx = twiceSHA256 (take (e - pos) (drop pos sec))" "tx_length tx = word_of_nat (e - pos)"
    using assms by (auto simp: read_tx_def bind_eq_Some_conv)
  note adv = advancesD [OF advances_basic(3) steps(1)] advancesD [OF advances_varlen steps(2)]
      advancesD [OF advances_varlen steps(4)] advancesD [OF advances_basic(3) steps(6)]
  have "list_all wf_txin ins \<and> length ins = unat ic \<and> p2 \<le> p3 \<and> p3 \<le> length sec"
    using adv by (intro read_many_sound [OF _ steps(3)]) (auto dest: read_txin_sound)
  moreover have "list_all wf_txout outs \<and> length outs = unat oc \<and> p4 \<le> p5 \<and> p5 \<le> length sec"
    using adv by (intro read_many_sound [OF _ steps(5)]) (auto dest: read_txout_sound)
  ultimately show ?thesis
    using tx adv by (auto simp: wf_tx_def)
qed

lemma length_key_address: "length key = 65 \<Longrightarrow> length (take 20 (drop 1 (snd (bitcoinPublicKeyToAddress key (replicate 25 0))))) = 20"
  by (simp add: bitcoinPublicKeyToAddress_run)

lemma scan_pattern_Some:
  "scan_pattern Script endIndex i = Some j \<Longrightarrow> i \<le> j \<and> j < endIndex \<and> pattern_at Script j"
proof (induction Script endIndex i rule: scan_pattern.induct)
  case (1 Script endIndex i)
  then show ?case
    using scan_pattern.simps [of Script endIndex i] by (simp split: if_splits)
qed

lemma scan_pattern_None:
  "scan_pattern Script endIndex i = None \<longleftrightarrow> (\<forall>j. i \<le> j \<and> j < endIndex \<longrightarrow> \<not> pattern_at Script j)"
proof (induction Script endIndex i rule: scan_pattern.induct)
  case (1 Script endIndex i)
  then show ?case
    using scan_pattern.simps [of Script endIndex i] by (auto simp: Suc_le_eq) (metis le_neq_implies_less)
qed

lemma length_snd_if:
  "(c \<Longrightarrow> length (snd a) = n) \<Longrightarrow> (\<not> c \<Longrightarrow> length (snd b) = n) \<Longrightarrow> length (snd (if c then a else b)) = n"
  by simp

lemma length_snd_case:
  "(\<And>i. x = Some i \<Longrightarrow> length (snd (f i)) = n) \<Longrightarrow> length (snd b) = n \<Longrightarrow>
     length (snd (case x of None \<Rightarrow> b | Some i \<Rightarrow> f i)) = n"
  by (cases x) simp_all

lemma scan_pattern_room:
  assumes "scan_pattern Script (length Script - 25) 0 = Some i"
  shows "length (take 20 (drop (i + 3) Script)) = 20"
proof -
  have "i < length Script - 25" using scan_pattern_Some [OF assms] by blast
  then have "i + 25 < length Script" by linarith
  then show ?thesis by simp
qed

lemma length_outAddress: "length Script < 2 ^ 32 \<Longrightarrow> length (snd (outAddress Script)) = 20"
  unfolding outAddress_def Let_def
  by (intro length_snd_if length_snd_case; simp only: snd_conv)
    (simp_all only: length_computeRIPEMD160 scan_pattern_room,
     simp_all add: bitcoinPublicKeyToAddress_run length_computeRIPEMD160 min_def, linarith?)

lemma key_address_run:
  "length key = 65 \<Longrightarrow>
     take 20 (drop 1 (snd (bitcoinPublicKeyToAddress key (replicate 25 0)))) =
       (if key ! 0 = 4 then ripemd160 (sha256 key) else replicate 20 0)"
  by (simp add: bitcoinPublicKeyToAddress_run address_of_def)

lemma outAddress_key:
  "length key = 65 \<Longrightarrow> outAddress (65 # key @ [0xac]) =
     (True, if key ! 0 = 4 then ripemd160 (sha256 key) else replicate 20 0)"
  by (simp add: outAddress_def nth_append key_address_run [simplified])


section \<open>Properties\<close>

text \<open>
  C10. The parser inverts the encoding of the protocol: wherever the encoding of a well-formed
  transaction stands in the transaction section of a block, the loop of \<open>unzipBlocks\<close> reads back
  this transaction, with its length, the double SHA-256 of exactly its bytes and the addresses of its
  outputs, and continues at the byte behind it.
\<close>

theorem read_tx_encoded:
  assumes "wf_tx tx" and "tx_meta blocknumber txNum txcounter timeStamp tx"
  shows "read_tx blocknumber txNum txcounter timeStamp (pre @ ser_tx tx @ post) (length pre) =
    Some (tx, length pre + length (ser_tx tx))"
  using tx.reads assms by blast

definition sample_base :: Transaction where
  "sample_base = \<lparr>tx_ver = 1, tx_in_count = 1,
     tx_ins = [\<lparr>in_hash = replicate 32 0, in_index = 0xffffffff, in_script_length = 2, in_script = [4, 9],
       in_seq = 0xffffffff\<rparr>],
     tx_out_count = 1,
     tx_outs = [\<lparr>out_val = 5000000000, out_script_length = 25,
       out_script = [0x76, 0xa9, 20] @ replicate 20 7 @ [0x88, 0xac], out_address = replicate 20 7\<rparr>],
     tx_lock_time = 0, tx_blocknumber = 170, tx_txnumber = 0, tx_txcounter = 171, tx_length = 0,
     tx_txtime = 1231731025, tx_curhash = []\<rparr>"

definition sample_tx :: Transaction where
  "sample_tx = sample_base\<lparr>tx_length := word_of_nat (length (ser_tx sample_base)),
     tx_curhash := twiceSHA256 (ser_tx sample_base)\<rparr>"

lemma sample_tx_wf: "wf_tx sample_tx" "tx_meta 170 0 171 1231731025 sample_tx"
  by (simp_all add: sample_tx_def sample_base_def wf_tx_def tx_meta_def wf_txin_def wf_txout_def outAddress_def
      ser_tx_def ser_txin_def ser_txout_def)

theorem read_tx_encoded_witness:
  "read_tx 170 0 171 1231731025 ([1, 2] @ ser_tx sample_tx @ [3]) (length [1 :: unit8, 2]) =
     Some (sample_tx, length [1 :: unit8, 2] + length (ser_tx sample_tx))"
  by (rule read_tx_encoded [OF sample_tx_wf])





text \<open>
  C23. Every script of a length the 32-bit counter can hold gets an address of exactly 20 bytes,
  whatever branch decides it: the copies of 20 bytes stay inside the script and \<open>address\<close> is
  completely written.
\<close>

theorem outAddress_length:
  assumes "length Script < 2 ^ 32"
  shows "length (snd (outAddress Script)) = 20"
  by (rule length_outAddress [OF assms])

theorem outAddress_length_witness: "length (snd (outAddress (replicate 40 1))) = 20"
  by (rule outAddress_length) simp

text \<open>
  C24. \<open>outAddress\<close> ignores the verdict of \<open>bitcoinPublicKeyToAddress\<close>: a payment to a 65-byte key that
  does not start with 4 is reported as decoded, with the address of 20 zero bytes. All such outputs
  are booked on one address.
\<close>

theorem outAddress_bad_key:
  assumes "length key = 65" and "key ! 0 \<noteq> 4"
  shows "outAddress (65 # key @ [OP ''OP_CHECKSIG'']) = (True, replicate 20 0) \<and>
    fst (bitcoinPublicKeyToAddress key (replicate 25 0)) = False"
  using assms outAddress_key [OF assms(1)] by (simp add: bitcoinPublicKeyToAddress_run)

theorem outAddress_bad_key_witness:
  "outAddress (65 # (6 # replicate 64 1) @ [OP ''OP_CHECKSIG'']) = (True, replicate 20 0)"
  using outAddress_bad_key [of "6 # replicate 64 1"] by simp



text \<open>
  C26. The fourth form of a variable length integer is not read: after the prefix \<open>0xff\<close> the reader
  returns 0 and has consumed only the prefix, where the protocol has eight more bytes.
\<close>

theorem readVarLen_ff:
  "readVarLen (pre @ [0xff] @ le_bytes 8 (n :: unit64) @ post) (length pre) = Some (0, length pre + 1)"
  using u8.reads [of pre "0xff" "le_bytes 8 n @ post"] by (simp add: readVarLen_def le_bytes_1)

end
