(* ===== verification/Sql_Text.thy ===== *)
theory Sql_Text
  imports Prelude
begin

text \<open>
  The text the program builds: decimal numbers (\<open>ss << n\<close> on the shared \<open>stringstream\<close>), the
  hexadecimal forms of \<open>sprintf_s\<close> with \<open>%02x\<close> and \<open>%08x\<close>, quoted values of SQL statements, and the
  parsing of a decimal number by \<open>operator>>\<close>. The lemmas are the round trips the components rely on:
  the text of a number or of a byte string determines it.
\<close>

section \<open>Decimal numbers\<close>

definition digit :: "nat \<Rightarrow> char" where
  "digit n = char_of (48 + n)"

definition digit_value :: "char \<Rightarrow> nat" where
  "digit_value c = of_char c - 48"

definition is_digit :: "char \<Rightarrow> bool" where
  "is_digit c \<longleftrightarrow> 48 \<le> (of_char c :: nat) \<and> (of_char c :: nat) \<le> 57"

fun decimal :: "nat \<Rightarrow> string" where
  "decimal n = (if n < 10 then [digit n] else decimal (n div 10) @ [digit (n mod 10)])"

declare decimal.simps [simp del]

definition undecimal :: "string \<Rightarrow> nat" where
  "undecimal s = foldl (\<lambda>n c. 10 * n + digit_value c) 0 s"

lemma digit_value_digit [simp]: "n < 10 \<Longrightarrow> digit_value (digit n) = n"
  by (simp add: digit_def digit_value_def)

lemma is_digit_digit [simp]: "n < 10 \<Longrightarrow> is_digit (digit n)"
  by (simp add: digit_def is_digit_def)

lemma undecimal_decimal [simp]: "undecimal (decimal n) = n"
proof (induction n rule: decimal.induct)
  case (1 n)
  then show ?case by (subst decimal.simps) (simp add: undecimal_def)
qed

lemma decimal_inject [simp]: "decimal m = decimal n \<longleftrightarrow> m = n"
  by (metis undecimal_decimal)

lemma decimal_digits: "list_all is_digit (decimal n)"
proof (induction n rule: decimal.induct)
  case (1 n)
  then show ?case by (subst decimal.simps) simp
qed

lemma decimal_not_Nil [simp]: "decimal n \<noteq> []"
  by (subst decimal.simps) simp

lemma length_decimal_le: "n < 10 ^ k \<Longrightarrow> 0 < k \<Longrightarrow> length (decimal n) \<le> k"
proof (induction n arbitrary: k rule: decimal.induct)
  case (1 n)
  show ?case
  proof (cases "n < 10")
    case False
    then obtain j where k: "k = Suc j" and j: "0 < j"
      using 1(2,3) by (cases k; cases "k - 1") auto
    have "n div 10 < 10 ^ j" using 1(2) k by (simp add: less_mult_imp_div_less mult.commute)
    then show ?thesis using 1(1) [OF False _ j] False k by (subst decimal.simps) simp
  qed (use 1(3) in \<open>subst decimal.simps; simp\<close>)
qed

text \<open>Two decimal digits, the form of \<open>%m\<close>, \<open>%d\<close>, \<open>%H\<close>, \<open>%M\<close> and \<open>%S\<close> in \<open>strftime\<close>.\<close>

definition dec2 :: "nat \<Rightarrow> string" where
  "dec2 n = [digit (n div 10 mod 10), digit (n mod 10)]"

lemma length_dec2 [simp]: "length (dec2 n) = 2"
  by (simp add: dec2_def)

lemma digit_inject: "m < 10 \<Longrightarrow> n < 10 \<Longrightarrow> digit m = digit n \<longleftrightarrow> m = n"
  by (metis digit_value_digit)

lemma dec2_inject: "m < 100 \<Longrightarrow> n < 100 \<Longrightarrow> dec2 m = dec2 n \<longleftrightarrow> m = n"
proof
  assume small: "m < 100" "n < 100" and eq: "dec2 m = dec2 n"
  have "m div 10 = n div 10" "m mod 10 = n mod 10"
    using eq small by (simp_all add: dec2_def digit_inject)
  then show "m = n" by (metis div_mult_mod_eq)
qed simp

lemma digit_chars:
  "digit 0 = CHR ''0''" "digit (Suc 0) = CHR ''1''" "digit 1 = CHR ''1''" "digit (Suc (Suc 0)) = CHR ''2''" "digit 2 = CHR ''2''" "digit 3 = CHR ''3''"
  "digit 4 = CHR ''4''" "digit 5 = CHR ''5''" "digit 6 = CHR ''6''" "digit 7 = CHR ''7''" "digit 8 = CHR ''8''" "digit 9 = CHR ''9''"
  by code_simp+

lemmas decimal_eval = decimal.simps [of "numeral k"] decimal.simps [of 0] decimal.simps [of 1] decimal.simps [of "Suc 0"] for k

text \<open>A signed number as \<open>operator<<\<close> prints it.\<close>

definition decimal_int :: "int \<Rightarrow> string" where
  "decimal_int i = (if i < 0 then CHR ''-'' # decimal (nat (- i)) else decimal (nat i))"


section \<open>Reading a number\<close>

text \<open>
  \<open>operator>>\<close> into an integer: white space is skipped, an optional sign and the longest sequence of
  digits is taken; without a digit the extraction fails. The rest of the stream is returned.
\<close>

definition is_space :: "char \<Rightarrow> bool" where
  "is_space c \<longleftrightarrow> c = CHR '' '' \<or> c = CHR 0x09 \<or> c = CHR 0x0A \<or> c = CHR 0x0D"

definition scan_digits :: "string \<Rightarrow> (nat \<times> string) option" where
  "scan_digits s =
    (let ds = takeWhile is_digit s
     in if ds = [] then None else Some (undecimal ds, dropWhile is_digit s))"

definition scan_int :: "string \<Rightarrow> (int \<times> string) option" where
  "scan_int s =
    (case dropWhile is_space s of
       [] \<Rightarrow> None
     | c # r \<Rightarrow>
         if c = CHR ''-'' then map_option (\<lambda>(n, r). (- int n, r)) (scan_digits r)
         else map_option (\<lambda>(n, r). (int n, r)) (scan_digits (c # r)))"

lemma digit_not_space: "is_digit c \<Longrightarrow> \<not> is_space c \<and> c \<noteq> CHR ''-''"
  by (auto simp: is_digit_def is_space_def)

lemma space_not_digit: "is_space c \<Longrightarrow> \<not> is_digit c"
  using digit_not_space by blast

lemma scan_digits_decimal:
  assumes "r = [] \<or> \<not> is_digit (hd r)"
  shows "scan_digits (decimal n @ r) = Some (n, r)"
proof -
  have "\<forall>c \<in> set (decimal n). is_digit c"
    using decimal_digits [of n] by (simp add: list_all_iff)
  moreover have "takeWhile is_digit r = []" "dropWhile is_digit r = r"
    using assms by (cases r; simp)+
  ultimately show ?thesis
    by (simp add: scan_digits_def takeWhile_append2 dropWhile_append2)
qed

lemma scan_int_decimal_int:
  assumes "r = [] \<or> \<not> is_digit (hd r)" and "list_all is_space w"
  shows "scan_int (w @ decimal_int i @ r) = Some (i, r)"
proof -
  have skip: "dropWhile is_space (w @ t) = dropWhile is_space t" for t
    using assms(2) by (simp add: list_all_iff dropWhile_append2)
  show ?thesis
  proof (cases "i < 0")
    case True
    have "\<not> is_space (CHR ''-'')" by (simp add: is_space_def)
    then show ?thesis
      using True scan_digits_decimal [OF assms(1), of "nat (- i)"] skip [of "decimal_int i @ r"]
      by (simp add: scan_int_def decimal_int_def)
  next
    case False
    obtain c ds where c: "decimal (nat i) = c # ds" by (cases "decimal (nat i)") simp_all
    then have "is_digit c" using decimal_digits [of "nat i"] by simp
    then show ?thesis
      using False scan_digits_decimal [OF assms(1), of "nat i"] skip [of "decimal_int i @ r"] c
      by (simp add: scan_int_def decimal_int_def digit_not_space)
  qed
qed


section \<open>Hexadecimal text\<close>

definition hexdigit :: "nat \<Rightarrow> char" where
  "hexdigit n = (if n < 10 then char_of (48 + n) else char_of (87 + n))"

definition hexvalue :: "char \<Rightarrow> nat" where
  "hexvalue c = (if (of_char c :: nat) < 58 then of_char c - 48 else of_char c - 87)"

definition hex2 :: "unit8 \<Rightarrow> string" where
  "hex2 b = [hexdigit (unat b div 16), hexdigit (unat b mod 16)]"

definition hex_bytes :: "bytes \<Rightarrow> string" where
  "hex_bytes bs = concat (map hex2 bs)"

definition hex8 :: "unit32 \<Rightarrow> string" where
  "hex8 w = hex_bytes (rev (le_bytes 4 w))"

fun unhex :: "string \<Rightarrow> bytes" where
  "unhex (c # d # s) = word_of_nat (16 * hexvalue c + hexvalue d) # unhex s"
| "unhex _ = []"

lemma hexvalue_hexdigit [simp]: "n < 16 \<Longrightarrow> hexvalue (hexdigit n) = n"
  by (simp add: hexdigit_def hexvalue_def)

lemma unat_byte_div16 [simp]: "unat (b :: unit8) div 16 < 16"
  using unat_byte_le [of b] by linarith

lemma hex_bytes_simps [simp]:
  "hex_bytes [] = []"
  "hex_bytes (b # bs) = hexdigit (unat b div 16) # hexdigit (unat b mod 16) # hex_bytes bs"
  "hex_bytes (bs @ cs) = hex_bytes bs @ hex_bytes cs"
  by (simp_all add: hex_bytes_def hex2_def)

lemma unhex_hex_bytes [simp]: "unhex (hex_bytes bs) = bs"
  by (induction bs) simp_all

lemma hex_bytes_inject [simp]: "hex_bytes bs = hex_bytes cs \<longleftrightarrow> bs = cs"
  by (metis unhex_hex_bytes)

lemma length_hex_bytes [simp]: "length (hex_bytes bs) = 2 * length bs"
  by (induction bs) simp_all

lemma length_hex8 [simp]: "length (hex8 w) = 8"
  by (simp add: hex8_def)

lemma hex8_value [simp]: "le_word (rev (unhex (hex8 w))) = w"
  by (simp add: hex8_def le_word_le_bytes)

lemma hex8_inject [simp]: "hex8 v = hex8 w \<longleftrightarrow> v = w"
  by (metis hex8_value)


section \<open>SQL values\<close>

definition quoted :: "string \<Rightarrow> string" where
  "quoted s = CHR 0x27 # s @ [CHR 0x27]"

lemma quoted_inject [simp]: "quoted s = quoted t \<longleftrightarrow> s = t"
  by (simp add: quoted_def)

text \<open>
  A value inside quotes cannot end the quotes it stands in: the texts the program quotes are digits,
  hexadecimal digits and times, and none has a quote.
\<close>

definition quote_free :: "string \<Rightarrow> bool" where
  "quote_free s \<longleftrightarrow> CHR 0x27 \<notin> set s"

lemma quote_free_append [simp]: "quote_free (s @ t) \<longleftrightarrow> quote_free s \<and> quote_free t"
  by (auto simp: quote_free_def)

lemma quote_free_decimal [simp]: "quote_free (decimal n)"
  using decimal_digits [of n] by (auto simp: quote_free_def list_all_iff is_digit_def)

lemma hexdigit_no_quote: "n < 16 \<Longrightarrow> hexdigit n \<noteq> CHR 0x27"
proof
  assume "n < 16" and eq: "hexdigit n = CHR 0x27"
  have "(of_char (hexdigit n) :: nat) \<noteq> 39"
    using \<open>n < 16\<close> by (simp add: hexdigit_def)
  then show False by (simp add: eq)
qed

lemma quote_free_hex_bytes [simp]: "quote_free (hex_bytes bs)"
proof (induction bs)
  case (Cons b bs)
  then show ?case
    using hexdigit_no_quote [of "unat b div 16"] hexdigit_no_quote [of "unat b mod 16"]
    by (simp add: quote_free_def eq_commute)
qed (simp add: quote_free_def)

lemma quote_free_hex8 [simp]: "quote_free (hex8 w)"
  by (simp add: hex8_def)

end
