(* ===== verification/Entity_Process.thy ===== *)
theory Entity_Process
  imports Block_Format Sql_Text
begin

text \<open>
  \<open>EntityProcess.h\<close>: addresses that appear together as inputs of a transaction are taken to belong to
  one owner, an entity. The table \<open>addressinfo\<close> has the entity of every address, \<open>entityinfo\<close> one row
  per entity.

  MySQL is a parameter of the model: \<open>my_exec\<close> is what a statement does to the database and \<open>my_rows\<close>
  the rows it returns, both given the text of the statement. The model builds the texts as the code
  does. What the code relies on is the locale \<open>entity_tables\<close>: the documented effect of these
  statements on the two tables. \<open>None\<close> is undefined behaviour: reading a row that is not there, a
  \<open>NULL\<close> cell, or an element of an empty vector.
\<close>

section \<open>The connection and the state\<close>

type_synonym row = "bytes option list"

record 'db mysql =
  my_exec :: "string \<Rightarrow> 'db \<Rightarrow> 'db"
  my_rows :: "string \<Rightarrow> 'db \<Rightarrow> row list"

record 'db state =
  conn :: 'db
  entitychange_v :: "unit32 list"
  entitycnt :: unit32

definition mysql_query :: "'db mysql \<Rightarrow> string \<Rightarrow> ('db, 'm) state_scheme \<Rightarrow> ('db, 'm) state_scheme" where
  "mysql_query my stmt st = st\<lparr>conn := my_exec my stmt (conn st)\<rparr>"

definition mysql_fetch_row :: "'db mysql \<Rightarrow> string \<Rightarrow> ('db, 'm) state_scheme \<Rightarrow> row option" where
  "mysql_fetch_row my stmt st = (case my_rows my stmt (conn st) of [] \<Rightarrow> None | r # _ \<Rightarrow> Some r)"


section \<open>The code\<close>

definition coinbase_h :: bytes where
  "coinbase_h = [0x30, 0x30, 0x30, 0x30, 0x30, 0x30, 0x30, 0x30, 0x30, 0x30,
     0x30, 0x30, 0x30, 0x30, 0x30, 0x30, 0x30, 0x30, 0x30, 0x30]"

text \<open>The entity column has four bytes, the most significant first.\<close>

definition fetch_entity ::
  "'db mysql \<Rightarrow> string \<Rightarrow> ('db, 'm) state_scheme \<Rightarrow> (unit32 \<times> ('db, 'm) state_scheme) option" where
  "fetch_entity my getent st = do {
     row \<leftarrow> mysql_fetch_row my getent st;
     cell \<leftarrow> at row 0;
     content \<leftarrow> cell;
     temp1 \<leftarrow> slice content 0 4;
     let temp2 = [temp1 ! 3, temp1 ! 2, temp1 ! 1, temp1 ! 0];
     Some (le_word temp2, mysql_query my getent st)
   }"

definition select_entity :: "bytes \<Rightarrow> string" where
  "select_entity address_b = ''SELECT entity FROM addressinfo WHERE address = x'' @ quoted (hex_bytes address_b) @ '';''"

definition select_entity' :: "bytes \<Rightarrow> string" where
  "select_entity' address_b = ''SELECT entity FROM addressinfo where address = x'' @ quoted (hex_bytes address_b) @ '';''"

definition merge_update :: "unit32 \<Rightarrow> unit32 \<Rightarrow> string" where
  "merge_update entity_0 entity_buf =
     ''UPDATE addressinfo SET entity = x'' @ quoted (hex8 entity_0) @ '' WHERE entity = x'' @ quoted (hex8 entity_buf) @ '';''"

definition delete_entity :: "unit32 \<Rightarrow> string" where
  "delete_entity entity_buf = ''DELETE FROM entityinfo WHERE entity = x'' @ quoted (hex8 entity_buf) @ '';''"

definition assign_entity :: "unit32 \<Rightarrow> bytes \<Rightarrow> string" where
  "assign_entity entity_buf address_b =
     ''UPDATE addressinfo SET entity = x'' @ quoted (hex8 entity_buf) @ '' WHERE address = x'' @
     quoted (hex_bytes address_b) @ '';''"

definition insert_entity :: "unit32 \<Rightarrow> string" where
  "insert_entity cnt = ''INSERT INTO entityinfo(entity) VALUES(x'' @ quoted (hex8 cnt) @ '');''"

fun input_entities ::
  "'db mysql \<Rightarrow> bytes list \<Rightarrow> ('db, 'm) state_scheme \<Rightarrow> (unit32 list \<times> ('db, 'm) state_scheme) option" where
  "input_entities my [] st = Some ([], st)"
| "input_entities my (address # address_bv) st = do {
     address_b \<leftarrow> slice address 0 20;
     (entity, st) \<leftarrow> fetch_entity my (select_entity address_b) st;
     (entity_v, st) \<leftarrow> input_entities my address_bv st;
     Some (entity # entity_v, st)
   }"

fun merge_entities ::
  "'db mysql \<Rightarrow> unit32 \<Rightarrow> unit32 list \<Rightarrow> ('db, 'm) state_scheme \<Rightarrow> ('db, 'm) state_scheme" where
  "merge_entities my entity_0 (prev # entity_buf # entity_v) st =
    (let st = (if prev \<noteq> entity_buf
               then mysql_query my (delete_entity entity_buf) (mysql_query my (merge_update entity_0 entity_buf) st)
               else st)
     in merge_entities my entity_0 (entity_buf # entity_v) st)"
| "merge_entities my entity_0 _ st = st"

definition input_entity_mysql ::
  "'db mysql \<Rightarrow> bytes list \<Rightarrow> ('db, 'm) state_scheme \<Rightarrow> ('db, 'm) state_scheme option" where
  "input_entity_mysql my address_bv st =
    (if length address_bv = 1 then do {
       address_b \<leftarrow> slice (address_bv ! 0) 0 20;
       if address_b \<noteq> coinbase_h then do {
         (entity, st) \<leftarrow> fetch_entity my (select_entity address_b) st;
         Some (st\<lparr>entitychange_v := entitychange_v st @ [entity]\<rparr>)
       }
       else Some st
     }
     else do {
       (entity_v, st) \<leftarrow> input_entities my address_bv st;
       let entity_v = sort entity_v;
       let unequal = list_ex (\<lambda>e. hd entity_v \<noteq> e) (tl entity_v);
       let st = (if unequal then merge_entities my (hd entity_v) entity_v st else st);
       entity_0 \<leftarrow> at entity_v 0;
       Some (st\<lparr>entitychange_v := entitychange_v st @ [entity_0]\<rparr>)
     })"

definition insert_entity_mysql ::
  "'db mysql \<Rightarrow> unit32 \<Rightarrow> ('db, 'm) state_scheme \<Rightarrow> ('db, 'm) state_scheme" where
  "insert_entity_mysql my cnt st = mysql_query my (insert_entity cnt) st"

fun output_entity_mysql ::
  "'db mysql \<Rightarrow> bytes list \<Rightarrow> ('db, 'm) state_scheme \<Rightarrow> ('db, 'm) state_scheme option" where
  "output_entity_mysql my [] st = Some st"
| "output_entity_mysql my (address # address_bv) st = do {
     address_b \<leftarrow> slice address 0 20;
     (entity, st) \<leftarrow> fetch_entity my (select_entity' address_b) st;
     let st =
       (if 0 = entity then
          let st = st\<lparr>entitycnt := entitycnt st + 1\<rparr>;
              st = mysql_query my (assign_entity (entitycnt st) address_b) st;
              st = insert_entity_mysql my (entitycnt st) st
          in st\<lparr>entitychange_v := entitychange_v st @ [entitycnt st]\<rparr>
        else st\<lparr>entitychange_v := entitychange_v st @ [entitycnt st]\<rparr>);
     output_entity_mysql my address_bv st
   }"

definition refresh_entity :: "unit32 \<Rightarrow> string" where
  "refresh_entity e =
    (let is_e = ''(SELECT ''; from_e = '' FROM addressinfo WHERE entity=x'' @ quoted (hex8 e) @ '')''
     in ''UPDATE entityinfo SET addcnt = '' @ is_e @ ''count(*)'' @ from_e @ '','' @
        ''inval = '' @ is_e @ ''sum(inval)'' @ from_e @ '','' @
        ''outval = '' @ is_e @ ''sum(outval)'' @ from_e @ '','' @
        ''firsttm = '' @ is_e @ ''min(firsttm)'' @ from_e @ '','' @
        ''lasttm = '' @ is_e @ ''max(lasttm)'' @ from_e @ '','' @
        ''bal = '' @ is_e @ ''sum(bal)'' @ from_e @ '','' @
        ''maxbal = '' @ is_e @ ''sum(maxbal)'' @ from_e @ '','' @
        ''incnt = '' @ is_e @ ''sum(incnt)'' @ from_e @ '','' @
        ''outcnt = '' @ is_e @ ''sum(outcnt)'' @ from_e @
        '' WHERE entity=x'' @ quoted (hex8 e) @ '';'')"

definition update_entity_mysql :: "'db mysql \<Rightarrow> ('db, 'm) state_scheme \<Rightarrow> ('db, 'm) state_scheme" where
  "update_entity_mysql my st =
    (let ent_change_v = remdups_adj (sort (entitychange_v st));
         st = foldl (\<lambda>st e. mysql_query my (refresh_entity e) st) st ent_change_v
     in st\<lparr>entitychange_v := []\<rparr>)"


section \<open>What the component promises\<close>

text \<open>
  The abstract view: the owner of every address, the owners in use, the last number given to an
  owner, and the owners whose totals have to be computed again. The inputs of a transaction are
  merged into the smallest of their owners; an output without an owner (0) gets a new one.
\<close>

record owners =
  own :: "bytes \<Rightarrow> unit32 option"
  own_ids :: "unit32 set"
  own_cnt :: unit32
  own_touched :: "unit32 list"

definition input_owners :: "bytes list \<Rightarrow> owners \<Rightarrow> unit32 set" where
  "input_owners as w = (\<lambda>a. the (own w a)) ` set as"

definition merge_inputs :: "bytes list \<Rightarrow> owners \<Rightarrow> owners" where
  "merge_inputs as w =
    (let E = input_owners as w; m = Min E
     in w\<lparr>own := (\<lambda>a. if own w a \<in> Some ` E then Some m else own w a),
          own_ids := own_ids w - (E - {m}), own_touched := own_touched w @ [m]\<rparr>)"

fun assign_outputs :: "bytes list \<Rightarrow> owners \<Rightarrow> owners" where
  "assign_outputs [] w = w"
| "assign_outputs (a # as) w =
    (if own w a = Some 0 then
       let e = own_cnt w + 1
       in assign_outputs as (w\<lparr>own := (own w)(a \<mapsto> e), own_ids := insert e (own_ids w), own_cnt := e,
            own_touched := own_touched w @ [e]\<rparr>)
     else assign_outputs as (w\<lparr>own_touched := own_touched w @ [own_cnt w]\<rparr>))"

definition owners_inv :: "owners \<Rightarrow> bool" where
  "owners_inv w \<longleftrightarrow> own_ids w = ran (own w) - {0} \<and> (\<forall>e \<in> own_ids w. e \<le> own_cnt w)"

definition same_owner :: "owners \<Rightarrow> bytes \<Rightarrow> bytes \<Rightarrow> bool" where
  "same_owner w a b \<longleftrightarrow> own w a \<noteq> None \<and> own w a = own w b"

definition owners_of ::
  "('db \<Rightarrow> bytes \<Rightarrow> unit32 option) \<Rightarrow> ('db \<Rightarrow> unit32 set) \<Rightarrow> ('db, 'm) state_scheme \<Rightarrow> owners" where
  "owners_of ent ids st = \<lparr>own = ent (conn st), own_ids = ids (conn st), own_cnt = entitycnt st,
     own_touched = entitychange_v st\<rparr>"

definition known :: "owners \<Rightarrow> bytes list \<Rightarrow> bool" where
  "known w as \<longleftrightarrow> list_all (\<lambda>a. length a = 20 \<and> own w a \<noteq> None) as"


section \<open>The tables\<close>

text \<open>
  What the code relies on. \<open>ent db\<close> is the entity column of \<open>addressinfo\<close> by address and \<open>ids db\<close> the
  set of entities that have a row in \<open>entityinfo\<close>; the laws are the documented effects of the
  statements on them.
\<close>

lemma min_of_sorted:
  assumes "es \<noteq> []"
  shows "hd (sort es) = Min (set es)"
proof -
  have "sort es \<noteq> []" using assms by (metis length_0_conv length_sort)
  then show ?thesis by (metis Min_insert2 list.collapse list.simps(15) set_sort sorted_simps(2) sorted_sort List.finite_set)
qed

lemma sorted_new:
  assumes "sorted (p # e # es)" and "p \<noteq> e"
  shows "p \<notin> set es"
proof
  assume "p \<in> set es"
  then have "e \<le> p" "p \<le> e" using assms(1) by simp_all
  with assms(2) show False by simp
qed

locale entity_tables =
  fixes my :: "'db mysql"
    and ent :: "'db \<Rightarrow> bytes \<Rightarrow> unit32 option"
    and ids :: "'db \<Rightarrow> unit32 set"
  assumes select_rows: "length a = 20 \<Longrightarrow> q = select_entity a \<or> q = select_entity' a \<Longrightarrow>
      my_rows my q db = (case ent db a of None \<Rightarrow> [] | Some e \<Rightarrow> [[Some (rev (le_bytes 4 e))]])"
    and select_keeps: "length a = 20 \<Longrightarrow> q = select_entity a \<or> q = select_entity' a \<Longrightarrow>
      ent (my_exec my q db) = ent db \<and> ids (my_exec my q db) = ids db"
    and merge_ent: "ent (my_exec my (merge_update e f) db) = (\<lambda>a. if ent db a = Some f then Some e else ent db a)"
    and merge_ids: "ids (my_exec my (merge_update e f) db) = ids db"
    and delete_law: "ent (my_exec my (delete_entity f) db) = ent db \<and> ids (my_exec my (delete_entity f) db) = ids db - {f}"
    and assign_ent: "length a = 20 \<Longrightarrow>
      ent (my_exec my (assign_entity e a) db) = (\<lambda>b. if b = a \<and> ent db a \<noteq> None then Some e else ent db b)"
    and assign_ids: "length a = 20 \<Longrightarrow> ids (my_exec my (assign_entity e a) db) = ids db"
    and insert_law: "ent (my_exec my (insert_entity e) db) = ent db \<and> ids (my_exec my (insert_entity e) db) = insert e (ids db)"
    and refresh_law: "ent (my_exec my (refresh_entity e) db) = ent db \<and> ids (my_exec my (refresh_entity e) db) = ids db"
begin

lemma fetch_entity_run:
  assumes "length a = 20" and "q = select_entity a \<or> q = select_entity' a" and "ent (conn st) a = Some e"
  shows "fetch_entity my q st = Some (e, mysql_query my q st)"
proof -
  have "length (rev (le_bytes 4 e)) = 4" by simp
  then obtain b0 b1 b2 b3 where b: "rev (le_bytes 4 e) = [b0, b1, b2, b3]"
    using list_of_length_4 by blast
  then have "le_bytes 4 e = [b3, b2, b1, b0]" unfolding rev_swap by simp
  moreover have "le_word (le_bytes 4 e) = e" by (simp add: le_word_le_bytes)
  ultimately have "le_word [b3, b2, b1, b0] = e" by simp
  then show ?thesis
    using assms b select_rows [of a q "conn st"]
    by (simp add: fetch_entity_def mysql_fetch_row_def at_def slice_def)
qed

lemma input_entities_run:
  "list_all (\<lambda>a. length a = 20 \<and> ent (conn st) a \<noteq> None) as \<Longrightarrow>
     \<exists>db. input_entities my as st = Some (map (\<lambda>a. the (ent (conn st) a)) as, st\<lparr>conn := db\<rparr>) \<and>
       ent db = ent (conn st) \<and> ids db = ids (conn st)"
proof (induction as arbitrary: st)
  case Nil
  then show ?case by (auto intro!: exI [of _ "conn st"])
next
  case (Cons a as)
  let ?st = "mysql_query my (select_entity a) st"
  have keep: "ent (conn ?st) = ent (conn st)" "ids (conn ?st) = ids (conn st)"
    using select_keeps [of a "select_entity a" "conn st"] Cons.prems by (simp_all add: mysql_query_def)
  obtain db where db: "input_entities my as ?st = Some (map (\<lambda>a. the (ent (conn ?st) a)) as, ?st\<lparr>conn := db\<rparr>)"
    "ent db = ent (conn ?st)" "ids db = ids (conn ?st)"
    using Cons.IH [of ?st] Cons.prems keep by (simp add: list_all_iff) blast
  obtain e where "ent (conn st) a = Some e" using Cons.prems by auto
  then have "fetch_entity my (select_entity a) st = Some (e, ?st)" "the (ent (conn st) a) = e"
    using fetch_entity_run [of a "select_entity a" st] Cons.prems by auto
  then show ?case
    using Cons.prems db keep by (intro exI [of _ db]) (simp add: slice_def mysql_query_def)
qed

lemma merge_entities_run:
  "sorted (prev # es) \<Longrightarrow>
     \<exists>db. merge_entities my e0 (prev # es) st = st\<lparr>conn := db\<rparr> \<and>
       ent db = (\<lambda>a. if ent (conn st) a \<in> Some ` (set es - {prev}) then Some e0 else ent (conn st) a) \<and>
       ids db = ids (conn st) - (set es - {prev})"
proof (induction es arbitrary: prev st)
  case Nil
  then show ?case by (auto intro!: exI [of _ "conn st"])
next
  case (Cons e es)
  define st' where "st' = (if prev \<noteq> e then mysql_query my (delete_entity e) (mysql_query my (merge_update e0 e) st) else st)"
  obtain db where db: "merge_entities my e0 (e # es) st' = st'\<lparr>conn := db\<rparr>"
    "ent db = (\<lambda>a. if ent (conn st') a \<in> Some ` (set es - {e}) then Some e0 else ent (conn st') a)"
    "ids db = ids (conn st') - (set es - {e})"
    using Cons.IH [of e st'] Cons.prems by auto
  have st': "st'\<lparr>conn := db\<rparr> = st\<lparr>conn := db\<rparr>" by (simp add: st'_def mysql_query_def)
  show ?case
  proof (cases "prev = e")
    case True
    then have same: "st' = st" "set (e # es) - {prev} = set es - {e}" by (auto simp: st'_def)
    show ?thesis using True db unfolding same by (intro exI [of _ db]) simp
  next
    case False
    then have "prev \<notin> set es" using sorted_new [OF Cons.prems] by simp
    then have new: "set (e # es) - {prev} = insert e (set es - {e})" using False by auto
    have one: "ent (conn st') a = (if ent (conn st) a = Some e then Some e0 else ent (conn st) a)"
      "ids (conn st') = ids (conn st) - {e}" for a
      using False by (simp_all add: st'_def mysql_query_def merge_ent merge_ids delete_law)
    have "ent db a = (if ent (conn st) a \<in> Some ` (set (e # es) - {prev}) then Some e0 else ent (conn st) a)" for a
      unfolding new db(2) one(1) by (cases "ent (conn st) a = Some e") auto
    moreover have "ids db = ids (conn st) - (set (e # es) - {prev})"
      unfolding new db(3) one(2) by blast
    moreover have "merge_entities my e0 (prev # e # es) st = st\<lparr>conn := db\<rparr>"
      using db(1) st' by (simp add: st'_def Let_def)
    ultimately show ?thesis by blast
  qed
qed

lemma input_entity_many:
  assumes known: "known (owners_of ent ids st) as" and many: "2 \<le> length as"
  shows "\<exists>st'. input_entity_mysql my as st = Some st' \<and>
    owners_of ent ids st' = merge_inputs as (owners_of ent ids st) \<and> state.more st' = state.more st"
proof -
  let ?m = "ent (conn st)"
  let ?es = "map (\<lambda>a. the (?m a)) as"
  let ?E = "set ?es" and ?s = "sort ?es"
  have known': "list_all (\<lambda>a. length a = 20 \<and> ?m a \<noteq> None) as"
    using known by (simp add: known_def owners_of_def)
  obtain db where db: "input_entities my as st = Some (?es, st\<lparr>conn := db\<rparr>)" "ent db = ?m" "ids db = ids (conn st)"
    using input_entities_run [OF known'] by blast
  have ne: "?es \<noteq> []" using many by auto
  have "length ?s \<noteq> 0" using ne by simp
  then obtain e0 rest where s: "?s = e0 # rest" by (cases ?s) simp_all
  have e0: "e0 = Min ?E" using min_of_sorted [OF ne] s by simp
  have "set ?s = set (e0 # rest)" using s by simp
  then have E: "insert e0 (set rest) = ?E" by (simp only: set_sort list.simps(15))
  let ?st = "if list_ex (\<lambda>e. e0 \<noteq> e) rest then merge_entities my e0 (e0 # rest) (st\<lparr>conn := db\<rparr>) else st\<lparr>conn := db\<rparr>"
  have sorted: "sorted (e0 # rest)" using sorted_sort [of ?es] s by simp
  obtain db' where db': "?st = st\<lparr>conn := db'\<rparr>"
    "ent db' = (\<lambda>a. if ?m a \<in> Some ` (set rest - {e0}) then Some e0 else ?m a)"
    "ids db' = ids (conn st) - (set rest - {e0})"
  proof (cases "list_ex (\<lambda>e. e0 \<noteq> e) rest")
    case True
    then show thesis
      using that merge_entities_run [OF sorted, of e0 "st\<lparr>conn := db\<rparr>"] db(2,3) by (auto cong: if_cong)
  next
    case False
    then have none: "set rest - {e0} = {}" by (auto simp: list_ex_iff)
    show thesis by (rule that [of db]) (use False db(2,3) in \<open>simp_all only: none image_empty empty_iff if_False Diff_empty\<close>)
  qed
  have "(if ?m a \<in> Some ` (set rest - {e0}) then Some e0 else ?m a) = (if ?m a \<in> Some ` ?E then Some e0 else ?m a)" for a
    unfolding E [symmetric] by auto
  then have "owners_of ent ids (st\<lparr>conn := db', entitychange_v := entitychange_v st @ [e0]\<rparr>) =
      merge_inputs as (owners_of ent ids st)"
    using db'(2,3) E e0 by (auto simp: owners_of_def merge_inputs_def input_owners_def Let_def)
  moreover have "input_entity_mysql my as st = Some (st\<lparr>conn := db', entitychange_v := entitychange_v st @ [e0]\<rparr>)"
    using many db(1) s db'(1) by (simp add: input_entity_mysql_def Let_def at_def split: if_splits)
  ultimately show ?thesis
    by (intro exI [of _ "st\<lparr>conn := db', entitychange_v := entitychange_v st @ [e0]\<rparr>"]) simp
qed

lemma input_entity_one:
  assumes "length a = 20" and "a = coinbase_h \<or> ent (conn st) a \<noteq> None"
  shows "\<exists>st'. input_entity_mysql my [a] st = Some st' \<and>
    owners_of ent ids st' = (if a = coinbase_h then owners_of ent ids st else merge_inputs [a] (owners_of ent ids st)) \<and>
    state.more st' = state.more st"
proof (cases "a = coinbase_h")
  case True
  then show ?thesis using assms by (simp add: input_entity_mysql_def slice_def)
next
  case False
  then obtain e where e: "ent (conn st) a = Some e" using assms by auto
  let ?q = "select_entity a"
  have "input_entity_mysql my [a] st = Some ((mysql_query my ?q st)\<lparr>entitychange_v := entitychange_v st @ [e]\<rparr>)"
    using False assms fetch_entity_run [of a ?q st e] e
    by (simp add: input_entity_mysql_def slice_def mysql_query_def)
  then show ?thesis
    using False e assms select_keeps [of a ?q "conn st"]
    by (auto simp: owners_of_def merge_inputs_def input_owners_def mysql_query_def fun_eq_iff)
qed

lemma input_entity_run:
  assumes "as \<noteq> []" and "as = [coinbase_h] \<or> known (owners_of ent ids st) as"
  shows "\<exists>st'. input_entity_mysql my as st = Some st' \<and>
    owners_of ent ids st' = (if as = [coinbase_h] then owners_of ent ids st else merge_inputs as (owners_of ent ids st)) \<and>
    state.more st' = state.more st"
proof (cases "length as = 1")
  case True
  then obtain a where a: "as = [a]" by (cases as) auto
  moreover from a assms(2) have "length a = 20" "a = coinbase_h \<or> ent (conn st) a \<noteq> None"
    by (auto simp: known_def owners_of_def coinbase_h_def)
  ultimately show ?thesis using input_entity_one [of a st] by (cases "a = coinbase_h") simp_all
next
  case False
  with assms(1) have "2 \<le> length as" by (cases as) (auto simp: Suc_le_eq)
  moreover from this have "as \<noteq> [coinbase_h]" by auto
  ultimately show ?thesis using input_entity_many assms(2) by simp
qed

lemma output_entity_run:
  "known (owners_of ent ids st) as \<Longrightarrow>
     \<exists>st'. output_entity_mysql my as st = Some st' \<and>
       owners_of ent ids st' = assign_outputs as (owners_of ent ids st) \<and> state.more st' = state.more st"
proof (induction as arbitrary: st)
  case (Cons a as)
  let ?q = "select_entity' a"
  obtain e where e: "ent (conn st) a = Some e" and a: "length a = 20"
    using Cons.prems by (auto simp: known_def owners_of_def)
  let ?s = "mysql_query my ?q st"
  have s: "ent (conn ?s) = ent (conn st)" "ids (conn ?s) = ids (conn st)" "entitycnt ?s = entitycnt st"
      "entitychange_v ?s = entitychange_v st" "state.more ?s = state.more st"
    using a select_keeps [of a ?q "conn st"] by (simp_all add: mysql_query_def)
  let ?c = "entitycnt st + 1"
  define st1 where "st1 = (if 0 = e
    then (mysql_query my (insert_entity ?c) (mysql_query my (assign_entity ?c a) (?s\<lparr>entitycnt := ?c\<rparr>)))
      \<lparr>entitychange_v := entitychange_v st @ [?c]\<rparr>
    else ?s\<lparr>entitychange_v := entitychange_v st @ [entitycnt st]\<rparr>)"
  have run: "output_entity_mysql my (a # as) st = output_entity_mysql my as st1"
    using fetch_entity_run [of a ?q st e] a e
    by (simp add: slice_def st1_def Let_def insert_entity_mysql_def mysql_query_def)
  have more: "state.more st1 = state.more st" by (simp add: st1_def mysql_query_def)
  have one: "ent (conn st1) = (if e = 0 then (ent (conn st))(a \<mapsto> ?c) else ent (conn st)) \<and>
      ids (conn st1) = (if e = 0 then insert ?c (ids (conn st)) else ids (conn st)) \<and>
      entitycnt st1 = (if e = 0 then ?c else entitycnt st) \<and>
      entitychange_v st1 = entitychange_v st @ [if e = 0 then ?c else entitycnt st]"
    using s e a by (auto simp: st1_def mysql_query_def assign_ent assign_ids insert_law fun_eq_iff)
  then have abs: "assign_outputs as (owners_of ent ids st1) = assign_outputs (a # as) (owners_of ent ids st)"
    using e by (cases "e = 0") (simp_all add: owners_of_def Let_def)
  have "known (owners_of ent ids st1) as"
    using Cons.prems one by (auto simp: known_def owners_of_def list_all_iff)
  then obtain st' where "output_entity_mysql my as st1 = Some st'"
      "owners_of ent ids st' = assign_outputs as (owners_of ent ids st1)" "state.more st' = state.more st1"
    using Cons.IH by blast
  then show ?case using run abs more by simp
qed simp

lemma refresh_all:
  "ent (conn (foldl (\<lambda>st e. mysql_query my (refresh_entity e) st) s es)) = ent (conn s) \<and>
   ids (conn (foldl (\<lambda>st e. mysql_query my (refresh_entity e) st) s es)) = ids (conn s) \<and>
   entitycnt (foldl (\<lambda>st e. mysql_query my (refresh_entity e) st) s es) = entitycnt s"
  by (induction es arbitrary: s) (simp_all add: mysql_query_def refresh_law)

lemma update_entity_run:
  "owners_of ent ids (update_entity_mysql my st) = (owners_of ent ids st)\<lparr>own_touched := []\<rparr>"
  by (simp add: update_entity_mysql_def owners_of_def Let_def refresh_all)

end


section \<open>Merging and assigning\<close>

lemma own_merge_inputs:
  "own (merge_inputs as w) a = (if own w a \<in> Some ` input_owners as w then Some (Min (input_owners as w)) else own w a)"
  by (simp add: merge_inputs_def Let_def)

lemma input_owners_iff:
  assumes "known w as"
  shows "own w a \<in> Some ` input_owners as w \<longleftrightarrow> (\<exists>x \<in> set as. same_owner w a x)"
proof -
  have "own w x = Some (the (own w x))" if "x \<in> set as" for x
    using assms that by (auto simp: known_def list_all_iff)
  then show ?thesis by (auto simp: input_owners_def same_owner_def image_image) (metis imageI)+
qed

lemma Min_input_owners:
  assumes "as \<noteq> []"
  shows "Min (input_owners as w) \<in> input_owners as w"
  using assms by (intro Min_in) (simp_all add: input_owners_def)

lemma merge_inputs_same_owner:
  assumes "known w as" and "as \<noteq> []"
  shows "same_owner (merge_inputs as w) a b \<longleftrightarrow>
    same_owner w a b \<or> (\<exists>x \<in> set as. same_owner w a x) \<and> (\<exists>y \<in> set as. same_owner w b y)"
proof -
  let ?E = "input_owners as w"
  have m: "Some (Min ?E) \<in> Some ` ?E" using Min_input_owners [OF assms(2)] by blast
  show ?thesis
    unfolding input_owners_iff [OF assms(1), symmetric]
    unfolding same_owner_def own_merge_inputs
    using m by (cases "own w a"; cases "own w b"; auto)
qed

lemma ran_merge_inputs:
  assumes "known w as" and "as \<noteq> []"
  shows "ran (own (merge_inputs as w)) = (ran (own w) - input_owners as w) \<union> {Min (input_owners as w)}"
proof -
  obtain x where x: "x \<in> set as" "own w x \<in> Some ` input_owners as w"
    using assms by (cases as) (auto simp: known_def input_owners_def)
  show ?thesis
  proof (intro set_eqI iffI)
    fix e assume "e \<in> ran (own (merge_inputs as w))"
    then show "e \<in> (ran (own w) - input_owners as w) \<union> {Min (input_owners as w)}"
      by (auto simp: ran_def own_merge_inputs split: if_splits)
  next
    fix e assume "e \<in> (ran (own w) - input_owners as w) \<union> {Min (input_owners as w)}"
    then consider "e \<in> ran (own w)" "e \<notin> input_owners as w" | "e = Min (input_owners as w)" by blast
    then show "e \<in> ran (own (merge_inputs as w))"
    proof cases
      case 1
      then obtain a where "own w a = Some e" by (auto simp: ran_def)
      then have "own (merge_inputs as w) a = Some e" using 1 by (auto simp: own_merge_inputs)
      then show ?thesis by (rule ranI)
    next
      case 2
      then have "own (merge_inputs as w) x = Some e" using x by (simp add: own_merge_inputs)
      then show ?thesis by (rule ranI)
    qed
  qed
qed

lemma input_owners_ran: "known w as \<Longrightarrow> input_owners as w \<subseteq> ran (own w)"
  by (auto simp: known_def list_all_iff input_owners_def intro: ranI)

lemma merge_inputs_inv:
  assumes "owners_inv w" and "known w as" and "as \<noteq> []" and "0 \<notin> input_owners as w"
  shows "owners_inv (merge_inputs as w)"
proof -
  let ?E = "input_owners as w" and ?m = "Min (input_owners as w)"
  have m: "?m \<in> ?E" by (rule Min_input_owners [OF assms(3)])
  have sub: "?E \<subseteq> ran (own w)" by (rule input_owners_ran [OF assms(2)])
  have "own_ids (merge_inputs as w) = own_ids w - (?E - {?m})" "own_cnt (merge_inputs as w) = own_cnt w"
    by (simp_all add: merge_inputs_def Let_def)
  then show ?thesis
    using assms(1,4) m sub ran_merge_inputs [OF assms(2,3)] by (auto simp: owners_inv_def)
qed

lemma assign_step:
  assumes "own w a = Some 0" and "e = own_cnt w + 1" and "own_cnt w < e" and "e \<noteq> 0" and "\<And>b. own w b \<noteq> Some e"
    and "owners_inv w' \<and>
      (\<forall>b. ((own w)(a \<mapsto> e)) b \<noteq> Some 0 \<or> b \<notin> set as \<longrightarrow> own w' b = ((own w)(a \<mapsto> e)) b) \<and>
      (\<forall>b \<in> set as. ((own w)(a \<mapsto> e)) b = Some 0 \<longrightarrow>
         (\<exists>f. own w' b = Some f \<and> e < f \<and> (\<forall>c. own w' c = Some f \<longrightarrow> c = b)))"
  shows "owners_inv w' \<and>
    (\<forall>b. own w b \<noteq> Some 0 \<or> b \<notin> set (a # as) \<longrightarrow> own w' b = own w b) \<and>
    (\<forall>b \<in> set (a # as). own w b = Some 0 \<longrightarrow>
       (\<exists>f. own w' b = Some f \<and> own_cnt w < f \<and> (\<forall>c. own w' c = Some f \<longrightarrow> c = b)))"
proof (intro conjI allI ballI impI)
  let ?m = "(own w)(a \<mapsto> e)"
  have keep: "own w' b = ?m b" if "?m b \<noteq> Some 0 \<or> b \<notin> set as" for b using assms(6) that by blast
  have fresh: "\<exists>f. own w' b = Some f \<and> e < f \<and> (\<forall>c. own w' c = Some f \<longrightarrow> c = b)" if "b \<in> set as" "?m b = Some 0" for b
    using assms(6) that by blast
  show "owners_inv w'" using assms(6) by blast
  fix b
  show "own w' b = own w b" if "own w b \<noteq> Some 0 \<or> b \<notin> set (a # as)"
  proof -
    have "b \<noteq> a" using that assms(1) by auto
    then show ?thesis using that keep [of b] by auto
  qed
  assume b: "b \<in> set (a # as)" "own w b = Some 0"
  show "\<exists>f. own w' b = Some f \<and> own_cnt w < f \<and> (\<forall>c. own w' c = Some f \<longrightarrow> c = b)"
  proof (cases "b = a")
    case True
    have "c = a" if "own w' c = Some e" for c
    proof (rule ccontr)
      assume "c \<noteq> a"
      then show False using that keep [of c] fresh [of c] assms(5) [of c] by auto
    qed
    moreover have "own w' a = Some e" using keep [of a] assms(4) by simp
    ultimately show ?thesis using True assms(3) by (intro exI [of _ e]) blast
  next
    case False
    then obtain f where f: "own w' b = Some f" "e < f" "\<forall>c. own w' c = Some f \<longrightarrow> c = b"
      using fresh [of b] b by auto
    have "own_cnt w < f" using assms(3) f(2) by (rule less_trans)
    with f show ?thesis by blast
  qed
qed

lemma assign_outputs_run:
  assumes "owners_inv w" and "known w as" and "unat (own_cnt w) + length as < 2 ^ 32"
  shows "owners_inv (assign_outputs as w) \<and>
    (\<forall>a. own w a \<noteq> Some 0 \<or> a \<notin> set as \<longrightarrow> own (assign_outputs as w) a = own w a) \<and>
    (\<forall>a \<in> set as. own w a = Some 0 \<longrightarrow>
       (\<exists>e. own (assign_outputs as w) a = Some e \<and> own_cnt w < e \<and>
          (\<forall>b. own (assign_outputs as w) b = Some e \<longrightarrow> b = a)))"
  using assms
proof (induction as arbitrary: w)
  case (Cons a as)
  show ?case
  proof (cases "own w a = Some 0")
    case False
    let ?w = "w\<lparr>own_touched := own_touched w @ [own_cnt w]\<rparr>"
    have "owners_inv ?w" "known ?w as" using Cons.prems by (simp_all add: owners_inv_def known_def)
    then show ?thesis using Cons.IH [of ?w] Cons.prems False by auto
  next
    case True
    let ?e = "own_cnt w + 1"
    let ?w = "w\<lparr>own := (own w)(a \<mapsto> ?e), own_ids := insert ?e (own_ids w), own_cnt := ?e,
      own_touched := own_touched w @ [?e]\<rparr>"
    define w1 where "w1 = ?w"
    have e: "unat ?e = unat (own_cnt w) + 1"
      using Cons.prems(3) by (simp add: unat_word_ariths)
    then have less: "own_cnt w < ?e" and e0: "?e \<noteq> 0" by (auto simp: word_less_nat_alt)
    have new: "own w b \<noteq> Some ?e" for b
    proof
      assume "own w b = Some ?e"
      then have "?e \<in> own_ids w" using Cons.prems(1) e0 by (auto simp: owners_inv_def intro: ranI)
      then have "?e \<le> own_cnt w" using Cons.prems(1) by (auto simp: owners_inv_def)
      with less show False by simp
    qed
    have "ran ((own w)(a \<mapsto> ?e)) - {0} = insert ?e (ran (own w) - {0})"
      using True e0 by (auto simp: ran_def) (metis option.inject)
    moreover have "x \<le> ?e" if "x \<le> own_cnt w" for x using that less by simp
    ultimately have "owners_inv ?w"
      using Cons.prems(1) by (auto simp: owners_inv_def)
    moreover have "known ?w as" using Cons.prems(2) by (auto simp: known_def list_all_iff)
    ultimately have wf: "owners_inv w1" "known w1 as" unfolding w1_def .
    have w1: "own w1 = (own w)(a \<mapsto> ?e)" "own_cnt w1 = ?e" by (simp_all add: w1_def)
    have step: "assign_outputs (a # as) w = assign_outputs as w1" using True by (simp add: Let_def w1_def)
    have "unat (own_cnt w1) + length as < 2 ^ 32" using Cons.prems(3) e w1 by simp
    from Cons.IH [OF wf this] show ?thesis
      unfolding step w1 by (rule assign_step [OF True refl less e0 new])
  qed
qed simp

end
