(* ===== verification/Time_Range.thy ===== *)
theory Time_Range
  imports Sql_Text
begin

text \<open>
  Times: \<open>getTimeString\<close> of \<open>TransactionProcess.h\<close>, which prints a block time in UTC for MySQL, the
  calendar functions of the C library it and \<open>unzipBlocks\<close> use (\<open>gmtime\<close>, \<open>mktime\<close>, \<open>strftime\<close> with the
  format of the program), and \<open>timerange.h\<close>: the tables of the months the analysis runs over and
  \<open>set_parameter\<close>, which writes the parameter files of one month.

  The text files the program reads and writes are a map from the path to the contents.
\<close>

section \<open>The calendar of the C library\<close>

record tm =
  tm_year :: int
  tm_mon :: nat
  tm_mday :: nat
  tm_hour :: nat
  tm_min :: nat
  tm_sec :: nat

definition leap_year :: "nat \<Rightarrow> bool" where
  "leap_year y \<longleftrightarrow> y mod 4 = 0 \<and> y mod 100 \<noteq> 0 \<or> y mod 400 = 0"

definition year_days :: "nat \<Rightarrow> nat" where
  "year_days y = (if leap_year y then 366 else 365)"

definition month_lengths :: "nat \<Rightarrow> nat list" where
  "month_lengths y = [31, if leap_year y then 29 else 28, 31, 30, 31, 30, 31, 31, 30, 31, 30, 31]"

function year_loop :: "nat \<Rightarrow> nat \<Rightarrow> nat \<times> nat" where
  "year_loop d y = (if d < year_days y then (y, d) else year_loop (d - year_days y) (y + 1))"
  by pat_completeness auto
termination
  by (relation "measure fst") (auto simp: year_days_def split: if_splits)

declare year_loop.simps [simp del]

lemmas year_loop_eval = year_loop.simps [of "numeral d" "numeral y"] for d y

fun month_loop :: "nat \<Rightarrow> nat \<Rightarrow> nat list \<Rightarrow> nat \<times> nat" where
  "month_loop d m [] = (m, d)"
| "month_loop d m (l # ls) = (if d < l then (m, d) else month_loop (d - l) (m + 1) ls)"

text \<open>\<open>gmtime\<close> of a time since the epoch, and \<open>mktime\<close> where the local time is \<open>tz\<close> seconds ahead of UTC.\<close>

definition gmtime :: "nat \<Rightarrow> tm" where
  "gmtime t =
    (let (y, d) = year_loop (t div 86400) 1970;
         (m, r) = month_loop d 0 (month_lengths y);
         s = t mod 86400
     in \<lparr>tm_year = int y - 1900, tm_mon = m, tm_mday = r + 1,
         tm_hour = s div 3600, tm_min = s div 60 mod 60, tm_sec = s mod 60\<rparr>)"

definition mktime :: "int \<Rightarrow> tm \<Rightarrow> int" where
  "mktime tz t =
    (let y = nat (tm_year t + 1900);
         days = sum_list (map year_days [1970..<y]) + sum_list (take (tm_mon t) (month_lengths y)) + tm_mday t - 1
     in int (days * 86400 + tm_hour t * 3600 + tm_min t * 60 + tm_sec t) - tz)"

text \<open>\<open>strftime\<close> with \<open>%Y-%m-%d %H:%M:%S\<close>.\<close>

definition strftime :: "tm \<Rightarrow> string" where
  "strftime t = decimal_int (tm_year t + 1900) @ ''-'' @ dec2 (tm_mon t + 1) @ ''-'' @ dec2 (tm_mday t) @ '' '' @
     dec2 (tm_hour t) @ '':'' @ dec2 (tm_min t) @ '':'' @ dec2 (tm_sec t)"


section \<open>Times as text\<close>

text \<open>
  The buffer of \<open>getTimeString\<close> takes 20 characters with the terminating zero. \<open>None\<close> is the case of a
  longer text, after which the contents of the buffer are indeterminate.
\<close>

definition getTimeString :: "unit32 \<Rightarrow> string option" where
  "getTimeString ts =
    (let text_p = strftime (gmtime (unat ts))
     in if length text_p + 1 \<le> 20 then Some text_p else None)"


section \<open>The months of the analysis\<close>

definition YEAR :: "int list" where
  "YEAR =
    [2009, 2009, 2009, 2009, 2009, 2009, 2009, 2009, 2009, 2009, 2009, 2009,
     2010, 2010, 2010, 2010, 2010, 2010, 2010, 2010, 2010, 2010, 2010, 2010,
     2011, 2011, 2011, 2011, 2011, 2011, 2011, 2011, 2011, 2011, 2011, 2011,
     2012, 2012, 2012, 2012, 2012, 2012, 2012, 2012, 2012, 2012, 2012, 2012,
     2013, 2013, 2013, 2013, 2013, 2013, 2013, 2013, 2013, 2013, 2013, 2013,
     2014, 2014, 2014, 2014, 2014, 2014, 2014, 2014, 2014, 2014, 2014, 2014]"

definition MONTH :: "int list" where
  "MONTH =
    [1, 2, 3, 4, 5, 6, 7, 8, 9, 10, 11, 12,
     1, 2, 3, 4, 5, 6, 7, 8, 9, 10, 11, 12,
     1, 2, 3, 4, 5, 6, 7, 8, 9, 10, 11, 12,
     1, 2, 3, 4, 5, 6, 7, 8, 9, 10, 11, 12,
     1, 2, 3, 4, 5, 6, 7, 8, 9, 10, 11, 12,
     1, 2, 3, 4, 5, 6, 7, 8, 9, 10, 11, 12]"

definition DAY :: "int list" where
  "DAY =
    [31, 28, 31, 30, 31, 30, 31, 31, 30, 31, 30, 31,
     31, 28, 31, 30, 31, 30, 31, 31, 30, 31, 30, 31,
     31, 28, 31, 30, 31, 30, 31, 31, 30, 31, 30, 31,
     31, 29, 31, 30, 31, 30, 31, 31, 30, 31, 30, 31,
     31, 28, 31, 30, 31, 30, 31, 31, 30, 31, 30, 31,
     31, 28, 31, 30, 31, 30, 31, 31, 30, 31, 30, 31]"

definition RANGE :: "string list" where
  "RANGE =
    [''2009-01'', ''2009-02'', ''2009-03'', ''2009-04'', ''2009-05'', ''2009-06'',
     ''2009-07'', ''2009-08'', ''2009-09'', ''2009-10'', ''2009-11'', ''2009-12'',
     ''2010-01'', ''2010-02'', ''2010-03'', ''2010-04'', ''2010-05'', ''2010-06'',
     ''2010-07'', ''2010-08'', ''2010-09'', ''2010-10'', ''2010-11'', ''2010-12'',
     ''2011-01'', ''2011-02'', ''2011-03'', ''2011-04'', ''2011-05'', ''2011-06'',
     ''2011-07'', ''2011-08'', ''2011-09'', ''2011-10'', ''2011-11'', ''2011-12'',
     ''2012-01'', ''2012-02'', ''2012-03'', ''2012-04'', ''2012-05'', ''2012-06'',
     ''2012-07'', ''2012-08'', ''2012-09'', ''2012-10'', ''2012-11'', ''2012-12'',
     ''2013-01'', ''2013-02'', ''2013-03'', ''2013-04'', ''2013-05'', ''2013-06'',
     ''2013-07'', ''2013-08'', ''2013-09'', ''2013-10'', ''2013-11'', ''2013-12'',
     ''2014-01'', ''2014-02'', ''2014-03'', ''2014-04'', ''2014-05'', ''2014-06'',
     ''2014-07'', ''2014-08'', ''2014-09'', ''2014-10'', ''2014-11'', ''2014-12'']"

definition BEFORE :: "string list" where
  "BEFORE =
    [''2008-10-31-00-00-00'', ''2008-11-30-00-00-00'', ''2008-12-31-00-00-00'',
     ''2009-01-31-00-00-00'', ''2009-02-28-00-00-00'', ''2009-03-31-00-00-00'',
     ''2009-04-30-00-00-00'', ''2009-05-31-00-00-00'', ''2009-06-30-00-00-00'',
     ''2009-07-31-00-00-00'', ''2009-08-31-00-00-00'', ''2009-09-30-00-00-00'',
     ''2009-10-31-00-00-00'', ''2009-11-30-00-00-00'', ''2009-12-31-00-00-00'',
     ''2010-01-31-00-00-00'', ''2010-02-28-00-00-00'', ''2010-03-31-00-00-00'',
     ''2010-04-30-00-00-00'', ''2010-05-31-00-00-00'', ''2010-06-30-00-00-00'',
     ''2010-07-31-00-00-00'', ''2010-08-31-00-00-00'', ''2010-09-30-00-00-00'',
     ''2010-10-31-00-00-00'', ''2010-11-30-00-00-00'', ''2010-12-31-00-00-00'',
     ''2011-01-31-00-00-00'', ''2011-02-28-00-00-00'', ''2011-03-31-00-00-00'',
     ''2011-04-30-00-00-00'', ''2011-05-31-00-00-00'', ''2011-06-30-00-00-00'',
     ''2011-07-31-00-00-00'', ''2011-08-31-00-00-00'', ''2011-09-30-00-00-00'',
     ''2011-10-31-00-00-00'', ''2011-11-30-00-00-00'', ''2011-12-31-00-00-00'',
     ''2012-01-31-00-00-00'', ''2012-02-29-00-00-00'', ''2012-03-31-00-00-00'',
     ''2012-04-30-00-00-00'', ''2012-05-31-00-00-00'', ''2012-06-30-00-00-00'',
     ''2012-07-31-00-00-00'', ''2012-08-31-00-00-00'', ''2012-09-30-00-00-00'',
     ''2012-10-31-00-00-00'', ''2012-11-30-00-00-00'', ''2012-12-31-00-00-00'',
     ''2013-01-31-00-00-00'', ''2013-02-28-00-00-00'', ''2013-03-31-00-00-00'',
     ''2013-04-30-00-00-00'', ''2013-05-31-00-00-00'', ''2013-06-30-00-00-00'',
     ''2013-07-31-00-00-00'', ''2013-08-31-00-00-00'', ''2013-09-30-00-00-00'',
     ''2013-10-31-00-00-00'', ''2013-11-30-00-00-00'', ''2013-12-31-00-00-00'',
     ''2014-01-31-00-00-00'', ''2014-02-28-00-00-00'', ''2014-03-31-00-00-00'',
     ''2014-04-30-00-00-00'', ''2014-05-31-00-00-00'', ''2014-06-30-00-00-00'',
     ''2014-07-31-00-00-00'', ''2014-08-31-00-00-00'', ''2014-09-30-00-00-00'']"

definition AFTER :: "string list" where
  "AFTER =
    [''2009-01-01-00-00-00'', ''2009-02-01-00-00-00'', ''2009-03-01-00-00-00'',
     ''2009-04-01-00-00-00'', ''2009-05-01-00-00-00'', ''2009-06-01-00-00-00'',
     ''2009-07-01-00-00-00'', ''2009-08-01-00-00-00'', ''2009-09-01-00-00-00'',
     ''2009-10-01-00-00-00'', ''2009-11-01-00-00-00'', ''2009-12-01-00-00-00'',
     ''2010-01-01-00-00-00'', ''2010-02-01-00-00-00'', ''2010-03-01-00-00-00'',
     ''2010-04-01-00-00-00'', ''2010-05-01-00-00-00'', ''2010-06-01-00-00-00'',
     ''2010-07-01-00-00-00'', ''2010-08-01-00-00-00'', ''2010-09-01-00-00-00'',
     ''2010-10-01-00-00-00'', ''2010-11-01-00-00-00'', ''2010-12-01-00-00-00'',
     ''2011-01-01-00-00-00'', ''2011-02-01-00-00-00'', ''2011-03-01-00-00-00'',
     ''2011-04-01-00-00-00'', ''2011-05-01-00-00-00'', ''2011-06-01-00-00-00'',
     ''2011-07-01-00-00-00'', ''2011-08-01-00-00-00'', ''2011-09-01-00-00-00'',
     ''2011-10-01-00-00-00'', ''2011-11-01-00-00-00'', ''2011-12-01-00-00-00'',
     ''2012-01-01-00-00-00'', ''2012-02-01-00-00-00'', ''2012-03-01-00-00-00'',
     ''2012-04-01-00-00-00'', ''2012-05-01-00-00-00'', ''2012-06-01-00-00-00'',
     ''2012-07-01-00-00-00'', ''2012-08-01-00-00-00'', ''2012-09-01-00-00-00'',
     ''2012-10-01-00-00-00'', ''2012-11-01-00-00-00'', ''2012-12-01-00-00-00'',
     ''2013-01-01-00-00-00'', ''2013-02-01-00-00-00'', ''2013-03-01-00-00-00'',
     ''2013-04-01-00-00-00'', ''2013-05-01-00-00-00'', ''2013-06-01-00-00-00'',
     ''2013-07-01-00-00-00'', ''2013-08-01-00-00-00'', ''2013-09-01-00-00-00'',
     ''2013-10-01-00-00-00'', ''2013-11-01-00-00-00'', ''2013-12-01-00-00-00'',
     ''2014-01-01-00-00-00'', ''2014-02-01-00-00-00'', ''2014-03-01-00-00-00'',
     ''2014-04-01-00-00-00'', ''2014-05-01-00-00-00'', ''2014-06-01-00-00-00'',
     ''2014-07-01-00-00-00'', ''2014-08-01-00-00-00'', ''2014-09-01-00-00-00'',
     ''2014-10-01-00-00-00'', ''2014-11-01-00-00-00'', ''2014-12-01-00-00-00'']"

text \<open>Paths are written with slashes; \<open>path\<close> puts the backslashes of the source.\<close>

definition path :: "string \<Rightarrow> string" where
  "path s = map (\<lambda>c. if c = CHR ''/'' then CHR 0x5C else c) s"

type_synonym files = "string \<Rightarrow> string option"

abbreviation newline :: string where
  "newline \<equiv> [CHR 0x0A]"

definition set_parameter :: "int \<Rightarrow> files \<Rightarrow> files option" where
  "set_parameter i files =
    (if 0 \<le> i \<and> i < 72 then
       let k = nat i;
           unzip_1 = decimal_int (YEAR ! k) @ newline @ decimal_int (MONTH ! k) @ newline @
             decimal_int (DAY ! k) @ newline;
           statistic = RANGE ! k @ newline @ BEFORE ! k @ newline @ AFTER ! k @ newline
       in Some (files(path ''H:/para/1.unzip_1.txt'' \<mapsto> unzip_1, path ''H:/para/5.statistic.txt'' \<mapsto> statistic))
     else None)"


section \<open>The calendar is consistent\<close>

lemma year_loop_run:
  "year_loop d y = (y', r) \<Longrightarrow> y \<le> y' \<and> r < year_days y' \<and> d = sum_list (map year_days [y..<y']) + r"
proof (induction d y rule: year_loop.induct)
  case (1 d y)
  show ?case
  proof (cases "d < year_days y")
    case True
    then show ?thesis using 1(2) by (simp add: year_loop.simps [of d y])
  next
    case False
    then have step: "y + 1 \<le> y' \<and> r < year_days y' \<and> d - year_days y = sum_list (map year_days [y + 1..<y']) + r"
      using 1 by (simp add: year_loop.simps [of d y])
    with False have "d = year_days y + sum_list (map year_days [y + 1..<y']) + r" by linarith
    with step show ?thesis by (simp add: upt_conv_Cons)
  qed
qed

lemma month_loop_run:
  "month_loop d m ls = (m', r) \<Longrightarrow> d < sum_list ls \<Longrightarrow>
     m \<le> m' \<and> m' < m + length ls \<and> r < ls ! (m' - m) \<and> d = sum_list (take (m' - m) ls) + r"
proof (induction d m ls rule: month_loop.induct)
  case (2 d m l ls)
  show ?case
  proof (cases "d < l")
    case False
    then have step: "m + 1 \<le> m'" "m' < m + 1 + length ls" "r < ls ! (m' - (m + 1))"
        "d - l = sum_list (take (m' - (m + 1)) ls) + r"
      using 2 by simp_all
    obtain k where k: "m' = m + 1 + k" using step(1) le_Suc_ex by blast
    have "d = l + sum_list (take k ls) + r" using step(4) k False by simp
    with step k show ?thesis by simp
  qed (use 2 in simp)
qed simp

lemma sum_month_lengths: "sum_list (month_lengths y) = year_days y"
  by (simp add: month_lengths_def year_days_def)

lemma length_month_lengths [simp]: "length (month_lengths y) = 12"
  by (simp add: month_lengths_def)

lemma month_length_le: "m < 12 \<Longrightarrow> month_lengths y ! m \<le> 31"
  by (auto simp: month_lengths_def less_Suc_eq numeral_eq_Suc)

lemma clock_fields: "(s :: nat) div 3600 * 3600 + s div 60 mod 60 * 60 + s mod 60 = s"
proof -
  have "s div 3600 = s div 60 div 60" by (simp add: div_mult2_eq [symmetric])
  then show ?thesis
    using div_mult_mod_eq [of "s div 60" 60] div_mult_mod_eq [of s 60] by linarith
qed

lemma gmtime_fields:
  assumes "gmtime t = g"
  shows "0 \<le> tm_year g + 1900 \<and> 1970 \<le> tm_year g + 1900 \<and> tm_mon g < 12 \<and>
    1 \<le> tm_mday g \<and> tm_mday g \<le> month_lengths (nat (tm_year g + 1900)) ! tm_mon g \<and>
    tm_hour g < 24 \<and> tm_min g < 60 \<and> tm_sec g < 60 \<and> mktime 0 g = int t"
proof -
  obtain y d where yd: "year_loop (t div 86400) 1970 = (y, d)" by fastforce
  obtain m r where mr: "month_loop d 0 (month_lengths y) = (m, r)" by fastforce
  note Y = year_loop_run [OF yd]
  note M = month_loop_run [OF mr, unfolded sum_month_lengths, OF conjunct1 [OF conjunct2 [OF Y]]]
  have g: "g = \<lparr>tm_year = int y - 1900, tm_mon = m, tm_mday = r + 1,
      tm_hour = t mod 86400 div 3600, tm_min = t mod 86400 div 60 mod 60, tm_sec = t mod 86400 mod 60\<rparr>"
    using assms yd mr by (simp add: gmtime_def Let_def)
  have time: "t = t div 86400 * 86400 + t mod 86400 div 3600 * 3600 + t mod 86400 div 60 mod 60 * 60 + t mod 86400 mod 60"
    using clock_fields [of "t mod 86400"] div_mult_mod_eq [of t 86400] by linarith
  have days: "sum_list (map year_days [1970..<y]) + sum_list (take m (month_lengths y)) + (r + 1) - 1 = t div 86400"
    using Y M by simp
  have "mktime 0 g = int t"
    by (simp only: mktime_def g tm.select_convs Let_def diff_add_cancel nat_int days) (simp flip: time)
  moreover have "t mod 86400 div 3600 < 24" by (simp add: less_mult_imp_div_less)
  ultimately show ?thesis
    using Y M by (simp add: g)
qed

lemma strftime_inject:
  assumes "strftime g = strftime h"
    and "1000 \<le> tm_year g + 1900" "tm_year g + 1900 < 10000" "1000 \<le> tm_year h + 1900" "tm_year h + 1900 < 10000"
    and "tm_mon g < 12" "tm_mon h < 12" "tm_mday g < 100" "tm_mday h < 100"
    and "tm_hour g < 100" "tm_hour h < 100" "tm_min g < 100" "tm_min h < 100" "tm_sec g < 100" "tm_sec h < 100"
  shows "g = h"
  using assms by (cases g; cases h) (simp add: strftime_def dec2_inject decimal_int_def)

lemma sum_year_days_ge: "365 * (y' - y) \<le> sum_list (map year_days [y..<y'])"
proof (induction y')
  case (Suc y')
  have "365 \<le> year_days y'" by (simp add: year_days_def)
  with Suc show ?case by (cases "y \<le> y'") (auto simp: Suc_diff_le)
qed simp

lemma gmtime_year:
  assumes "t < 2 ^ 32"
  shows "tm_year (gmtime t) + 1900 \<le> 2106"
proof -
  obtain y d where yd: "year_loop (t div 86400) 1970 = (y, d)" by fastforce
  obtain m r where mr: "month_loop d 0 (month_lengths y) = (m, r)" by fastforce
  have "365 * (y - 1970) \<le> t div 86400"
    using year_loop_run [OF yd] sum_year_days_ge [of y 1970] by linarith
  moreover have "t div 86400 \<le> 49710" using assms by (simp add: div_le_mono [of t 4294967295 86400, simplified])
  ultimately have "y \<le> 2106" by linarith
  then show ?thesis using yd mr by (simp add: gmtime_def Let_def)
qed

lemma length_decimal_4:
  assumes "1000 \<le> n" "n < 10000"
  shows "length (decimal n) = 4"
proof -
  have "n div 10 \<ge> 100" "n div 100 \<ge> 10" "n div 1000 < 10" "n div 1000 > 0"
    using assms by linarith+
  then show ?thesis
    using assms decimal.simps [of n] decimal.simps [of "n div 10"] decimal.simps [of "n div 100"] decimal.simps [of "n div 1000"]
    by (simp add: div_mult2_eq [symmetric])
qed

lemma gmtime_unit32:
  fixes ts :: unit32
  defines "g \<equiv> gmtime (unat ts)"
  shows "1970 \<le> tm_year g + 1900" "tm_year g + 1900 \<le> 2106" "tm_mon g < 12" "tm_mday g < 100"
    "tm_hour g < 100" "tm_min g < 100" "tm_sec g < 100" "mktime 0 g = int (unat ts)"
proof -
  note F = gmtime_fields [OF refl, of "unat ts", folded g_def]
  have "unat ts < 2 ^ 32" using unsigned_less [of ts] by simp
  then show "tm_year g + 1900 \<le> 2106" using gmtime_year by (simp add: g_def)
  show "tm_mday g < 100"
    using F month_length_le [of "tm_mon g" "nat (tm_year g + 1900)"] by linarith
qed (use gmtime_fields [OF refl, of "unat ts", folded g_def] in simp_all)

lemma getTimeString_strftime: "getTimeString ts = Some (strftime (gmtime (unat ts)))"
  using length_decimal_4 [of "nat (tm_year (gmtime (unat ts)) + 1900)"] gmtime_unit32(1,2) [of ts]
  by (simp add: getTimeString_def strftime_def decimal_int_def)

lemma quote_free_dec2 [simp]: "quote_free (dec2 n)"
proof -
  have "digit k \<noteq> CHR 0x27" if "k < 10" for k
    using is_digit_digit [OF that] by (auto simp: is_digit_def)
  from this [of "n div 10 mod 10"] this [of "n mod 10"] show ?thesis
    by (simp add: quote_free_def dec2_def eq_commute)
qed

lemma quote_free_decimal_int [simp]: "quote_free (decimal_int i)"
  using quote_free_decimal by (auto simp: decimal_int_def quote_free_def)

lemma quote_free_strftime: "quote_free (strftime g)"
  using quote_free_dec2 quote_free_decimal_int by (auto simp: strftime_def quote_free_def)

definition month_end :: "nat \<Rightarrow> string" where
  "month_end k =
    (let y = 2008 + k div 12; m = k mod 12
     in decimal y @ ''-'' @ dec2 (m + 1) @ ''-'' @ dec2 (month_lengths y ! m) @ ''-00-00-00'')"

lemma tables_calendar:
  "YEAR = map (\<lambda>i. int (2009 + i div 12)) [0..<72] \<and>
   MONTH = map (\<lambda>i. int (i mod 12 + 1)) [0..<72] \<and>
   DAY = map (\<lambda>i. int (month_lengths (2009 + i div 12) ! (i mod 12))) [0..<72] \<and>
   RANGE = map (\<lambda>i. decimal (2009 + i div 12) @ ''-'' @ dec2 (i mod 12 + 1)) [0..<72] \<and>
   BEFORE = map (\<lambda>i. month_end (i + 9)) [0..<72] \<and>
   AFTER = map (\<lambda>i. decimal (2009 + i div 12) @ ''-'' @ dec2 (i mod 12 + 1) @ ''-01-00-00-00'') [0..<72]"
  by (simp add: YEAR_def MONTH_def DAY_def RANGE_def BEFORE_def AFTER_def month_end_def month_lengths_def leap_year_def
      dec2_def decimal_eval digit_chars upt_eval Let_def)


section \<open>Properties\<close>

text \<open>
  C27. Every block time has a text: it fits the buffer of 20 characters exactly, contains no quote,
  and determines the time, so that no two times are stored as the same value.
\<close>

theorem getTimeString_correct:
  "\<exists>s. getTimeString ts = Some s \<and> length s = 19 \<and> quote_free s \<and>
     (\<forall>ts'. getTimeString ts' = Some s \<longrightarrow> ts' = ts)"
proof (intro exI conjI allI impI)
  show "getTimeString ts = Some (strftime (gmtime (unat ts)))" by (rule getTimeString_strftime)
  show "length (strftime (gmtime (unat ts))) = 19"
    using length_decimal_4 [of "nat (tm_year (gmtime (unat ts)) + 1900)"] gmtime_unit32(1,2) [of ts]
    by (simp add: strftime_def decimal_int_def)
  show "quote_free (strftime (gmtime (unat ts)))" by (rule quote_free_strftime)
  fix ts' assume "getTimeString ts' = Some (strftime (gmtime (unat ts)))"
  then have "gmtime (unat ts') = gmtime (unat ts)"
    using gmtime_unit32 [of ts] gmtime_unit32 [of ts']
    by (intro strftime_inject) (simp_all add: getTimeString_strftime)
  then show "ts' = ts"
    using gmtime_unit32(8) [of ts] gmtime_unit32(8) [of ts'] by (metis of_nat_eq_iff word_unat_eq_iff)
qed

theorem getTimeString_correct_witness:
  "getTimeString 1231006505 = Some ''2009-01-03 18:15:05'' \<and>
   (\<exists>s. getTimeString 1231006505 = Some s \<and> length s = 19)"
proof
  show "getTimeString 1231006505 = Some ''2009-01-03 18:15:05''"
    by (simp add: getTimeString_def gmtime_def strftime_def year_loop_eval year_days_def leap_year_def month_lengths_def
        decimal_int_def dec2_def decimal_eval digit_chars)
  show "\<exists>s. getTimeString 1231006505 = Some s \<and> length s = 19"
    using getTimeString_correct [of 1231006505] by blast
qed


end
