(* ===== verification/Transaction_Process.thy ===== *)
theory Transaction_Process
  imports Entity_Process Time_Range
begin

text \<open>
  \<open>TransactionProcess.h\<close>: a parsed transaction is stored in LevelDB under its hash, with the address
  and the value of every input (looked up in the stored transaction it spends) and of every output;
  the table \<open>addressinfo\<close> is updated for each of them, the entities are brought up to date, and one row
  is added to \<open>txinfo\<close>.

  LevelDB is a parameter here, a pair of functions \<open>ld_get\<close> and \<open>ld_put\<close>; the locale \<open>kv_store\<close> is the
  contract of \<open>DB::Get\<close> and \<open>DB::Put\<close>, and the theory \<open>Leveldb_Db\<close> provides it. The array \<open>value_c\<close>
  is written strictly from its start, so the model keeps the bytes written so far together with
  the size of the array: a write behind the array, and a read of bytes never written, are \<open>None\<close>.
\<close>

record 'kv leveldb =
  ld_get :: "bytes \<Rightarrow> 'kv \<Rightarrow> bytes option"
  ld_put :: "bytes \<Rightarrow> bytes \<Rightarrow> 'kv \<Rightarrow> 'kv"

record ('db, 'kv) tstate = "'db state" +
  tx_db :: 'kv

section \<open>The tables\<close>

definition insert_txinfo :: "Transaction \<Rightarrow> unit64 \<Rightarrow> unit64 \<Rightarrow> unit64 \<Rightarrow> string \<Rightarrow> string" where
  "insert_txinfo tx txfee invalue_sum outvalue_sum txtime_s =
     ''INSERT INTO txinfo VALUES(x'' @ quoted (hex_bytes (rev (tx_curhash tx))) @
     '','' @ quoted (decimal (unat (tx_txcounter tx))) @
     '','' @ quoted (decimal (unat (tx_blocknumber tx))) @
     '','' @ quoted txtime_s @
     '','' @ quoted (decimal (unat (tx_length tx))) @
     '','' @ quoted (decimal (unat txfee)) @
     '','' @ quoted (decimal (unat (tx_in_count tx))) @
     '','' @ quoted (decimal (unat invalue_sum)) @
     '','' @ quoted (decimal (unat (tx_out_count tx))) @
     '','' @ quoted (decimal (unat outvalue_sum)) @ '');''"

definition Transaction2MySQL ::
  "'db mysql \<Rightarrow> Transaction \<Rightarrow> unit64 \<Rightarrow> unit64 \<Rightarrow> string \<Rightarrow> ('db, 'm) state_scheme \<Rightarrow> ('db, 'm) state_scheme" where
  "Transaction2MySQL my tx invalue_sum outvalue_sum txtime_s st =
    (let invalue_sum = (if outvalue_sum > invalue_sum then outvalue_sum else invalue_sum);
         txfee = invalue_sum - outvalue_sum
     in mysql_query my (insert_txinfo tx txfee invalue_sum outvalue_sum txtime_s) st)"

definition coinbase_s :: string where
  "coinbase_s = ''3030303030303030303030303030303030303030''"

definition debit_address :: "bytes \<Rightarrow> unit64 \<Rightarrow> string \<Rightarrow> string" where
  "debit_address address_b v txtime_s =
     ''UPDATE addressinfo SET inval=inval+'' @ decimal (unat v) @ '',lasttm='' @ quoted txtime_s @
     '',bal=outval-inval,incnt=incnt+1 WHERE address=x'' @ quoted (hex_bytes address_b) @ '';''"

definition input_transaction_mysql ::
  "'db mysql \<Rightarrow> bytes \<Rightarrow> unit64 \<Rightarrow> string \<Rightarrow> ('db, 'm) state_scheme \<Rightarrow> ('db, 'm) state_scheme" where
  "input_transaction_mysql my address_b v txtime_s st =
    (if hex_bytes address_b = coinbase_s then st
     else mysql_query my (debit_address address_b v txtime_s) st)"

definition credit_address :: "bytes \<Rightarrow> unit64 \<Rightarrow> string \<Rightarrow> string" where
  "credit_address address_b v txtime_s =
     ''INSERT INTO addressinfo(address,outval,firsttm,lasttm,bal) VALUES(x'' @ quoted (hex_bytes address_b) @
     '','' @ quoted (decimal (unat v)) @ '','' @ quoted txtime_s @ '','' @ quoted txtime_s @
     '',outval-inval) ON DUPLICATE KEY UPDATE outval=outval+'' @ decimal (unat v) @
     '',lasttm='' @ quoted txtime_s @ '',bal=outval-inval,outcnt=outcnt+1;''"

definition raise_maxbal :: "bytes \<Rightarrow> string" where
  "raise_maxbal address_b =
     ''UPDATE addressinfo SET maxbal=bal WHERE bal>maxbal AND address=x'' @ quoted (hex_bytes address_b) @ '';''"

definition output_transaction_mysql ::
  "'db mysql \<Rightarrow> bytes \<Rightarrow> unit64 \<Rightarrow> string \<Rightarrow> ('db, 'm) state_scheme \<Rightarrow> ('db, 'm) state_scheme" where
  "output_transaction_mysql my address_b v txtime_s st =
    (let st = mysql_query my (credit_address address_b v txtime_s) st
     in mysql_query my (raise_maxbal address_b) st)"


section \<open>Stored transactions\<close>

definition coinbase_b :: bytes where
  "coinbase_b =
    [0x00, 0x00, 0x00, 0x00, 0x00, 0x00, 0x00, 0x00,
     0x00, 0x00, 0x00, 0x00, 0x00, 0x00, 0x00, 0x00,
     0x00, 0x00, 0x00, 0x00, 0x00, 0x00, 0x00, 0x00,
     0x00, 0x00, 0x00, 0x00, 0x00, 0x00, 0x00, 0x00]"

definition ReadOutput :: "'kv leveldb \<Rightarrow> bytes \<Rightarrow> unit32 \<Rightarrow> 'kv \<Rightarrow> bytes option" where
  "ReadOutput ld txhash index kv =
    (if txhash = coinbase_b then Some (replicate 20 48 @ le_bytes 8 (0 :: unit64))
     else do {
       let pretx = (case ld_get ld txhash kv of None \<Rightarrow> [] | Some value_s \<Rightarrow> value_s);
       counter \<leftarrow> slice pretx 16 4;
       let incounter = (le_word counter :: unit32);
       slice pretx (20 + unat (incounter * 28) + 4 + unat (index * 28)) 28
     })"

definition value_length :: "Transaction \<Rightarrow> unit32" where
  "value_length tx = 4 + 4 + 4 + 4 + 4 + tx_in_count tx * (20 + 8) + 4 + tx_out_count tx * (20 + 8)"

definition append_to :: "nat \<Rightarrow> bytes \<Rightarrow> bytes \<Rightarrow> bytes option" where
  "append_to capacity value_c src = (if length value_c + length src \<le> capacity then Some (value_c @ src) else None)"

fun process_inputs ::
  "'db mysql \<Rightarrow> 'kv leveldb \<Rightarrow> nat \<Rightarrow> string \<Rightarrow> Txin list \<Rightarrow> ('db, 'kv, 'm) tstate_scheme \<Rightarrow> bytes \<Rightarrow>
     ((unit64 \<times> bytes list) \<times> ('db, 'kv, 'm) tstate_scheme \<times> bytes) option" where
  "process_inputs my ld capacity txtime_s [] st value_c = Some ((0, []), st, value_c)"
| "process_inputs my ld capacity txtime_s (txin # ins) st value_c = do {
     preout \<leftarrow> ReadOutput ld (rev (in_hash txin)) (in_index txin) (tx_db st);
     value_c \<leftarrow> append_to capacity value_c preout;
     let preaddress = take 20 preout;
     let invalue = (le_word (drop 20 preout) :: unit64);
     let st = input_transaction_mysql my preaddress invalue txtime_s st;
     ((invalue_sum, input_address_bv), st, value_c) \<leftarrow> process_inputs my ld capacity txtime_s ins st value_c;
     Some ((invalue + invalue_sum, preaddress # input_address_bv), st, value_c)
   }"

fun process_outputs ::
  "'db mysql \<Rightarrow> nat \<Rightarrow> string \<Rightarrow> Txout list \<Rightarrow> ('db, 'm) state_scheme \<Rightarrow> bytes \<Rightarrow>
     ((unit64 \<times> bytes list) \<times> ('db, 'm) state_scheme \<times> bytes) option" where
  "process_outputs my capacity txtime_s [] st value_c = Some ((0, []), st, value_c)"
| "process_outputs my capacity txtime_s (txout # outs) st value_c = do {
     value_c \<leftarrow> append_to capacity value_c (out_address txout);
     value_c \<leftarrow> append_to capacity value_c (le_bytes 8 (out_val txout));
     let st = output_transaction_mysql my (out_address txout) (out_val txout) txtime_s st;
     ((outvalue_sum, output_address_bv), st, value_c) \<leftarrow> process_outputs my capacity txtime_s outs st value_c;
     Some ((out_val txout + outvalue_sum, out_address txout # output_address_bv), st, value_c)
   }"

definition first_elements :: "unit32 \<Rightarrow> 'a list \<Rightarrow> 'a list option" where
  "first_elements n xs = (if unat n \<le> length xs then Some (take (unat n) xs) else None)"

definition TransactionProcess ::
  "'db mysql \<Rightarrow> 'kv leveldb \<Rightarrow> Transaction \<Rightarrow> ('db, 'kv, 'm) tstate_scheme \<Rightarrow> ('db, 'kv, 'm) tstate_scheme option" where
  "TransactionProcess my ld tx st = do {
     let value_len = value_length tx;
     let capacity = unat (value_len + 1);
     value_c \<leftarrow> append_to capacity [] (le_bytes 4 (tx_blocknumber tx));
     value_c \<leftarrow> append_to capacity value_c (le_bytes 4 (tx_txtime tx));
     value_c \<leftarrow> append_to capacity value_c (le_bytes 4 (tx_txcounter tx));
     value_c \<leftarrow> append_to capacity value_c (le_bytes 4 (tx_length tx));
     let key_s = rev (tx_curhash tx);
     txtime_s \<leftarrow> getTimeString (tx_txtime tx);
     value_c \<leftarrow> append_to capacity value_c (le_bytes 4 (tx_in_count tx));
     ins \<leftarrow> first_elements (tx_in_count tx) (tx_ins tx);
     ((invalue_sum, input_address_bv), st, value_c) \<leftarrow> process_inputs my ld capacity txtime_s ins st value_c;
     st \<leftarrow> input_entity_mysql my input_address_bv st;
     value_c \<leftarrow> append_to capacity value_c (le_bytes 4 (tx_out_count tx));
     outs \<leftarrow> first_elements (tx_out_count tx) (tx_outs tx);
     ((outvalue_sum, output_address_bv), st, value_c) \<leftarrow> process_outputs my capacity txtime_s outs st value_c;
     st \<leftarrow> output_entity_mysql my output_address_bv st;
     value_s \<leftarrow> slice value_c 0 (unat value_len);
     let st = st\<lparr>tx_db := ld_put ld key_s value_s (tx_db st)\<rparr>;
     Some (Transaction2MySQL my tx invalue_sum outvalue_sum txtime_s st)
   }"


section \<open>The contract of LevelDB\<close>

text \<open>
  \<open>room\<close> counts the writes the store still accepts (LevelDB numbers them with 56 bits). While there is
  room, a value put under a key of ordinary size is the one \<open>Get\<close> returns, and other keys keep theirs.
\<close>

locale kv_store =
  fixes get :: "bytes \<Rightarrow> 'kv \<Rightarrow> bytes option"
    and put :: "bytes \<Rightarrow> bytes \<Rightarrow> 'kv \<Rightarrow> 'kv"
    and room :: "'kv \<Rightarrow> nat"
  assumes get_put: "0 < room kv \<Longrightarrow> length k < 2 ^ 31 \<Longrightarrow> length v < 2 ^ 31 \<Longrightarrow> length k' < 2 ^ 31 \<Longrightarrow>
      get k' (put k v kv) = (if k' = k then Some v else get k' kv)"
    and room_put: "0 < room kv \<Longrightarrow> length k < 2 ^ 31 \<Longrightarrow> length v < 2 ^ 31 \<Longrightarrow> room (put k v kv) = room kv - 1"
begin

lemma get_after_puts:
  assumes "length kvs \<le> room kv" and "list_all (\<lambda>(k, v). length k < 2 ^ 31 \<and> length v < 2 ^ 31) kvs"
    and "length k < 2 ^ 31"
  shows "get k (fold (\<lambda>(k, v). put k v) kvs kv) = (case map_of (rev kvs) k of None \<Rightarrow> get k kv | Some v \<Rightarrow> Some v)"
  using assms
proof (induction kvs arbitrary: kv)
  case (Cons x kvs)
  obtain k' v where x: "x = (k', v)" by fastforce
  have "length kvs \<le> room (put k' v kv)" using Cons.prems x room_put [of kv k' v] by simp
  then show ?case
    using Cons x get_put [of kv k' v k] by (simp split: option.splits) (auto simp: map_add_def split: option.splits)
qed simp

end


section \<open>What is stored\<close>

definition out_entry :: "Txout \<Rightarrow> bytes" where
  "out_entry t = out_address t @ le_bytes 8 (out_val t)"

definition stored_value :: "Transaction \<Rightarrow> bytes list \<Rightarrow> bytes" where
  "stored_value tx preouts =
     le_bytes 4 (tx_blocknumber tx) @ le_bytes 4 (tx_txtime tx) @ le_bytes 4 (tx_txcounter tx) @
     le_bytes 4 (tx_length tx) @ le_bytes 4 (tx_in_count tx) @ concat preouts @
     le_bytes 4 (tx_out_count tx) @ concat (map out_entry (tx_outs tx))"

lemma more_mysql_query [simp]:
  "state.more (mysql_query my q st) = state.more st" "entitychange_v (mysql_query my q st) = entitychange_v st"
  "entitycnt (mysql_query my q st) = entitycnt st" "conn (mysql_query my q st) = my_exec my q (conn st)"
  by (simp_all add: mysql_query_def)

lemma tx_db_more: "state.more st = state.more st' \<Longrightarrow> tx_db st = tx_db st'"
  by (cases st; cases st') simp

lemma tx_db_mysql_query [simp]: "tx_db (mysql_query my q st) = tx_db st"
  by (rule tx_db_more) simp

lemma more_input_transaction [simp]: "state.more (input_transaction_mysql my a v t st) = state.more st"
  by (simp add: input_transaction_mysql_def)

lemma more_output_transaction [simp]: "state.more (output_transaction_mysql my a v t st) = state.more st"
  by (simp add: output_transaction_mysql_def)

lemma more_fetch_entity: "fetch_entity my q st = Some (e, st') \<Longrightarrow> state.more st' = state.more st"
  by (auto simp: fetch_entity_def bind_eq_Some_conv Let_def)

lemma more_input_entities: "input_entities my as st = Some (es, st') \<Longrightarrow> state.more st' = state.more st"
proof (induction as arbitrary: st es)
  case (Cons a as)
  then show ?case by (fastforce simp: bind_eq_Some_conv dest: more_fetch_entity)
qed simp

lemma more_merge_entities: "state.more (merge_entities my e es st) = state.more st"
  by (induction my e es st rule: merge_entities.induct) (simp_all add: Let_def)

lemma more_input_entity: "input_entity_mysql my as st = Some st' \<Longrightarrow> state.more st' = state.more st"
  by (auto simp: input_entity_mysql_def bind_eq_Some_conv Let_def more_merge_entities
      dest: more_fetch_entity more_input_entities split: if_splits)

lemma more_output_entity: "output_entity_mysql my as st = Some st' \<Longrightarrow> state.more st' = state.more st"
proof (induction as arbitrary: st)
  case (Cons a as)
  then show ?case
    by (auto simp: bind_eq_Some_conv Let_def insert_entity_mysql_def dest!: more_fetch_entity split: if_splits)
qed simp

lemma append_to_Some: "append_to c v src = Some r \<longleftrightarrow> length v + length src \<le> c \<and> r = v @ src"
  by (auto simp: append_to_def)

lemma length_ReadOutput: "ReadOutput ld h i kv = Some p \<Longrightarrow> length p = 28"
  by (auto simp: ReadOutput_def bind_eq_Some_conv Let_def length_slice split: if_splits dest: length_slice)

lemma process_inputs_shape:
  "process_inputs my ld c t ins st v = Some ((s, as), st', v') \<Longrightarrow>
     \<exists>preouts. v' = v @ concat preouts \<and> length preouts = length ins \<and> list_all (\<lambda>p. length p = 28) preouts \<and>
       list_all2 (\<lambda>txin p. ReadOutput ld (rev (in_hash txin)) (in_index txin) (tx_db st) = Some p) ins preouts \<and>
       s = sum_list (map (\<lambda>p. le_word (drop 20 p)) preouts) \<and> as = map (take 20) preouts \<and>
       state.more st' = state.more st"
proof (induction ins arbitrary: st v s as)
  case (Cons txin ins)
  then obtain p s' as' where p: "ReadOutput ld (rev (in_hash txin)) (in_index txin) (tx_db st) = Some p"
    and rest: "process_inputs my ld c t ins (input_transaction_mysql my (take 20 p) (le_word (drop 20 p)) t st) (v @ p) =
      Some ((s', as'), st', v')" and s: "s = le_word (drop 20 p) + s'" "as = take 20 p # as'"
    by (auto simp: bind_eq_Some_conv append_to_Some Let_def)
  have db: "tx_db (input_transaction_mysql my (take 20 p) (le_word (drop 20 p)) t st) = tx_db st"
    by (rule tx_db_more) simp
  obtain q where q: "v' = (v @ p) @ concat q" "length q = length ins" "list_all (\<lambda>p. length p = 28) q"
      "list_all2 (\<lambda>txin p. ReadOutput ld (rev (in_hash txin)) (in_index txin) (tx_db st) = Some p) ins q"
      "s' = sum_list (map (\<lambda>p. le_word (drop 20 p)) q)" "as' = map (take 20) q" "state.more st' = state.more st"
    using Cons.IH [OF rest] unfolding db by auto
  show ?case
    by (rule exI [of _ "p # q"]) (use p s q length_ReadOutput [OF p] in simp)
qed simp

lemma process_outputs_shape:
  "process_outputs my c t outs st v = Some ((s, as), st', v') \<Longrightarrow>
     v' = v @ concat (map out_entry outs) \<and> s = sum_list (map out_val outs) \<and> as = map out_address outs \<and>
     state.more st' = state.more st"
proof (induction outs arbitrary: st v s as)
  case (Cons u outs)
  from Cons.prems obtain s' as' where
    rest: "process_outputs my c t outs (output_transaction_mysql my (out_address u) (out_val u) t st)
      (v @ out_address u @ le_bytes 8 (out_val u)) = Some ((s', as'), st', v')"
    and "s = out_val u + s'" "as = out_address u # as'"
    by (auto simp: bind_eq_Some_conv append_to_Some Let_def)
  with Cons.IH [OF rest] show ?case by (simp add: out_entry_def)
qed simp

lemma slice_in_concat:
  assumes "list_all (\<lambda>p. length p = n) ps" and "i < length ps"
  shows "slice (concat ps) (i * n) n = Some (ps ! i)"
  using assms
proof (induction ps arbitrary: i)
  case (Cons p ps)
  show ?case
  proof (cases i)
    case 0
    then show ?thesis using Cons.prems by (simp add: slice_def)
  next
    case (Suc j)
    then have "slice (p @ concat ps) (length p + j * n) n = slice (concat ps) (j * n) n" by (simp only: slice_shift)
    then show ?thesis using Cons Suc by simp
  qed
qed simp

lemma length_concat_all: "list_all (\<lambda>p. length p = n) ps \<Longrightarrow> length (concat ps) = n * length ps"
  by (induction ps) simp_all

text \<open>An output of a stored transaction is found by its index.\<close>

lemma slice_skip: "length a = n \<Longrightarrow> slice (a @ b) (n + i) k = slice b i k"
  using slice_shift [of a b i k] by simp

lemma ReadOutput_stored:
  assumes get: "ld_get ld h kv = Some (stored_value tx preouts)" and h: "h \<noteq> coinbase_b"
    and pre: "list_all (\<lambda>p. length p = 28) preouts" "unat (tx_in_count tx) = length preouts"
    and outs: "list_all (\<lambda>t. length (out_address t) = 20) (tx_outs tx)" and i: "unat i < length (tx_outs tx)"
    and small: "28 * length preouts < 2 ^ 32" "28 * length (tx_outs tx) < 2 ^ 32"
  shows "ReadOutput ld h i kv = Some (out_entry (tx_outs tx ! unat i))"
proof -
  let ?ins = "concat preouts" and ?outs = "concat (map out_entry (tx_outs tx))"
  let ?head = "le_bytes 4 (tx_blocknumber tx) @ le_bytes 4 (tx_txtime tx) @ le_bytes 4 (tx_txcounter tx) @ le_bytes 4 (tx_length tx)"
  have ins: "length ?ins = 28 * length preouts" by (rule length_concat_all [OF pre(1)])
  have entries: "list_all (\<lambda>p. length p = 28) (map out_entry (tx_outs tx))"
    using outs by (simp add: list_all_iff out_entry_def)
  have v: "stored_value tx preouts = ?head @ le_bytes 4 (tx_in_count tx) @ ?ins @ le_bytes 4 (tx_out_count tx) @ ?outs"
    by (simp add: stored_value_def)
  have counter: "slice (stored_value tx preouts) 16 4 = Some (le_bytes 4 (tx_in_count tx))"
    unfolding v using slice_skip [of ?head 16 _ 0 4] by (simp add: slice_0)
  have "unat (tx_in_count tx * 28) = 28 * length preouts"
    using pre(2) small(1) by (simp add: unat_word_ariths mult.commute)
  moreover have "unat (i * 28) = 28 * unat i"
    using i small(2) by (simp add: unat_word_ariths mult.commute)
  moreover have "slice (stored_value tx preouts) (16 + (4 + (28 * length preouts + (4 + unat i * 28)))) 28 =
      Some (out_entry (tx_outs tx ! unat i))"
    unfolding v using slice_in_concat [OF entries, of "unat i"] i ins by (simp only: slice_skip length_append length_le_bytes length_map nth_map)
  ultimately show ?thesis
    using get h counter by (simp add: ReadOutput_def le_word_le_bytes ac_simps)
qed


text \<open>What a completed call has written to LevelDB.\<close>

lemma value_length_small:
  assumes counts: "unat (tx_in_count tx) = length (tx_ins tx)" "unat (tx_out_count tx) = length (tx_outs tx)"
    and small: "28 * (length (tx_ins tx) + length (tx_outs tx)) + 24 < 2 ^ 31"
  shows "unat (value_length tx) = 28 * (length (tx_ins tx) + length (tx_outs tx)) + 24"
    and "unat (value_length tx + 1) = 28 * (length (tx_ins tx) + length (tx_outs tx)) + 24 + 1"
proof -
  have "tx_in_count tx = word_of_nat (length (tx_ins tx))" "tx_out_count tx = word_of_nat (length (tx_outs tx))"
    unfolding counts [symmetric] by simp_all
  then have "value_length tx = word_of_nat (28 * (length (tx_ins tx) + length (tx_outs tx)) + 24)"
    by (simp add: value_length_def algebra_simps)
  then show n: "unat (value_length tx) = 28 * (length (tx_ins tx) + length (tx_outs tx)) + 24"
    using small by (simp only: unat_of_nat) simp
  show "unat (value_length tx + 1) = 28 * (length (tx_ins tx) + length (tx_outs tx)) + 24 + 1"
    using n small by (simp add: unat_word_ariths)
qed

lemma TransactionProcess_stored:
  assumes run: "TransactionProcess my ld tx st = Some st'"
    and counts: "unat (tx_in_count tx) = length (tx_ins tx)" "unat (tx_out_count tx) = length (tx_outs tx)"
    and outs: "list_all (\<lambda>t. length (out_address t) = 20) (tx_outs tx)"
    and small: "28 * (length (tx_ins tx) + length (tx_outs tx)) + 24 < 2 ^ 31"
  shows "\<exists>preouts. tx_db st' = ld_put ld (rev (tx_curhash tx)) (stored_value tx preouts) (tx_db st) \<and>
    length preouts = length (tx_ins tx) \<and> list_all (\<lambda>p. length p = 28) preouts \<and>
    list_all2 (\<lambda>txin p. ReadOutput ld (rev (in_hash txin)) (in_index txin) (tx_db st) = Some p) (tx_ins tx) preouts \<and>
    length (stored_value tx preouts) < 2 ^ 31"
proof -
  let ?head = "le_bytes 4 (tx_blocknumber tx) @ le_bytes 4 (tx_txtime tx) @ le_bytes 4 (tx_txcounter tx) @
    le_bytes 4 (tx_length tx) @ le_bytes 4 (tx_in_count tx)"
  let ?cap = "unat (value_length tx + 1)"
  obtain t isum ias st1 v1 st2 osum oas st3 v3 st4 value_s where
    ins: "process_inputs my ld ?cap t (tx_ins tx) st ?head = Some ((isum, ias), st1, v1)"
    and ent1: "input_entity_mysql my ias st1 = Some st2"
    and outs': "process_outputs my ?cap t (tx_outs tx) st2 (v1 @ le_bytes 4 (tx_out_count tx)) = Some ((osum, oas), st3, v3)"
    and ent2: "output_entity_mysql my oas st3 = Some st4"
    and value_s: "slice v3 0 (unat (value_length tx)) = Some value_s"
    and st': "st' = Transaction2MySQL my tx isum osum t (st4\<lparr>tx_db := ld_put ld (rev (tx_curhash tx)) value_s (tx_db st4)\<rparr>)"
    using run counts
    by (auto simp: TransactionProcess_def bind_eq_Some_conv append_to_Some first_elements_def Let_def)
  obtain preouts where pre: "v1 = ?head @ concat preouts" "length preouts = length (tx_ins tx)"
      "list_all (\<lambda>p. length p = 28) preouts"
      "list_all2 (\<lambda>txin p. ReadOutput ld (rev (in_hash txin)) (in_index txin) (tx_db st) = Some p) (tx_ins tx) preouts"
      "state.more st1 = state.more st"
    using process_inputs_shape [OF ins] by auto
  have v3: "v3 = stored_value tx preouts" "state.more st3 = state.more st2"
    using process_outputs_shape [OF outs'] pre(1) by (simp_all add: stored_value_def)
  have entries: "list_all (\<lambda>p. length p = 28) (map out_entry (tx_outs tx))"
    using outs by (simp add: list_all_iff out_entry_def)
  have len: "length (stored_value tx preouts) = 28 * (length (tx_ins tx) + length (tx_outs tx)) + 24"
    using length_concat_all [OF pre(3)] length_concat_all [OF entries] pre(2) by (simp add: stored_value_def)
  have "value_s = stored_value tx preouts"
    using value_s v3(1) len value_length_small(1) [OF counts small] by (simp add: slice_def split: if_splits)
  moreover have "tx_db st4 = tx_db st"
    using more_output_entity [OF ent2] v3(2) more_input_entity [OF ent1] pre(5) by (intro tx_db_more) simp
  ultimately show ?thesis
    using st' pre len small by (auto simp: Transaction2MySQL_def Let_def)
qed


section \<open>The ledger\<close>

text \<open>
  The columns of \<open>addressinfo\<close> that \<open>TransactionProcess.h\<close> maintains, and what its statements do to the
  row of an address. MySQL evaluates the assignments of an \<open>UPDATE\<close> from left to right, so \<open>bal\<close> is
  computed with the new \<open>inval\<close> or \<open>outval\<close>. The columns an \<open>INSERT\<close> leaves out have the defaults \<open>dflt\<close>
  of the schema.
\<close>

record account =
  inval :: int
  outval :: int
  bal :: int
  maxbal :: int
  incnt :: int
  outcnt :: int
  firsttm :: string
  lasttm :: string

definition debit :: "int \<Rightarrow> string \<Rightarrow> account \<Rightarrow> account" where
  "debit v t r = r\<lparr>inval := inval r + v, lasttm := t, bal := outval r - (inval r + v), incnt := incnt r + 1\<rparr>"

definition credit :: "account \<Rightarrow> int \<Rightarrow> string \<Rightarrow> account option \<Rightarrow> account" where
  "credit dflt v t row =
    (case row of
       None \<Rightarrow> dflt\<lparr>outval := v, firsttm := t, lasttm := t, bal := v - inval dflt\<rparr>
     | Some r \<Rightarrow> r\<lparr>outval := outval r + v, lasttm := t, bal := outval r + v - inval r, outcnt := outcnt r + 1\<rparr>)"

definition raise :: "account \<Rightarrow> account" where
  "raise r = (if bal r > maxbal r then r\<lparr>maxbal := bal r\<rparr> else r)"

lemma coinbase_text: "hex_bytes a = coinbase_s \<longleftrightarrow> a = coinbase_h"
proof -
  have "coinbase_s = hex_bytes coinbase_h" by code_simp
  then show ?thesis by (metis hex_bytes_inject)
qed

text \<open>What one input and one output do to the ledger; \<open>coinbase_h\<close> stands for new coins and has no account.\<close>

type_synonym ledger = "bytes \<Rightarrow> account option"

definition preout_value :: "bytes \<Rightarrow> unit64" where
  "preout_value p = le_word (drop 20 p)"

definition post_input :: "string \<Rightarrow> bytes \<Rightarrow> ledger \<Rightarrow> ledger" where
  "post_input t p A =
    (let a = take 20 p
     in if a = coinbase_h then A else A(a := map_option (debit (uint (preout_value p)) t) (A a)))"

definition post_output :: "account \<Rightarrow> string \<Rightarrow> Txout \<Rightarrow> ledger \<Rightarrow> ledger" where
  "post_output dflt t o1 A =
     A(out_address o1 \<mapsto> raise (credit dflt (uint (out_val o1)) t (A (out_address o1))))"

definition add_unowned :: "bytes list \<Rightarrow> owners \<Rightarrow> owners" where
  "add_unowned as w = w\<lparr>own := (\<lambda>a. if a \<in> set as \<and> own w a = None then Some 0 else own w a)\<rparr>"

locale ledger_tables = entity_tables my ent ids
  for my :: "'db mysql" and ent and ids +
  fixes acct :: "'db \<Rightarrow> bytes \<Rightarrow> account option"
    and dflt :: account
  assumes rows: "acct db a = None \<longleftrightarrow> ent db a = None"
    and debit_law: "length a = 20 \<Longrightarrow> quote_free t \<Longrightarrow>
      acct (my_exec my (debit_address a v t) db) = (acct db)(a := map_option (debit (uint v) t) (acct db a)) \<and>
      ent (my_exec my (debit_address a v t) db) = ent db \<and> ids (my_exec my (debit_address a v t) db) = ids db"
    and credit_law: "length a = 20 \<Longrightarrow> quote_free t \<Longrightarrow>
      acct (my_exec my (credit_address a v t) db) = (acct db)(a \<mapsto> credit dflt (uint v) t (acct db a)) \<and>
      ent (my_exec my (credit_address a v t) db) = (\<lambda>b. if b = a \<and> ent db b = None then Some 0 else ent db b) \<and>
      ids (my_exec my (credit_address a v t) db) = ids db"
    and raise_law: "length a = 20 \<Longrightarrow>
      acct (my_exec my (raise_maxbal a) db) = (acct db)(a := map_option raise (acct db a)) \<and>
      ent (my_exec my (raise_maxbal a) db) = ent db \<and> ids (my_exec my (raise_maxbal a) db) = ids db"
    and txinfo_law: "quote_free t \<Longrightarrow>
      acct (my_exec my (insert_txinfo tx fee vi vo t) db) = acct db \<and>
      ent (my_exec my (insert_txinfo tx fee vi vo t) db) = ent db \<and> ids (my_exec my (insert_txinfo tx fee vi vo t) db) = ids db"
    and entity_acct: "length a = 20 \<Longrightarrow>
      q \<in> {select_entity a, select_entity' a, merge_update e f, delete_entity f, assign_entity e a, insert_entity e,
        refresh_entity e} \<Longrightarrow> acct (my_exec my q db) = acct db"
begin

lemma acct_fetch: "length a = 20 \<Longrightarrow> q = select_entity a \<or> q = select_entity' a \<Longrightarrow>
    fetch_entity my q st = Some (e, st') \<Longrightarrow> acct (conn st') = acct (conn st)"
  using entity_acct [of a q] by (auto simp: fetch_entity_def bind_eq_Some_conv Let_def)

lemma acct_input_entities:
  "input_entities my as st = Some (es, st') \<Longrightarrow> acct (conn st') = acct (conn st)"
proof (induction as arbitrary: st es)
  case (Cons a as)
  from Cons.prems obtain b e st1 es' where "slice a 0 20 = Some b"
      "fetch_entity my (select_entity b) st = Some (e, st1)" "input_entities my as st1 = Some (es', st')"
    by (auto simp: bind_eq_Some_conv)
  then show ?case using Cons.IH acct_fetch [of b "select_entity b" st e st1] length_slice by fastforce
qed simp

lemma acct_exec:
  "acct (my_exec my (merge_update e f) db) = acct db" "acct (my_exec my (delete_entity f) db) = acct db"
  "acct (my_exec my (insert_entity e) db) = acct db" "acct (my_exec my (refresh_entity e) db) = acct db"
  "length a = 20 \<Longrightarrow> acct (my_exec my (assign_entity e a) db) = acct db"
  using entity_acct [of "replicate 20 0" _ e f] entity_acct [of a _ e] by simp_all

lemma acct_merge_entities: "acct (conn (merge_entities my e es st)) = acct (conn st)"
  by (induction es arbitrary: st rule: induct_list012) (simp_all add: Let_def acct_exec)

lemma acct_input_entity:
  assumes "input_entity_mysql my as st = Some st'"
  shows "acct (conn st') = acct (conn st)"
proof (cases "length as = 1")
  case True
  then obtain b where b: "slice (as ! 0) 0 20 = Some b" using assms by (auto simp: input_entity_mysql_def bind_eq_Some_conv)
  show ?thesis
    using assms True b acct_fetch [OF length_slice [OF b], of "select_entity b" st]
    by (auto simp: input_entity_mysql_def bind_eq_Some_conv split: if_splits)
next
  case False
  then obtain es st1 where "input_entities my as st = Some (es, st1)"
      "acct (conn st') = acct (conn st1)"
    using assms by (auto simp: input_entity_mysql_def bind_eq_Some_conv Let_def acct_merge_entities)
  then show ?thesis using acct_input_entities by simp
qed

lemma acct_output_entity: "output_entity_mysql my as st = Some st' \<Longrightarrow> acct (conn st') = acct (conn st)"
proof (induction as arbitrary: st)
  case (Cons a as)
  from Cons.prems obtain b e st1 st2 where b: "slice a 0 20 = Some b"
      "fetch_entity my (select_entity' b) st = Some (e, st1)" "output_entity_mysql my as st2 = Some st'"
      "acct (conn st2) = acct (conn st1)"
    by (auto simp: bind_eq_Some_conv Let_def insert_entity_mysql_def acct_exec length_slice split: if_splits)
  then show ?case using Cons.IH acct_fetch [OF length_slice [OF b(1)], of "select_entity' b" st e st1] by simp
qed simp

lemma process_inputs_run:
  "list_all2 (\<lambda>txin p. ReadOutput ld (rev (in_hash txin)) (in_index txin) (tx_db st) = Some p) ins preouts \<Longrightarrow>
   length v + 28 * length ins \<le> c \<Longrightarrow> quote_free t \<Longrightarrow>
     \<exists>st'. process_inputs my ld c t ins st v =
         Some ((sum_list (map preout_value preouts), map (take 20) preouts), st', v @ concat preouts) \<and>
       acct (conn st') = fold (post_input t) preouts (acct (conn st)) \<and>
       owners_of ent ids st' = owners_of ent ids st \<and> state.more st' = state.more st"
proof (induction ins arbitrary: st v preouts)
  case (Cons txin ins)
  then obtain p ps where preouts: "preouts = p # ps"
      and p: "ReadOutput ld (rev (in_hash txin)) (in_index txin) (tx_db st) = Some p"
      and ps: "list_all2 (\<lambda>txin p. ReadOutput ld (rev (in_hash txin)) (in_index txin) (tx_db st) = Some p) ins ps"
    by (auto simp: list_all2_Cons1)
  have len: "length p = 28" by (rule length_ReadOutput [OF p])
  let ?st = "input_transaction_mysql my (take 20 p) (preout_value p) t st"
  have db: "tx_db ?st = tx_db st" by (rule tx_db_more) simp
  have one: "acct (conn ?st) = post_input t p (acct (conn st))" "owners_of ent ids ?st = owners_of ent ids st"
    using len Cons.prems(3) debit_law [of "take 20 p" t "preout_value p" "conn st"]
    by (simp_all add: input_transaction_mysql_def post_input_def Let_def coinbase_text owners_of_def)
  obtain st' where st': "process_inputs my ld c t ins ?st (v @ p) =
      Some ((sum_list (map preout_value ps), map (take 20) ps), st', (v @ p) @ concat ps)"
    "acct (conn st') = fold (post_input t) ps (acct (conn ?st))" "owners_of ent ids st' = owners_of ent ids ?st"
    "state.more st' = state.more ?st"
    using Cons.IH [of ?st ps "v @ p"] ps Cons.prems(2,3) len by (auto simp: db)
  then have "process_inputs my ld c t (txin # ins) st v =
      Some ((sum_list (map preout_value preouts), map (take 20) preouts), st', v @ concat preouts)"
    using p len Cons.prems(2) preouts by (simp add: append_to_def preout_value_def)
  then show ?case using st' one preouts by auto
qed simp

lemma process_outputs_run:
  "list_all (\<lambda>o1. length (out_address o1) = 20) outs \<Longrightarrow> length v + 28 * length outs \<le> c \<Longrightarrow> quote_free t \<Longrightarrow>
     \<exists>st'. process_outputs my c t outs st v =
         Some ((sum_list (map out_val outs), map out_address outs), st', v @ concat (map out_entry outs)) \<and>
       acct (conn st') = fold (post_output dflt t) outs (acct (conn st)) \<and>
       owners_of ent ids st' = add_unowned (map out_address outs) (owners_of ent ids st) \<and> state.more st' = state.more st"
proof (induction outs arbitrary: st v)
  case Nil
  then show ?case by (simp add: add_unowned_def owners_of_def)
next
  case (Cons o1 outs)
  let ?a = "out_address o1"
  let ?st = "output_transaction_mysql my ?a (out_val o1) t st"
  have a: "length ?a = 20" using Cons.prems by simp
  have one: "acct (conn ?st) = post_output dflt t o1 (acct (conn st))"
    "ent (conn ?st) = (\<lambda>b. if b = ?a \<and> ent (conn st) b = None then Some 0 else ent (conn st) b)"
    "ids (conn ?st) = ids (conn st)"
    using a Cons.prems(3) credit_law [of ?a t "out_val o1" "conn st"] raise_law [OF a]
    by (simp_all add: output_transaction_mysql_def post_output_def Let_def)
  obtain st' where st': "process_outputs my c t outs ?st (v @ out_entry o1) =
      Some ((sum_list (map out_val outs), map out_address outs), st', (v @ out_entry o1) @ concat (map out_entry outs))"
    "acct (conn st') = fold (post_output dflt t) outs (acct (conn ?st))"
    "owners_of ent ids st' = add_unowned (map out_address outs) (owners_of ent ids ?st)" "state.more st' = state.more ?st"
    using Cons.IH [of "v @ out_entry o1" ?st] Cons.prems by (auto simp: out_entry_def [of o1])
  have "process_outputs my c t (o1 # outs) st v =
      Some ((sum_list (map out_val (o1 # outs)), map out_address (o1 # outs)), st', v @ concat (map out_entry (o1 # outs)))"
    using st'(1) a Cons.prems(2) by (simp add: append_to_def out_entry_def [of o1])
  moreover have "add_unowned (map out_address outs) (owners_of ent ids ?st) =
      add_unowned (map out_address (o1 # outs)) (owners_of ent ids st)"
    using one by (auto simp: add_unowned_def owners_of_def output_transaction_mysql_def fun_eq_iff)
  ultimately show ?case using st' one by auto
qed

lemma TransactionProcess_run:
  assumes counts: "unat (tx_in_count tx) = length (tx_ins tx)" "unat (tx_out_count tx) = length (tx_outs tx)"
    and outs: "list_all (\<lambda>o1. length (out_address o1) = 20) (tx_outs tx)"
    and small: "28 * (length (tx_ins tx) + length (tx_outs tx)) + 24 < 2 ^ 31"
    and spent: "list_all2 (\<lambda>txin p. ReadOutput ld (rev (in_hash txin)) (in_index txin) (tx_db st) = Some p) (tx_ins tx) preouts"
    and some: "tx_ins tx \<noteq> []"
    and owned: "map (take 20) preouts = [coinbase_h] \<or> known (owners_of ent ids st) (map (take 20) preouts)"
    and t: "getTimeString (tx_txtime tx) = Some t"
  shows "\<exists>st'. TransactionProcess my ld tx st = Some st' \<and>
    acct (conn st') = fold (post_output dflt t) (tx_outs tx) (fold (post_input t) preouts (acct (conn st))) \<and>
    owners_of ent ids st' = assign_outputs (map out_address (tx_outs tx)) (add_unowned (map out_address (tx_outs tx))
      (if map (take 20) preouts = [coinbase_h] then owners_of ent ids st
       else merge_inputs (map (take 20) preouts) (owners_of ent ids st)))"
proof -
  let ?cap = "unat (value_length tx + 1)" and ?n = "28 * (length (tx_ins tx) + length (tx_outs tx)) + 24"
  let ?head = "le_bytes 4 (tx_blocknumber tx) @ le_bytes 4 (tx_txtime tx) @ le_bytes 4 (tx_txcounter tx) @
    le_bytes 4 (tx_length tx) @ le_bytes 4 (tx_in_count tx)"
  let ?outa = "map out_address (tx_outs tx)" and ?ina = "map (take 20) preouts"
  have len: "unat (value_length tx) = ?n" "?cap = ?n + 1"
    using value_length_small [OF counts small] by simp_all
  have qf: "quote_free t" using t by (auto simp: getTimeString_strftime quote_free_strftime)
  have "length ?head + 28 * length (tx_ins tx) \<le> ?cap" unfolding len by simp
  from process_inputs_run [OF spent this qf]
  obtain st1 where st1: "process_inputs my ld ?cap t (tx_ins tx) st ?head =
      Some ((sum_list (map preout_value preouts), ?ina), st1, ?head @ concat preouts)"
    "acct (conn st1) = fold (post_input t) preouts (acct (conn st))" "owners_of ent ids st1 = owners_of ent ids st"
    by blast
  have pre: "list_all (\<lambda>p. length p = 28) preouts" "length preouts = length (tx_ins tx)" "?ina \<noteq> []"
    using spent some by (auto simp: list_all_length list_all2_conv_all_nth dest: length_ReadOutput)
  obtain st2 where st2: "input_entity_mysql my ?ina st1 = Some st2"
    "owners_of ent ids st2 = (if ?ina = [coinbase_h] then owners_of ent ids st1 else merge_inputs ?ina (owners_of ent ids st1))"
    using input_entity_run [OF pre(3), of st1] owned st1(3) by auto
  let ?v2 = "(?head @ concat preouts) @ le_bytes 4 (tx_out_count tx)"
  have "length ?v2 + 28 * length (tx_outs tx) \<le> ?cap"
    unfolding len using length_concat_all [OF pre(1)] pre(2) by simp
  from process_outputs_run [OF outs this qf, of st2]
  obtain st3 where st3: "process_outputs my ?cap t (tx_outs tx) st2 ?v2 =
      Some ((sum_list (map out_val (tx_outs tx)), ?outa), st3, ?v2 @ concat (map out_entry (tx_outs tx)))"
    "acct (conn st3) = fold (post_output dflt t) (tx_outs tx) (acct (conn st2))"
    "owners_of ent ids st3 = add_unowned ?outa (owners_of ent ids st2)"
    by blast
  have "known (add_unowned ?outa w) ?outa" for w
    using outs by (auto simp: known_def add_unowned_def list_all_iff)
  then obtain st4 where st4: "output_entity_mysql my ?outa st3 = Some st4"
    "owners_of ent ids st4 = assign_outputs ?outa (owners_of ent ids st3)"
    using output_entity_run [of st3 ?outa] st3(3) by auto
  let ?v3 = "?v2 @ concat (map out_entry (tx_outs tx))"
  have "length ?v3 = ?n"
    using length_concat_all [OF pre(1)] pre(2) length_concat_all [of 28 "map out_entry (tx_outs tx)"] outs
    by (simp add: list_all_iff out_entry_def [abs_def])
  then have value_s: "slice ?v3 0 (unat (value_length tx)) = Some ?v3" unfolding len by (simp only: slice_0 take_all order_refl)
  let ?st5 = "st4\<lparr>tx_db := ld_put ld (rev (tx_curhash tx)) ?v3 (tx_db st4)\<rparr>"
  let ?st6 = "Transaction2MySQL my tx (sum_list (map preout_value preouts)) (sum_list (map out_val (tx_outs tx))) t ?st5"
  have room: "append_to ?cap (?head @ concat preouts) (le_bytes 4 (tx_out_count tx)) = Some ?v2"
    unfolding len append_to_def using length_concat_all [OF pre(1)] pre(2) by simp
  have head: "append_to ?cap [] (le_bytes 4 (tx_blocknumber tx)) = Some (le_bytes 4 (tx_blocknumber tx))"
    "append_to ?cap (le_bytes 4 (tx_blocknumber tx)) (le_bytes 4 (tx_txtime tx)) =
       Some (le_bytes 4 (tx_blocknumber tx) @ le_bytes 4 (tx_txtime tx))"
    "append_to ?cap (le_bytes 4 (tx_blocknumber tx) @ le_bytes 4 (tx_txtime tx)) (le_bytes 4 (tx_txcounter tx)) =
       Some (le_bytes 4 (tx_blocknumber tx) @ le_bytes 4 (tx_txtime tx) @ le_bytes 4 (tx_txcounter tx))"
    "append_to ?cap (le_bytes 4 (tx_blocknumber tx) @ le_bytes 4 (tx_txtime tx) @ le_bytes 4 (tx_txcounter tx)) (le_bytes 4 (tx_length tx)) =
       Some (le_bytes 4 (tx_blocknumber tx) @ le_bytes 4 (tx_txtime tx) @ le_bytes 4 (tx_txcounter tx) @ le_bytes 4 (tx_length tx))"
    "append_to ?cap (le_bytes 4 (tx_blocknumber tx) @ le_bytes 4 (tx_txtime tx) @ le_bytes 4 (tx_txcounter tx) @ le_bytes 4 (tx_length tx))
       (le_bytes 4 (tx_in_count tx)) = Some ?head"
    unfolding len append_to_def by simp_all
  have all: "first_elements (tx_in_count tx) (tx_ins tx) = Some (tx_ins tx)"
    "first_elements (tx_out_count tx) (tx_outs tx) = Some (tx_outs tx)"
    using counts by (simp_all add: first_elements_def)
  have "TransactionProcess my ld tx st = Some ?st6"
    by (simp only: TransactionProcess_def Let_def bind.bind_lunit prod.case t head all st1(1) st2(1) room st3(1) st4(1) value_s)
  moreover have "acct (conn ?st6) = acct (conn st4) \<and> owners_of ent ids ?st6 = owners_of ent ids st4"
    using qf txinfo_law by (simp add: Transaction2MySQL_def Let_def owners_of_def)
  ultimately show ?thesis
    using acct_output_entity [OF st4(1)] acct_input_entity [OF st2(1)] st1 st2 st3 st4 by auto
qed

end


section \<open>Sums over the ledger\<close>

definition paid_from :: "bytes list \<Rightarrow> bytes \<Rightarrow> int" where
  "paid_from preouts a = (\<Sum>p\<leftarrow>preouts. if take 20 p = a then uint (preout_value p) else 0)"

definition paid_to :: "Txout list \<Rightarrow> bytes \<Rightarrow> int" where
  "paid_to outs a = (\<Sum>o1\<leftarrow>outs. if out_address o1 = a then uint (out_val o1) else 0)"

definition total_in :: "ledger \<Rightarrow> bytes \<Rightarrow> int" where
  "total_in A a = (case A a of None \<Rightarrow> 0 | Some r \<Rightarrow> inval r)"

definition total_out :: "ledger \<Rightarrow> bytes \<Rightarrow> int" where
  "total_out A a = (case A a of None \<Rightarrow> 0 | Some r \<Rightarrow> outval r)"

definition account_ok :: "account \<Rightarrow> bool" where
  "account_ok r \<longleftrightarrow> bal r = outval r - inval r \<and> bal r \<le> maxbal r"

definition ledger_inv :: "ledger \<Rightarrow> bool" where
  "ledger_inv A \<longleftrightarrow> (\<forall>a r. A a = Some r \<longrightarrow> account_ok r)"

lemma raise_fields [simp]: "inval (raise r) = inval r" "outval (raise r) = outval r" "bal (raise r) = bal r"
    "bal r \<le> maxbal (raise r)"
  by (simp_all add: raise_def)

lemma post_input_totals:
  assumes "a \<noteq> coinbase_h" and "A a \<noteq> None"
  shows "post_input t p A a \<noteq> None"
    and "total_in (post_input t p A) a = total_in A a + (if take 20 p = a then uint (preout_value p) else 0)"
    and "total_out (post_input t p A) a = total_out A a"
  using assms by (auto simp: post_input_def total_in_def total_out_def debit_def Let_def)

lemma post_inputs_totals:
  "a \<noteq> coinbase_h \<Longrightarrow> A a \<noteq> None \<Longrightarrow>
     fold (post_input t) ps A a \<noteq> None \<and>
     total_in (fold (post_input t) ps A) a = total_in A a + paid_from ps a \<and>
     total_out (fold (post_input t) ps A) a = total_out A a"
proof (induction ps arbitrary: A)
  case (Cons p ps)
  note step = post_input_totals [where A = A and a = a and t = t and p = p, OF Cons.prems]
  show ?case
    using Cons.IH [where A = "post_input t p A", OF Cons.prems(1) step(1)] step(2,3) by (simp add: paid_from_def)
qed (simp add: paid_from_def)

lemma post_output_totals:
  assumes "inval dflt = 0"
  shows "total_in (post_output dflt t o1 A) a = total_in A a"
    and "total_out (post_output dflt t o1 A) a = total_out A a + (if out_address o1 = a then uint (out_val o1) else 0)"
  using assms by (auto simp: post_output_def total_in_def total_out_def credit_def split: option.splits)

lemma post_outputs_totals:
  assumes "inval dflt = 0"
  shows "total_in (fold (post_output dflt t) outs A) a = total_in A a"
    and "total_out (fold (post_output dflt t) outs A) a = total_out A a + paid_to outs a"
  by (induction outs arbitrary: A) (simp_all add: post_output_totals [OF assms] paid_to_def)

lemma account_ok_debit: "account_ok r \<Longrightarrow> 0 \<le> v \<Longrightarrow> account_ok (debit v t r)"
  by (simp add: account_ok_def debit_def)

lemma account_ok_credit: "account_ok (raise (credit dflt v t row))"
  by (simp add: account_ok_def credit_def split: option.split)

lemma post_input_inv: "ledger_inv A \<Longrightarrow> ledger_inv (post_input t p A)"
  by (auto simp: ledger_inv_def post_input_def Let_def account_ok_debit)

lemma post_output_inv: "ledger_inv A \<Longrightarrow> ledger_inv (post_output dflt t o1 A)"
  by (auto simp: ledger_inv_def post_output_def account_ok_credit)

lemma post_inv:
  assumes "ledger_inv A"
  shows "ledger_inv (fold (post_output dflt t) outs (fold (post_input t) ps A))"
proof -
  have "ledger_inv (fold (post_input t) ps A)"
    using assms by (induction ps arbitrary: A) (simp_all add: post_input_inv)
  then show ?thesis
    by (induction outs arbitrary: ps rule: rev_induct) (simp_all add: post_output_inv)
qed

end
