(* ===== verification/Sql_Model.thy ===== *)
theory Sql_Model
  imports Transaction_Process
begin

text \<open>
  A model of the database server for the statements \<open>EntityProcess.h\<close> and \<open>TransactionProcess.h\<close> send.
  It takes the text of a statement apart and applies it to the two tables, so that the laws the
  code relies on (\<open>ledger_tables\<close>) are proved here for the very texts the code builds: a wrong quote, a
  misplaced comma or a value that breaks out of its quotes would make the interpretation fail.
\<close>

section \<open>Taking a statement apart\<close>

fun strip :: "string \<Rightarrow> string \<Rightarrow> string option" where
  "strip [] s = Some s"
| "strip (c # p) [] = None"
| "strip (c # p) (d # s) = (if c = d then strip p s else None)"

lemma strip_append [simp]: "strip p (p @ s) = Some s"
  by (induction p) simp_all

definition take_quoted :: "string \<Rightarrow> (string \<times> string) option" where
  "take_quoted s =
    (case s of
       [] \<Rightarrow> None
     | c # r \<Rightarrow>
         if c = CHR 0x27
         then Some (takeWhile (\<lambda>c. c \<noteq> CHR 0x27) r, drop 1 (dropWhile (\<lambda>c. c \<noteq> CHR 0x27) r))
         else None)"

lemma take_quoted_quoted [simp]: "quote_free v \<Longrightarrow> take_quoted (quoted v @ r) = Some (v, r)"
proof -
  assume "quote_free v"
  then have "\<forall>c \<in> set v. c \<noteq> CHR 0x27" by (auto simp: quote_free_def)
  then show ?thesis by (simp add: take_quoted_def quoted_def takeWhile_append2 dropWhile_append2)
qed

definition take_number :: "string \<Rightarrow> (int \<times> string) option" where
  "take_number s = map_option (\<lambda>(n, r). (int n, r)) (scan_digits s)"

lemma take_number_decimal [simp]: "\<not> is_digit c \<Longrightarrow> take_number (decimal n @ c # r) = Some (int n, c # r)"
  by (simp add: take_number_def scan_digits_decimal)

definition entity_value :: "string \<Rightarrow> unit32" where
  "entity_value h = le_word (rev (unhex h))"

lemma entity_value_hex8 [simp]: "entity_value (hex8 e) = e"
  by (simp add: entity_value_def)

datatype statement =
    Select_Entity bytes
  | Merge_Entity unit32 unit32
  | Delete_Entity unit32
  | Assign_Entity unit32 bytes
  | Insert_Entity unit32
  | Debit bytes int string
  | Credit bytes int string
  | Raise_Maxbal bytes
  | Other

fun first_some :: "'a option list \<Rightarrow> 'a option" where
  "first_some [] = None"
| "first_some (Some x # xs) = Some x"
| "first_some (None # xs) = first_some xs"

definition parse_select :: "string \<Rightarrow> string \<Rightarrow> statement option" where
  "parse_select prefix s = do {
     s \<leftarrow> strip prefix s;
     (a, s) \<leftarrow> take_quoted s;
     Some (Select_Entity (unhex a))
   }"

definition parse_set_entity :: "string \<Rightarrow> statement option" where
  "parse_set_entity s = do {
     s \<leftarrow> strip ''UPDATE addressinfo SET entity = x'' s;
     (e, s) \<leftarrow> take_quoted s;
     s \<leftarrow> strip '' WHERE '' s;
     case strip ''entity = x'' s of
       Some s \<Rightarrow> do { (f, s) \<leftarrow> take_quoted s; Some (Merge_Entity (entity_value e) (entity_value f)) }
     | None \<Rightarrow> do {
         s \<leftarrow> strip ''address = x'' s;
         (a, s) \<leftarrow> take_quoted s;
         Some (Assign_Entity (entity_value e) (unhex a))
       }
   }"

definition parse_delete :: "string \<Rightarrow> statement option" where
  "parse_delete s = do {
     s \<leftarrow> strip ''DELETE FROM entityinfo WHERE entity = x'' s;
     (e, s) \<leftarrow> take_quoted s;
     Some (Delete_Entity (entity_value e))
   }"

definition parse_insert_entity :: "string \<Rightarrow> statement option" where
  "parse_insert_entity s = do {
     s \<leftarrow> strip ''INSERT INTO entityinfo(entity) VALUES(x'' s;
     (e, s) \<leftarrow> take_quoted s;
     Some (Insert_Entity (entity_value e))
   }"

definition parse_debit :: "string \<Rightarrow> statement option" where
  "parse_debit s = do {
     s \<leftarrow> strip ''UPDATE addressinfo SET inval=inval+'' s;
     (v, s) \<leftarrow> take_number s;
     s \<leftarrow> strip '',lasttm='' s;
     (t, s) \<leftarrow> take_quoted s;
     s \<leftarrow> strip '',bal=outval-inval,incnt=incnt+1 WHERE address=x'' s;
     (a, s) \<leftarrow> take_quoted s;
     Some (Debit (unhex a) v t)
   }"

definition parse_credit :: "string \<Rightarrow> statement option" where
  "parse_credit s = do {
     s \<leftarrow> strip ''INSERT INTO addressinfo(address,outval,firsttm,lasttm,bal) VALUES(x'' s;
     (a, s) \<leftarrow> take_quoted s;
     s \<leftarrow> strip '','' s;
     (v, s) \<leftarrow> take_quoted s;
     s \<leftarrow> strip '','' s;
     (t, s) \<leftarrow> take_quoted s;
     s \<leftarrow> strip '','' s;
     (t', s) \<leftarrow> take_quoted s;
     s \<leftarrow> strip '',outval-inval) ON DUPLICATE KEY UPDATE outval=outval+'' s;
     (v', s) \<leftarrow> take_number s;
     s \<leftarrow> strip '',lasttm='' s;
     (t'', s) \<leftarrow> take_quoted s;
     s \<leftarrow> strip '',bal=outval-inval,outcnt=outcnt+1;'' s;
     if t' = t \<and> t'' = t \<and> int (undecimal v) = v' then Some (Credit (unhex a) v' t) else None
   }"

definition parse_raise :: "string \<Rightarrow> statement option" where
  "parse_raise s = do {
     s \<leftarrow> strip ''UPDATE addressinfo SET maxbal=bal WHERE bal>maxbal AND address=x'' s;
     (a, s) \<leftarrow> take_quoted s;
     Some (Raise_Maxbal (unhex a))
   }"

definition parse :: "string \<Rightarrow> statement" where
  "parse s =
    (case first_some
       [parse_select ''SELECT entity FROM addressinfo WHERE address = x'' s,
        parse_select ''SELECT entity FROM addressinfo where address = x'' s,
        parse_set_entity s, parse_delete s, parse_insert_entity s, parse_debit s, parse_credit s, parse_raise s] of
       Some stmt \<Rightarrow> stmt
     | None \<Rightarrow> Other)"


section \<open>The tables\<close>

record tables =
  addressinfo :: "bytes \<Rightarrow> (account \<times> unit32) option"
  entityinfo :: "unit32 set"

definition default_account :: account where
  "default_account = \<lparr>inval = 0, outval = 0, bal = 0, maxbal = 0, incnt = 0, outcnt = 1, firsttm = [], lasttm = []\<rparr>"

fun execute :: "statement \<Rightarrow> tables \<Rightarrow> tables" where
  "execute (Merge_Entity e f) db =
     db\<lparr>addressinfo := (\<lambda>a. map_option (\<lambda>(r, g). (r, if g = f then e else g)) (addressinfo db a))\<rparr>"
| "execute (Delete_Entity e) db = db\<lparr>entityinfo := entityinfo db - {e}\<rparr>"
| "execute (Assign_Entity e a) db =
     db\<lparr>addressinfo := (addressinfo db)(a := map_option (\<lambda>(r, g). (r, e)) (addressinfo db a))\<rparr>"
| "execute (Insert_Entity e) db = db\<lparr>entityinfo := insert e (entityinfo db)\<rparr>"
| "execute (Debit a v t) db =
     db\<lparr>addressinfo := (addressinfo db)(a := map_option (\<lambda>(r, g). (debit v t r, g)) (addressinfo db a))\<rparr>"
| "execute (Credit a v t) db =
     db\<lparr>addressinfo := (addressinfo db)(a \<mapsto>
       (credit default_account v t (map_option fst (addressinfo db a)),
        case addressinfo db a of None \<Rightarrow> 0 | Some (r, g) \<Rightarrow> g))\<rparr>"
| "execute (Raise_Maxbal a) db =
     db\<lparr>addressinfo := (addressinfo db)(a := map_option (\<lambda>(r, g). (raise r, g)) (addressinfo db a))\<rparr>"
| "execute _ db = db"

definition sql :: "tables mysql" where
  "sql = \<lparr>
     my_exec = (\<lambda>s db. execute (parse s) db),
     my_rows = (\<lambda>s db.
       case parse s of
         Select_Entity a \<Rightarrow> (case addressinfo db a of None \<Rightarrow> [] | Some (r, e) \<Rightarrow> [[Some (rev (le_bytes 4 e))]])
       | _ \<Rightarrow> [])\<rparr>"

definition sql_ent :: "tables \<Rightarrow> bytes \<Rightarrow> unit32 option" where
  "sql_ent db a = map_option snd (addressinfo db a)"

definition sql_acct :: "tables \<Rightarrow> bytes \<Rightarrow> account option" where
  "sql_acct db a = map_option fst (addressinfo db a)"


section \<open>The statements of the program\<close>

lemma parse_select_entity: "parse (select_entity a) = Select_Entity a" "parse (select_entity' a) = Select_Entity a"
  by (simp_all add: parse_def parse_select_def select_entity_def select_entity'_def)

lemma parse_merge_update: "parse (merge_update e f) = Merge_Entity e f"
  by (simp add: parse_def parse_select_def parse_set_entity_def merge_update_def)

lemma parse_assign_entity: "parse (assign_entity e a) = Assign_Entity e a"
  by (simp add: parse_def parse_select_def parse_set_entity_def assign_entity_def)

lemma parse_delete_entity: "parse (delete_entity f) = Delete_Entity f"
  by (simp add: parse_def parse_select_def parse_set_entity_def parse_delete_def delete_entity_def)

lemma parse_insert_entity_stmt: "parse (insert_entity e) = Insert_Entity e"
  by (simp add: parse_def parse_select_def parse_set_entity_def parse_delete_def parse_insert_entity_def insert_entity_def)

lemma parse_refresh_entity: "parse (refresh_entity e) = Other"
  by (simp add: parse_def parse_select_def parse_set_entity_def parse_delete_def parse_insert_entity_def parse_debit_def
      parse_credit_def parse_raise_def refresh_entity_def Let_def)

lemma not_digit_comma [simp]: "\<not> is_digit (CHR '','')"
  by (simp add: is_digit_def)

lemma parse_debit_address: "quote_free t \<Longrightarrow> parse (debit_address a v t) = Debit a (uint v) t"
  by (simp add: parse_def parse_select_def parse_set_entity_def parse_delete_def parse_insert_entity_def parse_debit_def
      debit_address_def)

lemma parse_credit_address: "quote_free t \<Longrightarrow> parse (credit_address a v t) = Credit a (uint v) t"
  by (simp add: parse_def parse_select_def parse_set_entity_def parse_delete_def parse_insert_entity_def parse_debit_def
      parse_credit_def credit_address_def)

lemma parse_raise_maxbal: "parse (raise_maxbal a) = Raise_Maxbal a"
  by (simp add: parse_def parse_select_def parse_set_entity_def parse_delete_def parse_insert_entity_def parse_debit_def
      parse_credit_def parse_raise_def raise_maxbal_def)

lemma parse_insert_txinfo: "parse (insert_txinfo tx fee vi vo t) = Other"
  by (simp add: parse_def parse_select_def parse_set_entity_def parse_delete_def parse_insert_entity_def parse_debit_def
      parse_credit_def parse_raise_def insert_txinfo_def)

lemmas parse_statements = parse_select_entity parse_merge_update parse_assign_entity parse_delete_entity
  parse_insert_entity_stmt parse_refresh_entity parse_debit_address parse_credit_address parse_raise_maxbal
  parse_insert_txinfo

interpretation server: ledger_tables sql sql_ent entityinfo sql_acct default_account
proof unfold_locales
  fix a :: bytes and q db
  assume "q = select_entity a \<or> q = select_entity' a"
  then have "parse q = Select_Entity a" by (auto simp: parse_statements)
  then show "my_rows sql q db = (case sql_ent db a of None \<Rightarrow> [] | Some e \<Rightarrow> [[Some (rev (le_bytes 4 e))]])"
    and "sql_ent (my_exec sql q db) = sql_ent db \<and> entityinfo (my_exec sql q db) = entityinfo db"
    by (auto simp: sql_def sql_ent_def split: option.splits)
qed (auto simp: sql_def sql_ent_def sql_acct_def parse_statements fun_eq_iff map_option_case
    split: option.splits if_splits)

end
