(* ===== verification/Leveldb_Coding.thy ===== *)
theory Leveldb_Coding
  imports Prelude
begin

text \<open>
  \<open>util/coding.cc\<close> and \<open>util/coding.h\<close> of the LevelDB sources the program is built with: fixed-width and
  variable-length integers and length-prefixed strings. A pointer into a buffer with its limit is
  the list of the bytes between them; a reader returns the value and the bytes behind it, or \<open>None\<close>
  where the code returns \<open>NULL\<close> or \<open>false\<close>. An encoder returns the bytes it writes. The configuration is
  little-endian (\<open>port::kLittleEndian\<close>).
\<close>

unbundle bit_operations_syntax

section \<open>Writers\<close>

definition EncodeFixed32 :: "unit32 \<Rightarrow> bytes" where
  "EncodeFixed32 v = le_bytes 4 v"

definition EncodeFixed64 :: "unit64 \<Rightarrow> bytes" where
  "EncodeFixed64 v = le_bytes 8 v"

definition PutFixed32 :: "bytes \<Rightarrow> unit32 \<Rightarrow> bytes" where
  "PutFixed32 dst v = dst @ EncodeFixed32 v"

definition PutFixed64 :: "bytes \<Rightarrow> unit64 \<Rightarrow> bytes" where
  "PutFixed64 dst v = dst @ EncodeFixed64 v"

definition EncodeVarint32 :: "unit32 \<Rightarrow> bytes" where
  "EncodeVarint32 v =
    (if v < push_bit 7 1 then [ucast v]
     else if v < push_bit 14 1 then [ucast (v OR 128), ucast (drop_bit 7 v)]
     else if v < push_bit 21 1 then [ucast (v OR 128), ucast (drop_bit 7 v OR 128), ucast (drop_bit 14 v)]
     else if v < push_bit 28 1 then
       [ucast (v OR 128), ucast (drop_bit 7 v OR 128), ucast (drop_bit 14 v OR 128), ucast (drop_bit 21 v)]
     else [ucast (v OR 128), ucast (drop_bit 7 v OR 128), ucast (drop_bit 14 v OR 128),
       ucast (drop_bit 21 v OR 128), ucast (drop_bit 28 v)])"

definition PutVarint32 :: "bytes \<Rightarrow> unit32 \<Rightarrow> bytes" where
  "PutVarint32 dst v = dst @ EncodeVarint32 v"

lemma unat_drop_bit_7: "\<not> v < 128 \<Longrightarrow> unat (drop_bit 7 v) < unat (v :: unit64)"
  by (simp add: unat_drop_bit_div word_less_nat_alt)

function EncodeVarint64 :: "unit64 \<Rightarrow> bytes" where
  "EncodeVarint64 v = (if v \<ge> 128 then ucast ((v AND 127) OR 128) # EncodeVarint64 (drop_bit 7 v) else [ucast v])"
  by pat_completeness auto
termination
  by (relation "measure unat") (auto simp: unat_drop_bit_7)

declare EncodeVarint64.simps [simp del]

definition PutVarint64 :: "bytes \<Rightarrow> unit64 \<Rightarrow> bytes" where
  "PutVarint64 dst v = dst @ EncodeVarint64 v"

definition PutLengthPrefixedSlice :: "bytes \<Rightarrow> bytes \<Rightarrow> bytes" where
  "PutLengthPrefixedSlice dst v = PutVarint32 dst (word_of_nat (length v)) @ v"

function VarintLength_loop :: "unit64 \<Rightarrow> nat \<Rightarrow> nat" where
  "VarintLength_loop v len = (if v \<ge> 128 then VarintLength_loop (drop_bit 7 v) (len + 1) else len)"
  by pat_completeness auto
termination
  by (relation "measure (\<lambda>(v, len). unat v)") (auto simp: unat_drop_bit_7)

declare VarintLength_loop.simps [simp del]

definition VarintLength :: "unit64 \<Rightarrow> nat" where
  "VarintLength v = VarintLength_loop v 1"


section \<open>Readers\<close>

definition DecodeFixed32 :: "bytes \<Rightarrow> unit32 option" where
  "DecodeFixed32 ptr = map_option le_word (slice ptr 0 4)"

definition DecodeFixed64 :: "bytes \<Rightarrow> unit64 option" where
  "DecodeFixed64 ptr = map_option le_word (slice ptr 0 8)"

function varint32_loop :: "nat \<Rightarrow> bytes \<Rightarrow> unit32 \<Rightarrow> (unit32 \<times> bytes) option" where
  "varint32_loop shift p result =
    (if shift \<le> 28 then
       case p of
         [] \<Rightarrow> None
       | c # p \<Rightarrow>
           let byte = (ucast c :: unit32)
           in if byte AND 128 \<noteq> 0 then varint32_loop (shift + 7) p (result OR push_bit shift (byte AND 127))
              else Some (result OR push_bit shift byte, p)
     else None)"
  by pat_completeness auto
termination
  by (relation "measure (\<lambda>(shift, p, result). 35 - shift)") auto

declare varint32_loop.simps [simp del]

definition GetVarint32PtrFallback :: "bytes \<Rightarrow> (unit32 \<times> bytes) option" where
  "GetVarint32PtrFallback p = varint32_loop 0 p 0"

definition GetVarint32Ptr :: "bytes \<Rightarrow> (unit32 \<times> bytes) option" where
  "GetVarint32Ptr p =
    (case p of
       c # q \<Rightarrow>
         let result = (ucast c :: unit32)
         in if result AND 128 = 0 then Some (result, q) else GetVarint32PtrFallback p
     | [] \<Rightarrow> GetVarint32PtrFallback p)"

definition GetVarint32 :: "bytes \<Rightarrow> (unit32 \<times> bytes) option" where
  "GetVarint32 inp = (case GetVarint32Ptr inp of None \<Rightarrow> None | Some (v, q) \<Rightarrow> Some (v, q))"

function varint64_loop :: "nat \<Rightarrow> bytes \<Rightarrow> unit64 \<Rightarrow> (unit64 \<times> bytes) option" where
  "varint64_loop shift p result =
    (if shift \<le> 63 then
       case p of
         [] \<Rightarrow> None
       | c # p \<Rightarrow>
           let byte = (ucast c :: unit64)
           in if byte AND 128 \<noteq> 0 then varint64_loop (shift + 7) p (result OR push_bit shift (byte AND 127))
              else Some (result OR push_bit shift byte, p)
     else None)"
  by pat_completeness auto
termination
  by (relation "measure (\<lambda>(shift, p, result). 70 - shift)") auto

declare varint64_loop.simps [simp del]

definition GetVarint64Ptr :: "bytes \<Rightarrow> (unit64 \<times> bytes) option" where
  "GetVarint64Ptr p = varint64_loop 0 p 0"

definition GetVarint64 :: "bytes \<Rightarrow> (unit64 \<times> bytes) option" where
  "GetVarint64 inp = (case GetVarint64Ptr inp of None \<Rightarrow> None | Some (v, q) \<Rightarrow> Some (v, q))"

text \<open>The two overloads with a limit and on a \<open>Slice\<close> read the same.\<close>

definition GetLengthPrefixedSlice :: "bytes \<Rightarrow> (bytes \<times> bytes) option" where
  "GetLengthPrefixedSlice inp = do {
     (len, p) \<leftarrow> GetVarint32 inp;
     if length p \<ge> unat len then Some (take (unat len) p, drop (unat len) p) else None
   }"


section \<open>The encoding by sevens\<close>

fun varint :: "nat \<Rightarrow> bytes" where
  "varint n = (if n < 128 then [word_of_nat n] else word_of_nat (n mod 128 + 128) # varint (n div 128))"

declare varint.simps [simp del]

lemma take_bit_or_exp: "take_bit (Suc k) (n OR 2 ^ k) = take_bit k n + (2 ^ k :: nat)"
proof -
  have "take_bit (Suc k) (n OR 2 ^ k) = take_bit k n OR (2 ^ k :: nat)"
    by (rule bit_eqI) (auto simp: bit_take_bit_iff bit_or_iff bit_exp_iff less_Suc_eq)
  also have "\<dots> = take_bit k n + 2 ^ k"
    by (rule disjunctive_add [symmetric]) (auto simp: bit_take_bit_iff bit_exp_iff)
  finally show ?thesis .
qed

lemma or_128_nat: "(n OR 128) mod 256 = n mod 128 + (128 :: nat)"
  using take_bit_or_exp [of 7 n] by (simp add: take_bit_eq_mod)

lemma mod_or_128_nat: "n mod 256 OR 128 = n mod 128 + (128 :: nat)"
proof -
  have "take_bit 8 (128 :: nat) = 128" by (simp add: take_bit_eq_mod)
  then have "take_bit 8 (n OR 128) = take_bit 8 n OR 128" by (simp only: take_bit_or)
  then show ?thesis using or_128_nat [of n] by (simp add: take_bit_eq_mod)
qed

lemma unat_or_128_32: "unat (ucast ((v :: unit32) OR 128) :: unit8) = unat v mod 128 + 128"
  by (simp add: unat_ucast_mod unsigned_or_eq or_128_nat mod_or_128_nat)

lemma unat_or_128_64: "unat (ucast (((v :: unit64) AND 127) OR 128) :: unit8) = unat v mod 128 + 128"
proof -
  have "unat (v AND 127) = unat v mod 128"
    using unat_and_mask_eq [of v 7] by (simp add: mask_eq_exp_minus_1)
  moreover have "unat v mod 128 mod 256 = unat v mod 128" by (rule mod_less) (simp add: less_trans [OF mod_less_divisor])
  ultimately show ?thesis
    using mod_or_128_nat [of "unat v mod 128"] by (simp add: unat_ucast_mod unsigned_or_eq)
qed

lemma byte_eqI: "unat (b :: 'a::len word) = n \<Longrightarrow> b = word_of_nat n"
  by auto

lemma EncodeVarint64_varint: "EncodeVarint64 v = varint (unat v)"
proof (induction v rule: EncodeVarint64.induct)
  case (1 v)
  show ?case
  proof (cases "v \<ge> 128")
    case True
    then have "128 \<le> unat v" by (simp add: word_le_nat_alt)
    with True show ?thesis
      using 1 byte_eqI [OF unat_or_128_64, of v]
      by (subst EncodeVarint64.simps, subst varint.simps) (simp add: unat_drop_bit_div)
  next
    case False
    then have "unat v < 128" by (simp add: word_le_nat_alt)
    with False show ?thesis
      by (subst EncodeVarint64.simps, subst varint.simps) (simp add: word_unat_eq_iff unat_ucast_mod)
  qed
qed

lemma EncodeVarint32_varint: "EncodeVarint32 v = varint (unat v)"
proof -
  let ?n = "unat v"
  have b: "ucast (drop_bit k v OR 128) = (word_of_nat (?n div 2 ^ k mod 128 + 128) :: unit8)" for k
    using byte_eqI [OF unat_or_128_32, of "drop_bit k v"] by (simp add: unat_drop_bit_div)
  have b0: "ucast (v OR 128) = (word_of_nat (?n mod 128 + 128) :: unit8)"
    by (rule byte_eqI [OF unat_or_128_32])
  have l: "ucast (drop_bit k v) = (word_of_nat (?n div 2 ^ k) :: unit8)" if "?n div 2 ^ k < 256" for k
    using that by (simp add: word_unat_eq_iff unat_ucast_mod unat_drop_bit_div unat_of_nat)
  have l0: "ucast v = (word_of_nat ?n :: unit8)" if "?n < 256"
    using that by (simp add: word_unat_eq_iff unat_ucast_mod unat_of_nat)
  have bound: "?n < 4294967296" using unsigned_less [of v] by simp
  consider "?n < 128" | "128 \<le> ?n" "?n < 16384" | "16384 \<le> ?n" "?n < 2097152" | "2097152 \<le> ?n" "?n < 268435456"
    | "268435456 \<le> ?n" by linarith
  then show ?thesis
  proof cases
    case 1
    then show ?thesis using l0 by (subst varint.simps) (simp add: EncodeVarint32_def word_less_nat_alt)
  next
    case 2
    then show ?thesis using b0 l [of 7]
      by (subst varint.simps, subst varint.simps) (simp add: EncodeVarint32_def word_less_nat_alt)
  next
    case 3
    then have "128 \<le> ?n div 128" "?n div 16384 < 128" by linarith+
    with 3 show ?thesis using b0 b [of 7] l [of 14]
      by (subst varint.simps, subst varint.simps, subst varint.simps)
        (simp add: EncodeVarint32_def word_less_nat_alt div_mult2_eq [symmetric])
  next
    case 4
    then have "128 \<le> ?n div 128" "128 \<le> ?n div 16384" "?n div 2097152 < 128" by linarith+
    with 4 show ?thesis using b0 b [of 7] b [of 14] l [of 21]
      by (subst varint.simps, subst varint.simps, subst varint.simps, subst varint.simps)
        (simp add: EncodeVarint32_def word_less_nat_alt div_mult2_eq [symmetric])
  next
    case 5
    then have "128 \<le> ?n div 128" "128 \<le> ?n div 16384" "128 \<le> ?n div 2097152" "?n div 268435456 < 128"
      using bound by linarith+
    with 5 show ?thesis using b0 b [of 7] b [of 14] b [of 21] l [of 28]
      by (subst varint.simps, subst varint.simps, subst varint.simps, subst varint.simps, subst varint.simps)
        (simp add: EncodeVarint32_def word_less_nat_alt div_mult2_eq [symmetric])
  qed
qed

lemma varint_not_Nil [simp]: "varint n \<noteq> []"
  by (subst varint.simps) simp

lemma bit_7: "bit (c :: unit8) 7 \<longleftrightarrow> 128 \<le> unat c"
proof -
  have "bit (unat c) 7 \<longleftrightarrow> bit c 7" by (simp add: bit_unsigned_iff)
  moreover have "bit (unat c) 7 \<longleftrightarrow> odd (unat c div 128)" by (simp add: bit_iff_odd)
  moreover have "unat c div 128 = (if 128 \<le> unat c then 1 else 0)"
    using unat_byte_le [of c] by auto
  ultimately show ?thesis by (simp split: if_splits)
qed

lemma continuation_32: "(ucast (c :: unit8) AND 128 :: unit32) = 0 \<longleftrightarrow> unat c < 128"
  using and_exp_eq_0_iff_not_bit [of "ucast c :: unit32" 7] by (simp add: bit_ucast_iff bit_7 not_le)

lemma continuation_64: "(ucast (c :: unit8) AND 128 :: unit64) = 0 \<longleftrightarrow> unat c < 128"
  using and_exp_eq_0_iff_not_bit [of "ucast c :: unit64" 7] by (simp add: bit_ucast_iff bit_7 not_le)

lemma unat_ucast_byte:
  assumes "8 \<le> LENGTH('a::len)"
  shows "unat (ucast (c :: unit8) :: 'a word) = unat c"
proof -
  have "(2 :: nat) ^ 8 \<le> 2 ^ LENGTH('a)" using assms by (intro power_increasing) simp_all
  then have "unat c < 2 ^ LENGTH('a)" using unat_byte_le [of c] by simp
  then show ?thesis by (simp add: unat_ucast_mod)
qed

text \<open>Below a power of two, a digit shifted above it is added.\<close>

lemma or_push_bit:
  fixes r :: "'a::len word"
  assumes "unat r < 2 ^ k" and "unat r + unat b * 2 ^ k < 2 ^ LENGTH('a)"
  shows "unat (r OR push_bit k b) = unat r + unat b * 2 ^ k"
proof -
  have low: "n < k" if "bit r n" for n
  proof (rule ccontr)
    assume "\<not> n < k"
    have "bit (unat r) n" using that by (simp add: bit_unsigned_iff bit_imp_le_length)
    then have "2 ^ n \<le> unat r" by (simp add: bit_iff_odd) (metis div_less even_zero not_le)
    moreover have "(2 :: nat) ^ k \<le> 2 ^ n" using \<open>\<not> n < k\<close> by simp
    ultimately show False using assms(1) by linarith
  qed
  have "r OR push_bit k b = r + push_bit k b"
    by (intro disjunctive_add [symmetric]) (auto simp: bit_push_bit_iff dest: low)
  moreover have "unat (push_bit k b) = unat b * 2 ^ k"
    using assms(2) unsigned_push_bit_eq [of k b, where ?'a = nat]
    by (simp add: push_bit_eq_mult take_bit_eq_mod)
  ultimately show ?thesis using assms(2) by (simp add: unat_word_ariths)
qed

text \<open>Both reader loops, for 32 and for 64 bits, invert the encoding by sevens.\<close>

locale varint_reader =
  fixes loop :: "nat \<Rightarrow> bytes \<Rightarrow> 'a::len word \<Rightarrow> ('a word \<times> bytes) option"
    and last_shift :: nat
  assumes loop_eq: "loop shift (c # p) r =
      (if shift \<le> last_shift then
         if unat c < 128 then Some (r OR push_bit shift (ucast c), p)
         else loop (shift + 7) p (r OR push_bit shift (ucast c AND 127))
       else None)"
    and wide: "8 \<le> LENGTH('a)"
    and last_shift: "7 dvd last_shift" "LENGTH('a) \<le> last_shift + 7"
begin

lemma shift_fits:
  assumes "(r :: nat) + m * 2 ^ shift < 2 ^ LENGTH('a)" and "shift = 0 \<or> 0 < m" and "7 dvd shift"
  shows "shift \<le> last_shift"
proof (rule ccontr)
  assume "\<not> shift \<le> last_shift"
  then have "0 < m" "last_shift + 7 \<le> shift" using assms(2,3) last_shift(1) by (auto elim!: dvdE)
  then have "(2 :: nat) ^ LENGTH('a) \<le> 2 ^ shift" "2 ^ shift \<le> m * 2 ^ shift"
    using last_shift(2) by (auto intro!: power_increasing)
  then show False using assms(1) by linarith
qed

lemma unat_and_127: "unat (ucast (c :: unit8) AND 127 :: 'a word) = unat c mod 128"
  using unat_and_mask_eq [of "ucast c :: 'a word" 7] unat_ucast_byte [OF wide]
  by (simp add: mask_eq_exp_minus_1)

lemma loop_varint:
  "unat r < 2 ^ shift \<Longrightarrow> unat r + m * 2 ^ shift < 2 ^ LENGTH('a) \<Longrightarrow> shift = 0 \<or> 0 < m \<Longrightarrow> 7 dvd shift \<Longrightarrow>
     loop shift (varint m @ rest) r = Some (word_of_nat (unat r + m * 2 ^ shift), rest)"
proof (induction m arbitrary: shift r rule: varint.induct)
  case (1 m)
  note shift = shift_fits [OF 1(3-5)]
  show ?case
  proof (cases "m < 128")
    case True
    then have b: "unat (word_of_nat m :: unit8) = m" by (simp add: unat_of_nat)
    then have "unat (ucast (word_of_nat m :: unit8) :: 'a word) = m" using unat_ucast_byte [OF wide] by simp
    then have "unat (r OR push_bit shift (ucast (word_of_nat m :: unit8))) = unat r + m * 2 ^ shift"
      using or_push_bit [OF 1(2), of "ucast (word_of_nat m :: unit8)"] 1(3) by simp
    then have "r OR push_bit shift (ucast (word_of_nat m :: unit8)) = word_of_nat (unat r + m * 2 ^ shift)"
      by (rule byte_eqI)
    then show ?thesis
      using True shift b by (subst varint.simps) (simp add: loop_eq)
  next
    case False
    define c where "c = (word_of_nat (m mod 128 + 128) :: unit8)"
    have c: "unat c = m mod 128 + 128"
      unfolding c_def by (simp only: unat_of_nat) simp
    define r' where "r' = r OR push_bit shift (ucast c AND 127)"
    have low: "unat (ucast c AND 127 :: 'a word) = m mod 128"
      using unat_and_127 [of c] c by simp
    have "unat r + m mod 128 * 2 ^ shift \<le> unat r + m * 2 ^ shift" by simp
    from le_less_trans [OF this 1(3)]
    have r: "unat r' = unat r + m mod 128 * 2 ^ shift"
      unfolding r'_def using or_push_bit [OF 1(2), of "ucast c AND 127", unfolded low] by blast
    have "m div 128 * 2 ^ (shift + 7) = m div 128 * 128 * 2 ^ shift" by (simp add: power_add)
    moreover have "m * 2 ^ shift = m div 128 * 128 * 2 ^ shift + m mod 128 * 2 ^ shift"
      by (metis distrib_right div_mult_mod_eq)
    ultimately have sum: "unat r' + m div 128 * 2 ^ (shift + 7) = unat r + m * 2 ^ shift"
      unfolding r by simp
    have "m mod 128 \<le> 127" by (simp add: less_Suc_eq_le [symmetric])
    then have "m mod 128 * 2 ^ shift \<le> 127 * 2 ^ shift" by simp
    from add_less_le_mono [OF 1(2) this] have "unat r' < 2 ^ (shift + 7)" unfolding r by (simp add: power_add)
    then have run: "loop (shift + 7) (varint (m div 128) @ rest) r' =
        Some (word_of_nat (unat r' + m div 128 * 2 ^ (shift + 7)), rest)"
      using 1(3,5) False by (intro 1(1) [OF False]) (simp_all add: sum)
    have "varint m = c # varint (m div 128)" using False by (subst varint.simps) (simp add: c_def)
    then have "loop shift (varint m @ rest) r = loop (shift + 7) (varint (m div 128) @ rest) r'"
      using shift c by (simp add: loop_eq r'_def)
    then show ?thesis by (simp only: run sum)
  qed
qed

lemma loop_start: "n < 2 ^ LENGTH('a) \<Longrightarrow> loop 0 (varint n @ rest) 0 = Some (word_of_nat n, rest)"
  using loop_varint [of 0 0 n rest] by simp

end

interpretation reader32: varint_reader varint32_loop 28
  by unfold_locales (subst varint32_loop.simps, simp_all add: Let_def continuation_32)

interpretation reader64: varint_reader varint64_loop 63
  by unfold_locales (subst varint64_loop.simps, simp_all add: Let_def continuation_64)

lemma unat_less_32: "unat (v :: unit32) < 2 ^ LENGTH(32)"
  by (rule unsigned_less)

lemma unat_less_64: "unat (v :: unit64) < 2 ^ LENGTH(64)"
  by (rule unsigned_less)

lemma GetVarint32_EncodeVarint32: "GetVarint32Ptr (EncodeVarint32 v @ rest) = Some (v, rest)"
proof -
  have slow: "GetVarint32PtrFallback (EncodeVarint32 v @ rest) = Some (v, rest)"
    unfolding GetVarint32PtrFallback_def EncodeVarint32_varint
    using reader32.loop_start [OF unat_less_32, of v rest] by simp
  obtain c q where c: "EncodeVarint32 v @ rest = c # q"
    by (cases "EncodeVarint32 v @ rest") (auto simp: EncodeVarint32_varint)
  show ?thesis
  proof (cases "unat c < 128")
    case True
    then have "varint32_loop 0 (c # q) 0 = Some (ucast c, q)" by (simp add: reader32.loop_eq)
    then show ?thesis
      using slow True unfolding c GetVarint32PtrFallback_def
      by (simp add: GetVarint32Ptr_def continuation_32)
  next
    case False
    then show ?thesis using slow unfolding c by (simp add: GetVarint32Ptr_def continuation_32)
  qed
qed

lemma GetVarint64_EncodeVarint64: "GetVarint64Ptr (EncodeVarint64 v @ rest) = Some (v, rest)"
  unfolding GetVarint64Ptr_def EncodeVarint64_varint
  using reader64.loop_start [OF unat_less_64, of v rest] by simp

lemma GetLengthPrefixedSlice_Put:
  assumes "length s < 2 ^ 32"
  shows "GetLengthPrefixedSlice (EncodeVarint32 (word_of_nat (length s)) @ s @ rest) = Some (s, rest)"
  using assms GetVarint32_EncodeVarint32 [of "word_of_nat (length s)" "s @ rest"]
  by (simp add: GetLengthPrefixedSlice_def GetVarint32_def unat_of_nat)

lemma DecodeFixed32_EncodeFixed32: "DecodeFixed32 (EncodeFixed32 v @ rest) = Some v"
  by (simp add: DecodeFixed32_def EncodeFixed32_def slice_0 le_word_le_bytes)

lemma DecodeFixed64_EncodeFixed64: "DecodeFixed64 (EncodeFixed64 v @ rest) = Some v"
  by (simp add: DecodeFixed64_def EncodeFixed64_def slice_0 le_word_le_bytes)

lemma VarintLength_loop_run: "VarintLength_loop v k + 1 = k + length (EncodeVarint64 v)"
proof (induction v k rule: VarintLength_loop.induct)
  case (1 v k)
  then show ?case by (subst VarintLength_loop.simps, subst EncodeVarint64.simps) auto
qed

lemma VarintLength_length: "VarintLength v = length (EncodeVarint64 v)"
  using VarintLength_loop_run [of v 1] by (simp add: VarintLength_def)

lemma length_varint_le: "n < 128 ^ k \<Longrightarrow> 0 < k \<Longrightarrow> length (varint n) \<le> k"
proof (induction n arbitrary: k rule: varint.induct)
  case (1 n)
  show ?case
  proof (cases "n < 128")
    case False
    then obtain j where k: "k = Suc j" and j: "0 < j"
      using 1(2,3) by (cases k; cases "k - 1") auto
    have "n div 128 < 128 ^ j" using 1(2) k by (simp add: less_mult_imp_div_less mult.commute)
    then show ?thesis using 1(1) [OF False _ j] False k by (subst varint.simps) simp
  qed (use 1(3) in \<open>subst varint.simps; simp\<close>)
qed


section \<open>Properties\<close>

text \<open>
  C29. What the writers append, the readers take back, whatever follows: fixed-width and variable-length
  integers of 32 and 64 bits and length-prefixed strings.
\<close>

theorem leveldb_coding_roundtrip:
  assumes "length s < 2 ^ 32"
  shows "GetVarint32 (PutVarint32 [] v @ rest) = Some (v, rest) \<and>
    GetVarint64 (PutVarint64 [] w @ rest) = Some (w, rest) \<and>
    GetLengthPrefixedSlice (PutLengthPrefixedSlice [] s @ rest) = Some (s, rest) \<and>
    DecodeFixed32 (PutFixed32 [] v @ rest) = Some v \<and> DecodeFixed64 (PutFixed64 [] w @ rest) = Some w"
  using GetLengthPrefixedSlice_Put [OF assms]
  by (simp add: GetVarint32_def PutVarint32_def GetVarint32_EncodeVarint32 GetVarint64_def PutVarint64_def
      GetVarint64_EncodeVarint64 PutLengthPrefixedSlice_def PutFixed32_def PutFixed64_def
      DecodeFixed32_EncodeFixed32 DecodeFixed64_EncodeFixed64)

theorem leveldb_coding_roundtrip_witness:
  "GetLengthPrefixedSlice (PutLengthPrefixedSlice [] [7, 8] @ [9]) = Some ([7, 8], [9])"
  using leveldb_coding_roundtrip [of "[7, 8]" 0 "[9]" 0] by simp

text \<open>
  The buffers are large enough: a 32-bit number takes at most the five bytes of \<open>buf[5]\<close>, a 64-bit
  number at most the ten of \<open>buf[10]\<close>, and \<open>VarintLength\<close>, with which \<open>MemTable::Add\<close> sizes its
  allocation, is exactly the number of bytes either encoder writes.
\<close>

theorem leveldb_varint_bounds:
  "length (EncodeVarint32 v) \<le> 5 \<and> length (EncodeVarint64 w) \<le> 10 \<and>
   VarintLength w = length (EncodeVarint64 w) \<and> VarintLength (ucast v) = length (EncodeVarint32 v)"
proof (intro conjI)
  show "length (EncodeVarint32 v) \<le> 5"
    unfolding EncodeVarint32_varint using unat_less_32 [of v] by (intro length_varint_le) simp_all
  show "length (EncodeVarint64 w) \<le> 10"
    unfolding EncodeVarint64_varint using unat_less_64 [of w] by (intro length_varint_le) simp_all
  show "VarintLength w = length (EncodeVarint64 w)" by (rule VarintLength_length)
  have "unat (ucast v :: unit64) = unat v" using unat_less_32 [of v] by (simp add: unat_ucast_mod)
  then show "VarintLength (ucast v) = length (EncodeVarint32 v)"
    by (simp add: VarintLength_length EncodeVarint64_varint EncodeVarint32_varint)
qed

end
