(* ===== verification/Leveldb_Status.thy ===== *)
theory Leveldb_Status
  imports Prelude
begin

text \<open>
  \<open>include/leveldb/status.h\<close> and \<open>util/status.cc\<close>: the result of every LevelDB operation. \<open>Status\<close> is what
  the callers see, a code and a message; \<open>state_\<close> is the array behind it, whose four bytes of length,
  code byte and message \<open>Status_new\<close>, \<open>CopyState\<close> and \<open>ToString\<close> write and read.
\<close>

datatype Status =
    OK
  | NotFound string
  | Corruption string
  | NotSupported string
  | InvalidArgument string
  | IOError string

fun status_code :: "Status \<Rightarrow> unit8" where
  "status_code OK = 0"
| "status_code (NotFound m) = 1"
| "status_code (Corruption m) = 2"
| "status_code (NotSupported m) = 3"
| "status_code (InvalidArgument m) = 4"
| "status_code (IOError m) = 5"

text \<open>The message of a status made from two texts.\<close>

definition two_texts :: "string \<Rightarrow> string \<Rightarrow> string" where
  "two_texts msg msg2 = (if msg2 \<noteq> '''' then msg @ '': '' @ msg2 else msg)"


section \<open>The array behind a status\<close>

definition Status_new :: "unit8 \<Rightarrow> bytes \<Rightarrow> bytes \<Rightarrow> bytes option" where
  "Status_new code msg msg2 = do {
     let len1 = (word_of_nat (length msg) :: unit32);
     let len2 = (word_of_nat (length msg2) :: unit32);
     let size = len1 + (if len2 \<noteq> 0 then 2 + len2 else 0);
     let result = replicate (unat (size + 5)) 0;
     result \<leftarrow> blit result 0 (le_bytes 4 size);
     result \<leftarrow> blit result 4 [code];
     result \<leftarrow> blit result 5 (take (unat len1) msg);
     if len2 \<noteq> 0 then do {
       result \<leftarrow> blit result (5 + unat len1) (ascii '':'');
       result \<leftarrow> blit result (6 + unat len1) (ascii '' '');
       blit result (7 + unat len1) (take (unat len2) msg2)
     }
     else Some result
   }"

definition CopyState :: "bytes \<Rightarrow> bytes option" where
  "CopyState state = do {
     size \<leftarrow> map_option le_word (slice state 0 4);
     slice state 0 (unat (size + 5 :: unit32))
   }"

definition status_type :: "unit8 \<Rightarrow> bytes" where
  "status_type code =
    (if code = 0 then ascii ''OK''
     else if code = 1 then ascii ''NotFound: ''
     else if code = 2 then ascii ''Corruption: ''
     else if code = 3 then ascii ''Not implemented: ''
     else if code = 4 then ascii ''Invalid argument: ''
     else ascii ''IO error: '')"

text \<open>The codes a status is made with are the six of the enumeration, so the default of the switch is not reached.\<close>

definition ToString :: "bytes option \<Rightarrow> bytes option" where
  "ToString state =
    (case state of
       None \<Rightarrow> Some (ascii ''OK'')
     | Some st \<Rightarrow> do {
         code \<leftarrow> at st 4;
         len \<leftarrow> map_option le_word (slice st 0 4);
         msg \<leftarrow> slice st 5 (unat (len :: unit32));
         Some (status_type code @ msg)
       })"

lemma Status_new_state:
  assumes "length msg + length msg2 + 7 < 2 ^ 32"
  shows "Status_new code msg msg2 =
    (let m = msg @ (if msg2 \<noteq> [] then ascii '': '' @ msg2 else [])
     in Some (le_bytes 4 (word_of_nat (length m) :: unit32) @ [code] @ m))"
proof -
  have nz: "word_of_nat (length msg2) = (0 :: unit32) \<longleftrightarrow> msg2 = []"
    using assms by (simp add: word_unat_eq_iff unat_of_nat)
  show ?thesis
  proof (cases "msg2 = []")
    case True
    moreover have "unat (word_of_nat (length msg) + 5 :: unit32) = length msg + 5"
      using assms by (simp add: unat_word_ariths unat_of_nat)
    ultimately show ?thesis
      using assms by (simp add: Status_new_def nz Let_def blit_def unat_of_nat)
  next
    case False
    let ?n = "length msg + (2 + length msg2)"
    have "unat (word_of_nat (length msg) + (2 + word_of_nat (length msg2)) + 5 :: unit32) = ?n + 5"
      using assms by (simp add: unat_word_ariths unat_of_nat)
    moreover have "word_of_nat (length msg) + (2 + word_of_nat (length msg2)) = (word_of_nat ?n :: unit32)"
      by simp
    ultimately show ?thesis
      using assms False
      by (simp add: Status_new_def nz Let_def blit_def unat_of_nat ascii_def of_char_of take_Cons' add.left_commute [of _ 2] del: of_nat_add)
  qed
qed

lemma status_text:
  assumes "length msg + length msg2 + 7 < 2 ^ 32"
  shows "\<exists>state. Status_new code msg msg2 = Some state \<and> CopyState state = Some state \<and>
    ToString (Some state) = Some (status_type code @ msg @ (if msg2 \<noteq> [] then ascii '': '' @ msg2 else []))"
proof -
  define m where "m = msg @ (if msg2 \<noteq> [] then ascii '': '' @ msg2 else [])"
  let ?state = "le_bytes 4 (word_of_nat (length m) :: unit32) @ [code] @ m"
  have m: "length m + 5 < 2 ^ 32"
    using assms by (simp add: m_def)
  then have len: "unat (word_of_nat (length m) :: unit32) = length m"
    "unat (word_of_nat (length m) + 5 :: unit32) = length m + 5"
    by (simp_all add: unat_word_ariths unat_of_nat)
  have "slice ?state 0 4 = Some (le_bytes 4 (word_of_nat (length m) :: unit32))"
    by (simp add: slice_def)
  then have "CopyState ?state = Some ?state"
    using len by (simp add: CopyState_def le_word_le_bytes) (simp add: slice_def)
  moreover have "ToString (Some ?state) = Some (status_type code @ m)"
    using len \<open>slice ?state 0 4 = _\<close> by (simp add: ToString_def at_def nth_append le_word_le_bytes) (simp add: slice_def)
  ultimately show ?thesis
    using Status_new_state [OF assms, of code] by (simp add: m_def [symmetric] Let_def)
qed

end
