(* ===== verification/Leveldb_Skiplist.thy ===== *)
theory Leveldb_Skiplist
  imports Prelude
begin

text \<open>
  \<open>db/skiplist.h\<close> and \<open>util/random.h\<close> of LevelDB: the ordered set behind a memtable. Nodes live in an
  array that only grows, as the arena does; a node is addressed by its index, and index 0 is the head
  node. A \<open>Node*\<close> is such an index or \<open>None\<close> for \<open>NULL\<close>. The keys and the comparator are parameters, as
  they are template parameters of the class.

  The loops of the class have no bound of their own; \<open>FindGreaterOrEqual\<close>, \<open>FindLessThan\<close> and \<open>FindLast\<close>
  are partial functions whose value \<open>None\<close> stands for an access outside a node (or an uninitialised
  element of \<open>prev\<close>) and for a loop that does not end. The lemmas show that neither happens.
\<close>

unbundle bit_operations_syntax

section \<open>Random numbers\<close>

definition Random_init :: "unit32 \<Rightarrow> unit32" where
  "Random_init s =
    (let seed = s AND 0x7fffffff
     in if seed = 0 \<or> seed = 2147483647 then 1 else seed)"

definition Random_Next :: "unit32 \<Rightarrow> unit32" where
  "Random_Next seed =
    (let M = 2147483647 :: unit32;
         A = 16807 :: unit64;
         product = ucast seed * A;
         seed = ucast (drop_bit 31 product + (product AND ucast M)) :: unit32
     in if seed > M then seed - M else seed)"


section \<open>Nodes and the list\<close>

record 'k node =
  node_key :: 'k
  next_ptrs :: "nat option list"

record 'k skiplist =
  nodes :: "'k node list"
  max_height :: nat
  rnd :: unit32

definition kMaxHeight :: nat where
  "kMaxHeight = 12"

definition Next :: "'k skiplist \<Rightarrow> nat \<Rightarrow> nat \<Rightarrow> nat option option" where
  "Next sl x n = do { node \<leftarrow> at (nodes sl) x; at (next_ptrs node) n }"

definition SetNext :: "nat \<Rightarrow> nat \<Rightarrow> nat option \<Rightarrow> 'k skiplist \<Rightarrow> 'k skiplist option" where
  "SetNext x n p sl = do {
     node \<leftarrow> at (nodes sl) x;
     if n < length (next_ptrs node)
     then Some (sl\<lparr>nodes := (nodes sl)[x := node\<lparr>next_ptrs := (next_ptrs node)[n := p]\<rparr>]\<rparr>)
     else None
   }"

definition new_skiplist :: "'k \<Rightarrow> 'k skiplist" where
  "new_skiplist any = \<lparr>nodes = [\<lparr>node_key = any, next_ptrs = replicate kMaxHeight None\<rparr>], max_height = 1,
     rnd = Random_init 0xdeadbeef\<rparr>"

function RandomHeight_loop :: "nat \<Rightarrow> unit32 \<Rightarrow> nat \<times> unit32" where
  "RandomHeight_loop height seed =
    (if height < kMaxHeight then
       let seed = Random_Next seed
       in if seed mod 4 = 0 then RandomHeight_loop (height + 1) seed else (height, seed)
     else (height, seed))"
  by pat_completeness auto
termination
  by (relation "measure (\<lambda>(height, seed). kMaxHeight - height)") auto

declare RandomHeight_loop.simps [simp del]

definition RandomHeight :: "'k skiplist \<Rightarrow> nat \<times> 'k skiplist" where
  "RandomHeight sl = (let (height, seed) = RandomHeight_loop 1 (rnd sl) in (height, sl\<lparr>rnd := seed\<rparr>))"

definition KeyIsAfterNode :: "('k \<Rightarrow> 'k \<Rightarrow> int) \<Rightarrow> 'k skiplist \<Rightarrow> 'k \<Rightarrow> nat option \<Rightarrow> bool option" where
  "KeyIsAfterNode cmp sl key n =
    (case n of
       None \<Rightarrow> Some False
     | Some x \<Rightarrow> do { node \<leftarrow> at (nodes sl) x; Some (cmp (node_key node) key < 0) })"

partial_function (option) find_ge ::
  "('k \<Rightarrow> 'k \<Rightarrow> int) \<Rightarrow> 'k skiplist \<Rightarrow> 'k \<Rightarrow> nat \<Rightarrow> nat \<Rightarrow> nat option list \<Rightarrow> (nat option \<times> nat option list) option" where
  "find_ge cmp sl key x level prev = do {
     nxt \<leftarrow> Next sl x level;
     after \<leftarrow> KeyIsAfterNode cmp sl key nxt;
     if after then find_ge cmp sl key (the nxt) level prev
     else
       let prev = prev[level := Some x]
       in if level = 0 then Some (nxt, prev)
          else find_ge cmp sl key x (level - 1) prev
   }"

definition FindGreaterOrEqual ::
  "('k \<Rightarrow> 'k \<Rightarrow> int) \<Rightarrow> 'k skiplist \<Rightarrow> 'k \<Rightarrow> (nat option \<times> nat option list) option" where
  "FindGreaterOrEqual cmp sl key =
     find_ge cmp sl key 0 (max_height sl - 1) (replicate kMaxHeight None)"

partial_function (option) find_lt ::
  "('k \<Rightarrow> 'k \<Rightarrow> int) \<Rightarrow> 'k skiplist \<Rightarrow> 'k \<Rightarrow> nat \<Rightarrow> nat \<Rightarrow> nat option" where
  "find_lt cmp sl key x level = do {
     nxt \<leftarrow> Next sl x level;
     after \<leftarrow> KeyIsAfterNode cmp sl key nxt;
     if \<not> after
     then (if level = 0 then Some x else find_lt cmp sl key x (level - 1))
     else find_lt cmp sl key (the nxt) level
   }"

definition FindLessThan :: "('k \<Rightarrow> 'k \<Rightarrow> int) \<Rightarrow> 'k skiplist \<Rightarrow> 'k \<Rightarrow> nat option" where
  "FindLessThan cmp sl key = find_lt cmp sl key 0 (max_height sl - 1)"

partial_function (option) find_last :: "'k skiplist \<Rightarrow> nat \<Rightarrow> nat \<Rightarrow> nat option" where
  "find_last sl x level = do {
     nxt \<leftarrow> Next sl x level;
     case nxt of
       None \<Rightarrow> if level = 0 then Some x else find_last sl x (level - 1)
     | Some n \<Rightarrow> find_last sl n level
   }"

definition FindLast :: "'k skiplist \<Rightarrow> nat option" where
  "FindLast sl = find_last sl 0 (max_height sl - 1)"

text \<open>The links of a new node, level by level.\<close>

fun link_levels :: "nat \<Rightarrow> nat list \<Rightarrow> nat option list \<Rightarrow> 'k skiplist \<Rightarrow> 'k skiplist option" where
  "link_levels x [] prev sl = Some sl"
| "link_levels x (i # is) prev sl = do {
     p \<leftarrow> at prev i;
     p \<leftarrow> p;
     nxt \<leftarrow> Next sl p i;
     sl \<leftarrow> SetNext x i nxt sl;
     sl \<leftarrow> SetNext p i (Some x) sl;
     link_levels x is prev sl
   }"

definition Insert :: "('k \<Rightarrow> 'k \<Rightarrow> int) \<Rightarrow> 'k \<Rightarrow> 'k skiplist \<Rightarrow> 'k skiplist option" where
  "Insert cmp key sl = do {
     (x, prev) \<leftarrow> FindGreaterOrEqual cmp sl key;
     let (height, sl) = RandomHeight sl;
     let prev = (if height > max_height sl
       then foldl (\<lambda>prev i. prev[i := Some 0]) prev [max_height sl..<height] else prev);
     let sl = (if height > max_height sl then sl\<lparr>max_height := height\<rparr> else sl);
     let x = length (nodes sl);
     let sl = sl\<lparr>nodes := nodes sl @ [\<lparr>node_key = key, next_ptrs = replicate height None\<rparr>]\<rparr>;
     link_levels x [0..<height] prev sl
   }"

definition Contains :: "('k \<Rightarrow> 'k \<Rightarrow> int) \<Rightarrow> 'k \<Rightarrow> 'k skiplist \<Rightarrow> bool option" where
  "Contains cmp key sl = do {
     (x, prev) \<leftarrow> FindGreaterOrEqual cmp sl key;
     case x of
       None \<Rightarrow> Some False
     | Some n \<Rightarrow> do { node \<leftarrow> at (nodes sl) n; Some (cmp key (node_key node) = 0) }
   }"

text \<open>The iterator is a node or \<open>None\<close> when it is not valid.\<close>

definition Iterator_Next :: "'k skiplist \<Rightarrow> nat \<Rightarrow> nat option option" where
  "Iterator_Next sl n = Next sl n 0"

definition Iterator_Prev :: "('k \<Rightarrow> 'k \<Rightarrow> int) \<Rightarrow> 'k skiplist \<Rightarrow> nat \<Rightarrow> nat option option" where
  "Iterator_Prev cmp sl n = do {
     node \<leftarrow> at (nodes sl) n;
     x \<leftarrow> FindLessThan cmp sl (node_key node);
     Some (if x = 0 then None else Some x)
   }"

definition Iterator_Seek :: "('k \<Rightarrow> 'k \<Rightarrow> int) \<Rightarrow> 'k skiplist \<Rightarrow> 'k \<Rightarrow> nat option option" where
  "Iterator_Seek cmp sl target = map_option fst (FindGreaterOrEqual cmp sl target)"

definition Iterator_SeekToFirst :: "'k skiplist \<Rightarrow> nat option option" where
  "Iterator_SeekToFirst sl = Next sl 0 0"

definition Iterator_SeekToLast :: "'k skiplist \<Rightarrow> nat option option" where
  "Iterator_SeekToLast sl = do { x \<leftarrow> FindLast sl; Some (if x = 0 then None else Some x) }"


section \<open>The random numbers\<close>

lemma mod_mersenne:
  fixes n :: nat
  assumes "0 < n mod 2147483647" "n < 2147483647 * 2147483647"
  shows "n mod 2147483647 =
    (let t = n div 2147483648 + n mod 2147483648 in if 2147483647 < t then t - 2147483647 else t)"
proof -
  define q where "q = n div 2147483648"
  define r where "r = n mod 2147483648"
  have "n = q * 2147483648 + r"
    by (simp add: q_def r_def)
  then have n: "n = q * 2147483647 + (q + r)"
    by simp
  then have m: "n mod 2147483647 = (q + r) mod 2147483647"
    using mod_mult_self3 [of q 2147483647 "q + r"] by metis
  have "q < 2147483647"
    using assms(2) unfolding q_def by (simp add: less_mult_imp_div_less)
  moreover have "r \<le> 2147483647"
    unfolding r_def using mod_less_divisor [of 2147483648 n] by simp
  moreover have "q + r \<noteq> 2147483647"
    using assms(1) m by auto
  ultimately have "(q + r) mod 2147483647 = (if 2147483647 < q + r then q + r - 2147483647 else q + r)"
    by (auto simp: mod_if)
  with m show ?thesis
    by (simp add: q_def r_def Let_def)
qed

lemma coprime_multiplier: "coprime (16807 :: nat) 2147483647"
proof -
  have "coprime (7 :: nat) (Suc (7 * 306783378))"
    by (metis coprime_Suc_right_nat coprime_mult_left_iff)
  moreover have "(16807 :: nat) = 7 ^ 5"
    by simp
  ultimately show ?thesis
    by (simp only: coprime_power_left_iff) simp
qed

lemma Random_Next_range:
  assumes "0 < unat s" "unat s < 2147483647"
  shows "0 < unat s * 16807 mod 2147483647"
proof (rule ccontr)
  assume "\<not> ?thesis"
  then have "(2147483647 :: nat) dvd unat s * 16807"
    by (simp add: mod_eq_0_iff_dvd)
  then have "(2147483647 :: nat) dvd unat s"
    using coprime_multiplier by (simp add: coprime_dvd_mult_left_iff coprime_commute)
  with assms show False
    using dvd_imp_le by fastforce
qed

lemma Random_Next_eq:
  assumes "0 < unat s" "unat s < 2147483647"
  shows "unat (Random_Next s) = unat s * 16807 mod 2147483647"
proof -
  define n where "n = unat s * 16807"
  define product :: unit64 where "product = ucast s * 16807"
  have "n < 2147483647 * 16807"
    using assms(2) by (simp add: n_def)
  then have small: "n < 2147483647 * 2147483647" and fits: "n < 2 ^ 64"
    by simp_all
  have p: "unat product = n"
    using fits unfolding product_def n_def
    by (simp add: unat_word_ariths unsigned_ucast_eq take_bit_nat_eq_self)
  have q: "unat (drop_bit 31 product) = n div 2147483648"
    by (simp only: unat_drop_bit_div p) simp
  have r: "unat (product AND ucast (2147483647 :: unit32)) = n mod 2147483648"
  proof -
    have "ucast (2147483647 :: unit32) = (mask 31 :: unit64)"
      by (simp add: mask_eq_exp_minus_1)
    then show ?thesis
      by (simp only: unat_and_mask_eq p) simp
  qed
  have qb: "n div 2147483648 < 16807"
    using \<open>n < 2147483647 * 16807\<close> by (simp add: less_mult_imp_div_less)
  have t: "unat (ucast (drop_bit 31 product + (product AND ucast (2147483647 :: unit32))) :: unit32)
      = n div 2147483648 + n mod 2147483648" (is "unat ?t = _")
    using qb mod_less_divisor [of 2147483648 n]
    by (simp only: unat_ucast_mod unat_word_ariths q r) simp
  have "unat (Random_Next s) = (if 2147483647 < unat ?t then unat ?t - 2147483647 else unat ?t)"
    by (simp add: Random_Next_def Let_def word_less_nat_alt unat_sub_if' flip: product_def)
  with t mod_mersenne [of n] Random_Next_range [OF assms] small show ?thesis
    by (simp add: n_def Let_def)
qed

section \<open>The abstract list\<close>

definition height :: "'k skiplist \<Rightarrow> nat \<Rightarrow> nat" where
  "height sl x = length (next_ptrs (nodes sl ! x))"

definition key_of :: "'k skiplist \<Rightarrow> nat \<Rightarrow> 'k" where
  "key_of sl x = node_key (nodes sl ! x)"

text \<open>
  \<open>L\<close> is the list of the nodes in the order of their keys. The pointer of a node at level \<open>l\<close> leads to
  the first later node that is taller than \<open>l\<close>.
\<close>

definition shape :: "'k skiplist \<Rightarrow> nat list \<Rightarrow> bool" where
  "shape sl L \<longleftrightarrow> distinct (0 # L) \<and> set (0 # L) = {..<length (nodes sl)} \<and> height sl 0 = kMaxHeight \<and>
     (\<forall>n\<in>set L. 1 \<le> height sl n \<and> height sl n \<le> max_height sl) \<and>
     1 \<le> max_height sl \<and> max_height sl \<le> kMaxHeight"

definition linked :: "'k skiplist \<Rightarrow> nat list \<Rightarrow> bool" where
  "linked sl L \<longleftrightarrow> (\<forall>i\<le>length L. \<forall>l<height sl ((0 # L) ! i).
     next_ptrs (nodes sl ! ((0 # L) ! i)) ! l = List.find (\<lambda>n. l < height sl n) (drop i L))"

definition ordered :: "('k \<Rightarrow> 'k \<Rightarrow> int) \<Rightarrow> 'k skiplist \<Rightarrow> nat list \<Rightarrow> bool" where
  "ordered cmp sl L \<longleftrightarrow> sorted_wrt (\<lambda>a b. cmp (key_of sl a) (key_of sl b) < 0) L"

definition skip_inv :: "('k \<Rightarrow> 'k \<Rightarrow> int) \<Rightarrow> 'k skiplist \<Rightarrow> nat list \<Rightarrow> bool" where
  "skip_inv cmp sl L \<longleftrightarrow> shape sl L \<and> linked sl L \<and> ordered cmp sl L"

definition rank :: "('k \<Rightarrow> 'k \<Rightarrow> int) \<Rightarrow> 'k skiplist \<Rightarrow> 'k \<Rightarrow> nat list \<Rightarrow> nat" where
  "rank cmp sl key L = length (takeWhile (\<lambda>n. cmp (key_of sl n) key < 0) L)"

text \<open>\<open>p\<close> is the last of the first \<open>j\<close> nodes (and the head) that is taller than \<open>l\<close>.\<close>

definition last_tall :: "'k skiplist \<Rightarrow> nat list \<Rightarrow> nat \<Rightarrow> nat \<Rightarrow> nat \<Rightarrow> bool" where
  "last_tall sl L j l p \<longleftrightarrow> p \<le> j \<and> l < height sl ((0 # L) ! p) \<and>
     (\<forall>i. p < i \<and> i \<le> j \<longrightarrow> height sl ((0 # L) ! i) \<le> l)"

definition prev_ok :: "'k skiplist \<Rightarrow> nat list \<Rightarrow> nat \<Rightarrow> nat option list \<Rightarrow> nat \<Rightarrow> bool" where
  "prev_ok sl L j prev l \<longleftrightarrow> (\<exists>p. prev ! l = Some ((0 # L) ! p) \<and> last_tall sl L j l p)"

lemma at_node:
  "shape sl L \<Longrightarrow> x \<in> set (0 # L) \<Longrightarrow> at (nodes sl) x = Some (nodes sl ! x)"
  by (auto simp: shape_def at_def)

lemma Next_linked:
  assumes "shape sl L" "linked sl L" "i \<le> length L" "l < height sl ((0 # L) ! i)"
  shows "Next sl ((0 # L) ! i) l = Some (List.find (\<lambda>n. l < height sl n) (drop i L))"
proof -
  have "(0 # L) ! i \<in> set (0 # L)"
    using assms(3) by (intro nth_mem) simp
  from at_node [OF assms(1) this] assms(2-4) show ?thesis
    by (simp add: Next_def linked_def height_def at_def)
qed

lemma find_drop_Some:
  assumes "List.find P (drop i L) = Some n"
  obtains k where "i \<le> k" "k < length L" "n = L ! k" "P (L ! k)" "\<And>m. i \<le> m \<Longrightarrow> m < k \<Longrightarrow> \<not> P (L ! m)"
proof -
  obtain d where d: "d < length L - i" "P (drop i L ! d)" "n = drop i L ! d" "\<forall>j<d. \<not> P (drop i L ! j)"
    using assms unfolding find_Some_iff by auto
  show thesis
  proof (rule that [of "i + d"])
    fix m
    assume "i \<le> m" "m < i + d"
    then show "\<not> P (L ! m)"
      using d(1) d(4) [rule_format, of "m - i"] by (simp add: less_diff_conv2)
  qed (use d in \<open>auto simp: less_diff_conv\<close>)
qed

lemma find_drop_None:
  assumes "List.find P (drop i L) = None" "i \<le> m" "m < length L"
  shows "\<not> P (L ! m)"
proof -
  have "L ! m \<in> set (drop i L)"
    using nth_mem [of "m - i" "drop i L"] assms(2,3) by (simp add: less_diff_conv2)
  with assms(1) show ?thesis
    by (auto simp: find_None_iff)
qed

lemma find_append:
  "List.find P (xs @ ys) = (case List.find P xs of None \<Rightarrow> List.find P ys | Some x \<Rightarrow> Some x)"
  by (induction xs) auto

definition ptr :: "'k skiplist \<Rightarrow> nat \<Rightarrow> nat \<Rightarrow> nat option" where
  "ptr sl x l = next_ptrs (nodes sl ! x) ! l"

lemma linked_ptr:
  "linked sl L \<longleftrightarrow> (\<forall>i\<le>length L. \<forall>l<height sl ((0 # L) ! i).
     ptr sl ((0 # L) ! i) l = List.find (\<lambda>n. l < height sl n) (drop i L))"
  by (simp add: linked_def ptr_def)

lemma Next_ptr: "x < length (nodes sl) \<Longrightarrow> l < height sl x \<Longrightarrow> Next sl x l = Some (ptr sl x l)"
  by (simp add: Next_def at_def ptr_def height_def)

lemma SetNext_run:
  assumes "x < length (nodes sl)" "l < height sl x"
  shows "\<exists>sl'. SetNext x l v sl = Some sl' \<and> max_height sl' = max_height sl \<and> rnd sl' = rnd sl \<and>
    length (nodes sl') = length (nodes sl) \<and> key_of sl' = key_of sl \<and> height sl' = height sl \<and>
    ptr sl' = (\<lambda>y m. if y = x \<and> m = l then v else ptr sl y m)"
  using assms by (auto simp: SetNext_def at_def key_of_def height_def ptr_def fun_eq_iff nth_list_update)

lemma link_levels_run:
  assumes "distinct is" "N < length (nodes sl)"
    and "\<And>i. i \<in> set is \<Longrightarrow> i < height sl N \<and> i < length prev \<and>
      (\<exists>p. prev ! i = Some p \<and> p < length (nodes sl) \<and> p \<noteq> N \<and> i < height sl p)"
  shows "\<exists>sl'. link_levels N is prev sl = Some sl' \<and> max_height sl' = max_height sl \<and> rnd sl' = rnd sl \<and>
    length (nodes sl') = length (nodes sl) \<and> key_of sl' = key_of sl \<and> height sl' = height sl \<and>
    ptr sl' = (\<lambda>x l. if l \<in> set is
      then if x = N then ptr sl (the (prev ! l)) l else if prev ! l = Some x then Some N else ptr sl x l
      else ptr sl x l)"
  using assms
proof (induction "is" arbitrary: sl)
  case (Cons i "is")
  obtain p where p: "prev ! i = Some p" "p < length (nodes sl)" "p \<noteq> N" "i < height sl p"
    and i: "i < height sl N" "i < length prev"
    using Cons.prems(3) [of i] by auto
  obtain s1 where s1: "SetNext N i (ptr sl p i) sl = Some s1" "max_height s1 = max_height sl" "rnd s1 = rnd sl"
    "length (nodes s1) = length (nodes sl)" "key_of s1 = key_of sl" "height s1 = height sl"
    "ptr s1 = (\<lambda>y m. if y = N \<and> m = i then ptr sl p i else ptr sl y m)"
    using SetNext_run [OF Cons.prems(2) i(1)] by blast
  obtain s2 where s2: "SetNext p i (Some N) s1 = Some s2" "max_height s2 = max_height sl" "rnd s2 = rnd sl"
    "length (nodes s2) = length (nodes sl)" "key_of s2 = key_of sl" "height s2 = height sl"
    "ptr s2 = (\<lambda>y m. if y = p \<and> m = i then Some N else ptr s1 y m)"
    using SetNext_run [of p s1 i "Some N"] p s1 by auto
  obtain s3 where s3: "link_levels N is prev s2 = Some s3" "max_height s3 = max_height sl" "rnd s3 = rnd sl"
    "length (nodes s3) = length (nodes sl)" "key_of s3 = key_of sl" "height s3 = height sl"
    "ptr s3 = (\<lambda>x l. if l \<in> set is
      then if x = N then ptr s2 (the (prev ! l)) l else if prev ! l = Some x then Some N else ptr s2 x l
      else ptr s2 x l)"
    using Cons.IH [of s2] Cons.prems s2 by auto
  have "link_levels N (i # is) prev sl = Some s3"
    using p i s1(1) s2(1) s3(1) Next_ptr [OF p(2,4)] by (simp add: at_def)
  moreover have "ptr s3 x l = (if l \<in> set (i # is)
      then if x = N then ptr sl (the (prev ! l)) l else if prev ! l = Some x then Some N else ptr sl x l
      else ptr sl x l)" for x l
    using Cons.prems(1) p(1,3) by (auto simp: s3(7) s2(7) s1(7))
  ultimately show ?case
    using s3 by (intro exI [of _ s3]) (auto simp: fun_eq_iff)
qed simp

lemma extend_prev:
  "length (foldl (\<lambda>prev i. prev[i := v]) prev is) = length prev"
  "l < length prev \<Longrightarrow> foldl (\<lambda>prev i. prev[i := v]) prev is ! l = (if l \<in> set is then v else prev ! l)"
  by (induction "is" arbitrary: prev) (auto simp: nth_list_update)

lemma RandomHeight_loop_bounds:
  assumes "1 \<le> k" "k \<le> kMaxHeight"
  shows "1 \<le> fst (RandomHeight_loop k seed) \<and> fst (RandomHeight_loop k seed) \<le> kMaxHeight"
  using assms
proof (induction k seed rule: RandomHeight_loop.induct)
  case (1 k seed)
  then show ?case
    by (subst (1 2) RandomHeight_loop.simps) (auto simp: Let_def)
qed

lemma last_tall_unique:
  assumes "distinct (0 # L)" "j \<le> length L" "last_tall sl L j l p" "i \<le> length L"
    and "(0 # L) ! i = (0 # L) ! p"
  shows "i = p"
  using assms by (simp add: last_tall_def nth_eq_iff_index_eq del: distinct.simps)

lemma last_tall_find:
  assumes "last_tall sl L j l p" "j \<le> length L"
  shows "List.find (\<lambda>n. l < height sl n) (drop p (take j L)) = None"
proof -
  have "height sl n \<le> l" if n: "n \<in> set (drop p (take j L))" for n
  proof -
    obtain d where d: "d < length (drop p (take j L))" "n = drop p (take j L) ! d"
      using n by (metis in_set_conv_nth)
    then have "n = (0 # L) ! Suc (p + d)" "p < Suc (p + d)" "Suc (p + d) \<le> j"
      using assms by auto
    with assms(1) show ?thesis
      unfolding last_tall_def by metis
  qed
  then show ?thesis
    by (auto simp: find_None_iff not_less)
qed

lemma taller_find:
  assumes "last_tall sl L j l p" "j \<le> length L" "i < p"
  shows "List.find (\<lambda>n. l < height sl n) (drop i (take j L)) \<noteq> None"
proof -
  have "drop i (take j L) ! (p - 1 - i) = (0 # L) ! p" "p - 1 - i < length (drop i (take j L))"
    using assms by (auto simp: last_tall_def)
  then have "(0 # L) ! p \<in> set (drop i (take j L))"
    by (metis nth_mem)
  then show ?thesis
    using assms(1) by (auto simp: find_None_iff last_tall_def)
qed

lemma drop_split: "i \<le> j \<Longrightarrow> drop i L = drop i (take j L) @ drop j L"
  by (metis append_take_drop_id drop_append drop_eq_Nil2 drop_take length_take min.absorb_iff2
      take_all_iff drop_drop le_add_diff_inverse2)

text \<open>The links after a node of height \<open>h\<close> went in at position \<open>j\<close>.\<close>

lemma linked_insert:
  assumes li: "linked sl L" and d: "distinct (0 # L)" and N: "N \<notin> set (0 # L)" and j: "j \<le> length L"
    and ht: "\<And>x. x \<in> set (0 # L) \<Longrightarrow> height sl' x = height sl x" "height sl' N = h"
    and prev: "\<And>l. l < h \<Longrightarrow> prev_ok sl L j prev l"
    and pt: "\<And>x l. x \<in> set (0 # L) \<Longrightarrow>
      ptr sl' x l = (if l < h \<and> prev ! l = Some x then Some N else ptr sl x l)"
      "\<And>l. l < h \<Longrightarrow> ptr sl' N l = ptr sl (the (prev ! l)) l"
  shows "linked sl' (take j L @ N # drop j L)"
  unfolding linked_ptr
proof (intro allI impI)
  fix i l
  let ?L = "take j L @ N # drop j L"
  let ?P = "\<lambda>n. l < height sl n"
  let ?P' = "\<lambda>n. l < height sl' n"
  assume i: "i \<le> length ?L" and l: "l < height sl' ((0 # ?L) ! i)"
  have same: "List.find ?P' xs = List.find ?P xs" if "set xs \<subseteq> set L" for xs
    using that N by (intro find_cong) (auto simp: ht(1))
  consider "i \<le> j" | "i = Suc j" | "Suc j < i"
    by linarith
  then show "ptr sl' ((0 # ?L) ! i) l = List.find ?P' (drop i ?L)"
  proof cases
    case 1
    let ?x = "(0 # L) ! i"
    have x: "(0 # ?L) ! i = ?x"
      using 1 j by (auto simp: nth_append nth_Cons')
    have xs: "?x \<in> set (0 # L)"
      using 1 j by (intro nth_mem) simp
    note hx = ht(1) [OF xs] and px = pt(1) [OF xs]
    have old: "ptr sl ?x l = List.find ?P (drop i L)"
      using li 1 j l x hx by (simp add: linked_ptr)
    have new: "List.find ?P' (drop i ?L) =
        (case List.find ?P (drop i (take j L)) of
           None \<Rightarrow> if l < h then Some N else List.find ?P (drop j L) | Some n \<Rightarrow> Some n)"
      using 1 j by (simp add: find_append ht(2) same set_drop_subset set_take_subset
          subset_trans [OF set_drop_subset set_take_subset] split: option.split)
    have old': "ptr sl ?x l =
        (case List.find ?P (drop i (take j L)) of None \<Rightarrow> List.find ?P (drop j L) | Some n \<Rightarrow> Some n)"
      using old drop_split [OF 1, of L] by (metis find_append)
    show ?thesis
    proof (cases "l < h")
      case True
      obtain p where p: "prev ! l = Some ((0 # L) ! p)" "last_tall sl L j l p"
        using prev [OF True] by (auto simp: prev_ok_def)
      have "\<not> p < i"
        using p(2) 1 l x hx unfolding last_tall_def by (metis not_le)
      then consider "i = p" | "i < p" "?x \<noteq> (0 # L) ! p"
        using last_tall_unique [OF d j p(2), of i] 1 j by force
      then show ?thesis
      proof cases
        case 1
        with last_tall_find [OF p(2) j] True p(1) x new px [of l] show ?thesis
          by simp
      next
        case 2
        then obtain n where "List.find ?P (drop i (take j L)) = Some n"
          using taller_find [OF p(2) j, of i] by blast
        with 2 p(1) x new old' px [of l] show ?thesis
          by simp
      qed
    qed (use x new old' in \<open>simp add: px\<close>)
  next
    case 2
    have x: "(0 # ?L) ! i = N"
      using 2 j by (simp add: nth_append)
    then have lh: "l < h"
      using l ht(2) by simp
    obtain p where p: "prev ! l = Some ((0 # L) ! p)" "last_tall sl L j l p"
      using prev [OF lh] by (auto simp: prev_ok_def)
    have pj: "p \<le> j" "l < height sl ((0 # L) ! p)"
      using p(2) by (auto simp: last_tall_def)
    then have "ptr sl ((0 # L) ! p) l = List.find ?P (drop p L)"
      using li j by (simp add: linked_ptr)
    also have "\<dots> = List.find ?P (drop j L)"
      using drop_split [OF pj(1), of L] last_tall_find [OF p(2) j] by (metis find_append option.case(1))
    finally show ?thesis
      using 2 j x lh p(1) by (simp add: pt(2) same set_drop_subset)
  next
    case 3
    let ?x = "(0 # L) ! (i - 1)"
    have ij: "j < i - 1" "i - 1 \<le> length L"
      using 3 i j by auto
    have x: "(0 # ?L) ! i = ?x"
      using 3 i j by (auto simp: nth_append nth_Cons' numeral_2_eq_2)
    have xs: "?x \<in> set (0 # L)"
      using ij by (intro nth_mem) simp
    have "prev ! l \<noteq> Some ?x" if lh: "l < h"
    proof
      assume eq: "prev ! l = Some ?x"
      obtain p where p: "prev ! l = Some ((0 # L) ! p)" "last_tall sl L j l p"
        using prev [OF lh] by (auto simp: prev_ok_def)
      with last_tall_unique [OF d j p(2) ij(2)] eq ij(1) show False
        by (simp add: last_tall_def)
    qed
    then have "ptr sl' ?x l = ptr sl ?x l"
      using pt(1) [OF xs] by auto
    also have "\<dots> = List.find ?P (drop (i - 1) L)"
      using li ij(2) l x ht(1) [OF xs] unfolding linked_ptr by metis
    finally show ?thesis
      using 3 j x same [of "drop (i - 1) L"] by (simp add: set_drop_subset drop_Cons')
  qed
qed

lemma find_last_run:
  assumes sh: "shape sl L" and li: "linked sl L" and "i \<le> length L" "l < height sl ((0 # L) ! i)"
  shows "find_last sl ((0 # L) ! i) l = Some ((0 # L) ! length L)"
  using assms(3,4)
proof (induction "length L - i + l" arbitrary: i l rule: less_induct)
  case less
  let ?f = "List.find (\<lambda>n. l < height sl n) (drop i L)"
  note nx = Next_linked [OF sh li less.prems]
  show ?case
  proof (cases ?f)
    case (Some n)
    obtain k where k: "i \<le> k" "k < length L" "n = L ! k" "l < height sl (L ! k)"
      by (rule find_drop_Some [OF Some])
    have "find_last sl ((0 # L) ! Suc k) l = Some ((0 # L) ! length L)"
      using k less.prems by (intro less.hyps) auto
    with Some k(3) show ?thesis
      by (subst find_last.simps) (simp add: nx)
  next
    case None
    show ?thesis
    proof (cases "l = 0")
      case True
      have "\<not> i < length L"
      proof
        assume i: "i < length L"
        then have "1 \<le> height sl (L ! i)"
          using sh by (simp add: shape_def)
        with find_drop_None [OF None order_refl i] True show False by simp
      qed
      with less.prems(1) have "i = length L" by simp
      with True None nx show ?thesis
        by (subst find_last.simps) simp
    next
      case False
      have "find_last sl ((0 # L) ! i) (l - 1) = Some ((0 # L) ! length L)"
        using False less.prems by (intro less.hyps) auto
      with False None show ?thesis
        by (subst find_last.simps) (simp add: nx)
    qed
  qed
qed

lemma find_lt_find_ge:
  assumes "find_ge cmp sl key x level prev = Some rp" "0 < length prev"
  shows "map_option Some (find_lt cmp sl key x level) = Some (snd rp ! 0)"
proof -
  have "0 < length prev \<longrightarrow> map_option Some (find_lt cmp sl key x level) = Some (snd rp ! 0)"
  proof (rule find_ge.raw_induct [where P = "\<lambda>cmp sl key x level prev rp. 0 < length prev \<longrightarrow>
      map_option Some (find_lt cmp sl key x level) = Some (snd rp ! 0)"
      and xa = "(((((cmp, sl), key), x), level), prev)" and y = rp, unfolded prod.case, OF _ assms(1)])
    fix find_ge cmp sl key x level prev rp
    assume IH: "\<And>cmp sl key x level prev rp. find_ge cmp sl key x level prev = Some rp \<Longrightarrow>
        0 < length prev \<longrightarrow> map_option Some (find_lt cmp sl key x level) = Some (snd rp ! 0)"
      and run: "Next sl x level \<bind> (\<lambda>nxt. KeyIsAfterNode cmp sl key nxt \<bind> (\<lambda>after.
        if after then find_ge cmp sl key (the nxt) level prev
        else let prev = prev[level := Some x]
             in if level = 0 then Some (nxt, prev) else find_ge cmp sl key x (level - 1) prev)) = Some rp"
    obtain nxt after where n: "Next sl x level = Some nxt" "KeyIsAfterNode cmp sl key nxt = Some after"
      using run by (auto split: bind_splits)
    show "0 < length prev \<longrightarrow> map_option Some (find_lt cmp sl key x level) = Some (snd rp ! 0)"
      using run n IH [of cmp sl key "the nxt" level prev rp] IH [of cmp sl key x "level - 1" "prev[level := Some x]" rp]
      by (subst find_lt.simps) (auto simp: Let_def split: if_splits)
  qed
  with assms(2) show ?thesis by simp
qed

lemma Next_bottom:
  assumes sh: "shape sl L" and li: "linked sl L" and i: "i \<le> length L"
  shows "Next sl ((0 # L) ! i) 0 = Some (if i < length L then Some (L ! i) else None)"
proof -
  have x: "(0 # L) ! i \<in> set (0 # L)"
    using i by (intro nth_mem) simp
  then have "0 < height sl ((0 # L) ! i)"
    using sh by (auto simp: shape_def kMaxHeight_def)
  note nx = Next_linked [OF sh li i this]
  show ?thesis
  proof (cases "i < length L")
    case True
    then have "drop i L = L ! i # drop (Suc i) L"
      by (simp add: Cons_nth_drop_Suc)
    moreover have "0 < height sl (L ! i)"
      using nth_mem [OF True] sh by (fastforce simp: shape_def)
    ultimately show ?thesis
      using True nx by simp
  qed (use nx in simp)
qed

locale key_order =
  fixes cmp :: "'k \<Rightarrow> 'k \<Rightarrow> int"
  assumes cmp_less: "cmp a b < 0 \<longleftrightarrow> 0 < cmp b a"
    and cmp_trans: "cmp a b \<le> 0 \<Longrightarrow> cmp b c \<le> 0 \<Longrightarrow> cmp a c \<le> 0"
begin

lemma cmp_le_less: "cmp a b \<le> 0 \<Longrightarrow> cmp b c < 0 \<Longrightarrow> cmp a c < 0"
  using cmp_trans [of a b c] cmp_trans [of c a b] cmp_less [of b c] cmp_less [of a c]
  by (metis cmp_less linorder_not_less order_less_le)

lemma cmp_less_le: "cmp a b < 0 \<Longrightarrow> cmp b c \<le> 0 \<Longrightarrow> cmp a c < 0"
  using cmp_trans [of b c a] cmp_less [of a b] cmp_less [of a c] by linarith

lemma rank_le: "rank cmp sl key L \<le> length L"
  by (simp add: rank_def length_takeWhile_le)

lemma before_rank:
  assumes "ordered cmp sl L" "i < length L"
  shows "cmp (key_of sl (L ! i)) key < 0 \<longleftrightarrow> i < rank cmp sl key L"
proof
  assume less: "cmp (key_of sl (L ! i)) key < 0"
  show "i < rank cmp sl key L"
  proof (rule ccontr)
    assume "\<not> ?thesis"
    then have j: "rank cmp sl key L \<le> i"
      by simp
    let ?j = "rank cmp sl key L"
    have "\<not> cmp (key_of sl (L ! ?j)) key < 0"
      using j assms(2) unfolding rank_def by (intro nth_length_takeWhile) simp
    moreover have "cmp (key_of sl (L ! ?j)) (key_of sl (L ! i)) \<le> 0" if "?j < i"
      using sorted_wrt_nth_less [OF assms(1) [unfolded ordered_def] that assms(2)] by simp
    ultimately show False
      using less j cmp_le_less by (metis order_le_less)
  qed
next
  assume "i < rank cmp sl key L"
  then show "cmp (key_of sl (L ! i)) key < 0"
    unfolding rank_def by (metis nth_mem set_takeWhileD takeWhile_nth)
qed

lemma find_ge_run:
  assumes inv: "skip_inv cmp sl L"
    and "i \<le> rank cmp sl key L" "l < height sl ((0 # L) ! i)" "l < max_height sl"
    and "length prev = kMaxHeight"
    and "\<And>l'. l < l' \<Longrightarrow> l' < max_height sl \<Longrightarrow> prev_ok sl L (rank cmp sl key L) prev l'"
  shows "\<exists>prev'. find_ge cmp sl key ((0 # L) ! i) l prev
      = Some (if rank cmp sl key L < length L then Some (L ! rank cmp sl key L) else None, prev') \<and>
      length prev' = kMaxHeight \<and> (\<forall>l'<max_height sl. prev_ok sl L (rank cmp sl key L) prev' l')"
  using assms(2-)
proof (induction "length L - i + l" arbitrary: i l prev rule: less_induct)
  case less
  let ?j = "rank cmp sl key L"
  let ?f = "List.find (\<lambda>n. l < height sl n) (drop i L)"
  have sh: "shape sl L" and li: "linked sl L" and ord: "ordered cmp sl L"
    using inv by (auto simp: skip_inv_def)
  have iL: "i \<le> length L"
    using less.prems(1) rank_le [of sl key L] by simp
  note nx = Next_linked [OF sh li iL less.prems(2)]
  have stop: ?case if key: "KeyIsAfterNode cmp sl key ?f = Some False"
    and gap: "\<And>m. i \<le> m \<Longrightarrow> m < ?j \<Longrightarrow> height sl (L ! m) \<le> l"
  proof -
    have "last_tall sl L ?j l i"
      unfolding last_tall_def using less.prems(1,2) gap
      by (auto simp: nth_Cons' intro!: gap)
    moreover have "l < kMaxHeight"
      using less.prems(3) sh by (simp add: shape_def)
    ultimately have here: "prev_ok sl L ?j (prev[l := Some ((0 # L) ! i)]) l"
      using less.prems(4) by (auto simp: prev_ok_def)
    have above: "prev_ok sl L ?j (prev[l := Some ((0 # L) ! i)]) l'" if "l \<le> l'" "l' < max_height sl" for l'
      using here less.prems(5) [of l'] that by (cases "l' = l") (auto simp: prev_ok_def)
    have step: "find_ge cmp sl key ((0 # L) ! i) l prev =
        (if l = 0 then Some (?f, prev[l := Some ((0 # L) ! i)])
         else find_ge cmp sl key ((0 # L) ! i) (l - 1) (prev[l := Some ((0 # L) ! i)]))"
      by (subst find_ge.simps) (simp add: nx key)
    show ?case
    proof (cases "l = 0")
      case True
      have pos: "\<And>n. n \<in> set L \<Longrightarrow> 0 < height sl n"
        using sh by (auto simp: shape_def)
      have ij: "i = ?j"
      proof (rule ccontr)
        assume "i \<noteq> ?j"
        then have "i < ?j"
          using less.prems(1) by simp
        moreover from this have "L ! i \<in> set L"
          using rank_le [of sl key L] by (intro nth_mem) simp
        ultimately show False
          using gap [of i] pos True by fastforce
      qed
      have "?f = (if ?j < length L then Some (L ! ?j) else None)"
      proof (cases "?j < length L")
        case True
        then have "drop i L = L ! ?j # drop (Suc ?j) L"
          using ij by (simp add: Cons_nth_drop_Suc)
        with True \<open>l = 0\<close> pos [of "L ! ?j"] show ?thesis
          by simp
      qed (use ij in simp)
      with above True less.prems(4) step show ?thesis
        by simp
    next
      case False
      have "\<exists>prev'. find_ge cmp sl key ((0 # L) ! i) (l - 1) (prev[l := Some ((0 # L) ! i)])
        = Some (if ?j < length L then Some (L ! ?j) else None, prev') \<and>
        length prev' = kMaxHeight \<and> (\<forall>l'<max_height sl. prev_ok sl L ?j prev' l')"
        using False less.prems above by (intro less.hyps) auto
      with False step show ?thesis
        by simp
    qed
  qed
  show ?case
  proof (cases ?f)
    case None
    then have "height sl (L ! m) \<le> l" if "i \<le> m" "m < ?j" for m
      using find_drop_None [OF None that(1)] that(2) rank_le [of sl key L] by simp
    then show ?thesis
      using None by (intro stop) (simp_all add: KeyIsAfterNode_def)
  next
    case (Some n)
    obtain k where k: "i \<le> k" "k < length L" "n = L ! k" "l < height sl (L ! k)"
      "\<And>m. i \<le> m \<Longrightarrow> m < k \<Longrightarrow> \<not> l < height sl (L ! m)"
      by (rule find_drop_Some [OF Some]) blast
    have after: "KeyIsAfterNode cmp sl key ?f = Some (k < ?j)"
      using k(2,3) Some at_node [OF sh, of n] before_rank [OF ord k(2), of key]
      by (simp add: KeyIsAfterNode_def key_of_def)
    show ?thesis
    proof (cases "k < ?j")
      case True
      have "\<exists>prev'. find_ge cmp sl key ((0 # L) ! Suc k) l prev
        = Some (if ?j < length L then Some (L ! ?j) else None, prev') \<and>
        length prev' = kMaxHeight \<and> (\<forall>l'<max_height sl. prev_ok sl L ?j prev' l')"
        using True less.prems k by (intro less.hyps) auto
      with True Some k(3) after show ?thesis
        by (subst find_ge.simps) (simp add: nx)
    next
      case False
      with k(5) show ?thesis
        using after by (intro stop) (auto simp: not_less)
    qed
  qed
qed

lemma FindGreaterOrEqual_run:
  assumes inv: "skip_inv cmp sl L"
  shows "\<exists>prev. FindGreaterOrEqual cmp sl key
      = Some (if rank cmp sl key L < length L then Some (L ! rank cmp sl key L) else None, prev) \<and>
      length prev = kMaxHeight \<and> (\<forall>l<max_height sl. prev_ok sl L (rank cmp sl key L) prev l)"
proof -
  have sh: "shape sl L"
    using inv by (simp add: skip_inv_def)
  show ?thesis
    unfolding FindGreaterOrEqual_def
    using find_ge_run [OF inv, of 0 key "max_height sl - 1" "replicate kMaxHeight None"] sh
    by (auto simp: shape_def)
qed

lemma Insert_run:
  assumes inv: "skip_inv cmp sl L" and fresh: "\<And>n. n \<in> set L \<Longrightarrow> cmp (key_of sl n) key \<noteq> 0"
  defines "j \<equiv> rank cmp sl key L"
  shows "\<exists>sl'. Insert cmp key sl = Some sl' \<and> skip_inv cmp sl' (take j L @ length (nodes sl) # drop j L) \<and>
    length (nodes sl') = Suc (length (nodes sl)) \<and> key_of sl' (length (nodes sl)) = key \<and>
    (\<forall>n\<in>set L. key_of sl' n = key_of sl n)"
proof -
  have sh: "shape sl L" and li: "linked sl L" and ord: "ordered cmp sl L"
    using inv by (auto simp: skip_inv_def)
  let ?N = "length (nodes sl)"
  let ?L = "take j L @ ?N # drop j L"
  obtain prev where prev: "FindGreaterOrEqual cmp sl key = Some (if j < length L then Some (L ! j) else None, prev)"
    "length prev = kMaxHeight" "\<And>l. l < max_height sl \<Longrightarrow> prev_ok sl L j prev l"
    using FindGreaterOrEqual_run [OF inv, of key] unfolding j_def by blast
  obtain h seed where h: "RandomHeight_loop 1 (rnd sl) = (h, seed)"
    by fastforce
  have hb: "1 \<le> h" "h \<le> kMaxHeight"
    using RandomHeight_loop_bounds [of 1 "rnd sl"] h by (simp_all add: kMaxHeight_def)
  define prev' where "prev' = (if h > max_height sl
    then foldl (\<lambda>prev i. prev[i := Some 0]) prev [max_height sl..<h] else prev)"
  define s1 where "s1 = sl\<lparr>rnd := seed, max_height := max h (max_height sl),
    nodes := nodes sl @ [\<lparr>node_key = key, next_ptrs = replicate h None\<rparr>]\<rparr>"
  have j: "j \<le> length L"
    by (simp add: j_def rank_le)
  have all: "x \<in> set (0 # L) \<longleftrightarrow> x < ?N" for x
    using sh by (auto simp: shape_def)
  then have in0: "n \<in> set (0 # L) \<Longrightarrow> n < ?N" for n
    by blast
  have len': "length prev' = kMaxHeight"
    by (simp add: prev'_def prev(2) extend_prev)
  have prev_l: "prev_ok sl L j prev' l" if "l < h" for l
  proof (cases "l < max_height sl")
    case True
    then have "prev' ! l = prev ! l"
      using that hb prev(2) by (simp add: prev'_def extend_prev)
    with prev(3) [OF True] show ?thesis
      by (simp add: prev_ok_def)
  next
    case False
    then have "prev' ! l = Some ((0 # L) ! 0)"
      using that hb prev(2) by (simp add: prev'_def extend_prev)
    moreover have "last_tall sl L j l 0"
      unfolding last_tall_def
    proof (intro conjI allI impI)
      show "l < height sl ((0 # L) ! 0)"
        using sh that hb by (simp add: shape_def)
      fix i
      assume i: "0 < i \<and> i \<le> j"
      then have "(0 # L) ! i \<in> set L"
        using j by (cases i) auto
      then show "height sl ((0 # L) ! i) \<le> l"
        using sh False by (fastforce simp: shape_def)
    qed simp
    ultimately show ?thesis
      unfolding prev_ok_def by blast
  qed
  have old: "key_of s1 x = key_of sl x" "height s1 x = height sl x" "ptr s1 x l = ptr sl x l" if "x < ?N" for x l
    using that by (simp_all add: s1_def key_of_def height_def ptr_def nth_append)
  have new: "key_of s1 ?N = key" "height s1 ?N = h"
    by (simp_all add: s1_def key_of_def height_def)
  have pre: "i < height s1 ?N \<and> i < length prev' \<and>
      (\<exists>p. prev' ! i = Some p \<and> p < length (nodes s1) \<and> p \<noteq> ?N \<and> i < height s1 p)"
    if i: "i \<in> set [0..<h]" for i
  proof -
    have ih: "i < h"
      using i by simp
    obtain p where p: "prev' ! i = Some ((0 # L) ! p)" "p \<le> j" "i < height sl ((0 # L) ! p)"
      using prev_l [OF ih] by (auto simp: prev_ok_def last_tall_def)
    have "(0 # L) ! p \<in> set (0 # L)"
      using p(2) j by (intro nth_mem) simp
    then have "(0 # L) ! p < ?N"
      by (rule in0)
    with p ih hb len' old new show ?thesis
      by (simp add: s1_def)
  qed
  obtain s2 where s2: "link_levels ?N [0..<h] prev' s1 = Some s2" "max_height s2 = max_height s1"
    "length (nodes s2) = length (nodes s1)" "key_of s2 = key_of s1" "height s2 = height s1"
    "ptr s2 = (\<lambda>x l. if l \<in> set [0..<h]
      then if x = ?N then ptr s1 (the (prev' ! l)) l else if prev' ! l = Some x then Some ?N else ptr s1 x l
      else ptr s1 x l)"
    using link_levels_run [of "[0..<h]" ?N s1 prev', OF _ _ pre] by (auto simp: s1_def)
  have run: "Insert cmp key sl = Some s2"
    using s2(1) unfolding Insert_def
    by (simp add: prev(1) RandomHeight_def h [unfolded One_nat_def] s1_def prev'_def max_def Let_def split: if_splits)
  have keys: "key_of s2 n = key_of sl n" if "n \<in> set L" for n
    using old(1) in0 that s2(4) by simp
  have "linked s2 ?L"
  proof (rule linked_insert [OF li _ _ j _ _ prev_l])
    show "distinct (0 # L)"
      using sh by (simp add: shape_def)
    show "?N \<notin> set (0 # L)"
      using all by blast
    show "height s2 x = height sl x" if "x \<in> set (0 # L)" for x
      using in0 [OF that] old(2) s2(5) by simp
    show "height s2 ?N = h"
      using s2(5) new(2) by simp
    show "ptr s2 x l = (if l < h \<and> prev' ! l = Some x then Some ?N else ptr sl x l)"
      if "x \<in> set (0 # L)" for x l
      using in0 [OF that] old(3) [of x l] s2(6) by auto
    show "ptr s2 ?N l = ptr sl (the (prev' ! l)) l" if "l < h" for l
    proof -
      have "the (prev' ! l) < ?N"
        using pre [of l] that by (auto simp: s1_def)
      with that old(3) s2(6) show ?thesis
        by simp
    qed
  qed
  moreover have "shape s2 ?L"
  proof -
    have sL: "set ?L = insert ?N (set L)"
      by (metis append_take_drop_id list.simps(15) set_append Un_insert_right)
    have N0: "?N \<notin> set (0 # L)"
      using all by blast
    have "distinct (0 # ?L)"
      using sh N0 in_set_takeD [of _ j L] in_set_dropD [of _ j L] set_take_disj_set_drop_if_distinct [of L j j]
      by (auto simp: shape_def)
    moreover have "set (0 # ?L) = {..<length (nodes s2)}"
    proof -
      have "set (0 # ?L) = insert ?N (set (0 # L))"
        using sL by auto
      also have "\<dots> = insert ?N {..<?N}"
        using sh by (simp only: shape_def)
      finally show ?thesis
        using s2(3) by (simp add: s1_def lessThan_Suc)
    qed
    moreover have "height s2 0 = kMaxHeight"
    proof -
      have "0 < ?N"
        by (rule in0) simp
      with sh s2(5) old(2) [of 0] show ?thesis
        by (simp add: shape_def)
    qed
    moreover have "1 \<le> height s2 n \<and> height s2 n \<le> max_height s2" if "n \<in> set ?L" for n
    proof (cases "n = ?N")
      case False
      with that sL have "n \<in> set L" by blast
      then have "n < ?N"
        by (intro in0) simp
      moreover have "1 \<le> height sl n" "height sl n \<le> max_height sl"
        using sh \<open>n \<in> set L\<close> by (simp_all add: shape_def)
      moreover from calculation have "height s2 n = height sl n"
        using old(2) s2(5) by simp
      ultimately show ?thesis
        using s2(2) by (simp add: s1_def)
    qed (use new(2) hb s2(2,5) in \<open>simp add: s1_def\<close>)
    moreover have "1 \<le> max_height s2 \<and> max_height s2 \<le> kMaxHeight"
      using sh hb s2(2) by (auto simp: shape_def s1_def)
    ultimately show ?thesis
      unfolding shape_def by blast
  qed
  moreover have "ordered cmp s2 ?L"
  proof -
    let ?R = "\<lambda>a b. cmp (key_of s2 a) (key_of s2 b) < 0"
    have "sorted_wrt ?R L"
      using ord unfolding ordered_def by (rule sorted_wrt_mono_rel [rotated]) (simp add: keys)
    then have sorted: "sorted_wrt ?R (take j L)" "sorted_wrt ?R (drop j L)"
      "\<And>a b. a \<in> set (take j L) \<Longrightarrow> b \<in> set (drop j L) \<Longrightarrow> ?R a b"
      using sorted_wrt_append [of ?R "take j L" "drop j L"] by auto
    have below: "?R a ?N" if a: "a \<in> set (take j L)" for a
    proof -
      obtain i where "i < j" "a = L ! i" "i < length L"
        using a j by (auto simp: in_set_conv_nth)
      with before_rank [OF ord, of i key] keys [of a] new(1) s2(4) show ?thesis
        by (simp add: j_def)
    qed
    have above: "?R ?N b" if b: "b \<in> set (drop j L)" for b
    proof -
      obtain i where i: "j \<le> i" "b = L ! i" "i < length L"
        using b j by (auto simp: in_set_conv_nth less_diff_conv2) (metis add.commute le_add1 less_diff_conv)
      have "\<not> cmp (key_of sl b) key < 0"
        using before_rank [OF ord i(3), of key] i by (simp add: j_def)
      with fresh [of b] i have "0 < cmp (key_of sl b) key"
        by (simp add: order_less_le)
      then have "cmp key (key_of sl b) < 0"
        using cmp_less by blast
      with keys [of b] i new(1) s2(4) show ?thesis
        by simp
    qed
    show ?thesis
      unfolding ordered_def using sorted below above by (auto simp: sorted_wrt_append)
  qed
  ultimately show ?thesis
    using run s2(3,4) new(1) keys by (auto simp: skip_inv_def s1_def)
qed

lemma last_tall_bottom:
  assumes sh: "shape sl L" and j: "j \<le> length L" and p: "last_tall sl L j 0 p"
  shows "p = j"
proof (rule ccontr)
  assume "p \<noteq> j"
  with p have "p < j" "height sl ((0 # L) ! j) \<le> 0"
    by (auto simp: last_tall_def)
  moreover from this j have "(0 # L) ! j \<in> set L"
    by (cases j) auto
  ultimately show False
    using sh by (fastforce simp: shape_def)
qed

lemma FindLessThan_run:
  assumes inv: "skip_inv cmp sl L"
  shows "FindLessThan cmp sl key = Some ((0 # L) ! rank cmp sl key L)"
proof -
  have sh: "shape sl L"
    using inv by (simp add: skip_inv_def)
  obtain r prev where run: "FindGreaterOrEqual cmp sl key = Some (r, prev)"
    and "prev_ok sl L (rank cmp sl key L) prev 0"
    using FindGreaterOrEqual_run [OF inv, of key] sh by (auto simp: shape_def)
  then obtain p where p: "prev ! 0 = Some ((0 # L) ! p)" "last_tall sl L (rank cmp sl key L) 0 p"
    by (auto simp: prev_ok_def)
  have "p = rank cmp sl key L"
    by (rule last_tall_bottom [OF sh rank_le p(2)])
  moreover have "map_option Some (FindLessThan cmp sl key) = Some (prev ! 0)"
    using find_lt_find_ge [OF run [unfolded FindGreaterOrEqual_def]] by (simp add: FindLessThan_def kMaxHeight_def)
  ultimately show ?thesis
    using p(1) by auto
qed

lemma cmp_zero: "cmp a b = 0 \<longleftrightarrow> cmp b a = 0"
  using cmp_less [of a b] cmp_less [of b a] by linarith

lemma cmp_refl: "cmp a a = 0"
  using cmp_less [of a a] by linarith

lemma rank_self:
  assumes ord: "ordered cmp sl L" and i: "i < length L"
  shows "rank cmp sl (key_of sl (L ! i)) L = i"
proof -
  have "m < rank cmp sl (key_of sl (L ! i)) L \<longleftrightarrow> m < i" if m: "m < length L" for m
  proof -
    have "cmp (key_of sl (L ! m)) (key_of sl (L ! i)) < 0" if "m < i"
      using sorted_wrt_nth_less [OF ord [unfolded ordered_def] that i] .
    moreover have "0 < cmp (key_of sl (L ! m)) (key_of sl (L ! i))" if "i < m"
      using sorted_wrt_nth_less [OF ord [unfolded ordered_def] that m] cmp_less by blast
    ultimately show ?thesis
      using before_rank [OF ord m, of "key_of sl (L ! i)"] cmp_refl [of "key_of sl (L ! i)"]
      by (metis less_asym less_irrefl linorder_less_linear)
  qed
  then show ?thesis
    using i rank_le [of sl "key_of sl (L ! i)" L] by (metis less_irrefl linorder_neqE_nat order_less_le_trans)
qed

lemma Contains_run:
  assumes inv: "skip_inv cmp sl L"
  shows "Contains cmp key sl = Some (\<exists>n\<in>set L. cmp key (key_of sl n) = 0)"
proof -
  have sh: "shape sl L" and ord: "ordered cmp sl L"
    using inv by (auto simp: skip_inv_def)
  let ?j = "rank cmp sl key L"
  have eq: "i = ?j" if i: "i < length L" "cmp key (key_of sl (L ! i)) = 0" for i
  proof -
    have z: "cmp (key_of sl (L ! i)) key = 0"
      using i(2) cmp_zero by blast
    then have ge: "?j \<le> i"
      using before_rank [OF ord i(1), of key] by simp
    have "\<not> ?j < i"
    proof
      assume less: "?j < i"
      then have "cmp (key_of sl (L ! ?j)) (key_of sl (L ! i)) < 0"
        using sorted_wrt_nth_less [OF ord [unfolded ordered_def] less i(1)] by simp
      then have "cmp (key_of sl (L ! ?j)) key < 0"
        by (rule cmp_less_le) (simp add: z)
      then show False
        using before_rank [OF ord, of ?j key] less i(1) by simp
    qed
    with ge show ?thesis by simp
  qed
  obtain prev where run: "FindGreaterOrEqual cmp sl key = Some (if ?j < length L then Some (L ! ?j) else None, prev)"
    using FindGreaterOrEqual_run [OF inv, of key] by blast
  have mem: "(\<exists>n\<in>set L. cmp key (key_of sl n) = 0) \<longleftrightarrow> ?j < length L \<and> cmp key (key_of sl (L ! ?j)) = 0"
    using eq by (metis in_set_conv_nth)
  have "at (nodes sl) (L ! ?j) = Some (nodes sl ! (L ! ?j))" if "?j < length L"
    using that by (intro at_node [OF sh]) simp
  then show ?thesis
    unfolding Contains_def mem by (simp add: run key_of_def)
qed

lemma iterator_run:
  assumes inv: "skip_inv cmp sl L" and i: "i < length L"
  shows "Iterator_Next sl (L ! i) = Some (if Suc i < length L then Some (L ! Suc i) else None)"
    and "Iterator_Prev cmp sl (L ! i) = Some (if i = 0 then None else Some (L ! (i - 1)))"
proof -
  have sh: "shape sl L" and li: "linked sl L" and ord: "ordered cmp sl L"
    using inv by (auto simp: skip_inv_def)
  show "Iterator_Next sl (L ! i) = Some (if Suc i < length L then Some (L ! Suc i) else None)"
    using Next_bottom [OF sh li, of "Suc i"] i by (simp add: Iterator_Next_def)
  have "FindLessThan cmp sl (key_of sl (L ! i)) = Some ((0 # L) ! i)"
    using FindLessThan_run [OF inv, of "key_of sl (L ! i)"] rank_self [OF ord i] by simp
  moreover have "0 \<noteq> (0 # L) ! i" if "i \<noteq> 0"
  proof -
    have "(0 # L) ! i \<in> set L"
      using that i by (cases i) auto
    with sh show ?thesis
      by (metis distinct.simps(2) shape_def)
  qed
  moreover have "at (nodes sl) (L ! i) = Some (nodes sl ! (L ! i))"
    using i by (intro at_node [OF sh]) simp
  ultimately show "Iterator_Prev cmp sl (L ! i) = Some (if i = 0 then None else Some (L ! (i - 1)))"
    by (cases "i = 0") (simp_all add: Iterator_Prev_def key_of_def)
qed

lemma iterator_ends:
  assumes inv: "skip_inv cmp sl L"
  shows "Iterator_SeekToFirst sl = Some (if L = [] then None else Some (hd L))"
    and "Iterator_SeekToLast sl = Some (if L = [] then None else Some (last L))"
proof -
  have sh: "shape sl L" and li: "linked sl L"
    using inv by (auto simp: skip_inv_def)
  show "Iterator_SeekToFirst sl = Some (if L = [] then None else Some (hd L))"
    using Next_bottom [OF sh li, of 0] by (auto simp: Iterator_SeekToFirst_def hd_conv_nth)
  have "find_last sl ((0 # L) ! 0) (max_height sl - 1) = Some ((0 # L) ! length L)"
    using sh by (intro find_last_run [OF sh li]) (auto simp: shape_def)
  then have "FindLast sl = Some (last (0 # L))"
    by (simp add: FindLast_def last_conv_nth)
  moreover have "last L \<noteq> 0" if "L \<noteq> []"
    using sh that by (metis distinct.simps(2) last_in_set shape_def)
  ultimately show "Iterator_SeekToLast sl = Some (if L = [] then None else Some (last L))"
    by (cases "L = []") (simp_all add: Iterator_SeekToLast_def)
qed

end


section \<open>Properties\<close>

text \<open>From a seed in the range 1 to 2^31 - 2 the generator computes seed * 16807 modulo 2^31 - 1 without a
  division, and the result is again in that range; every seed passed to the constructor is brought into
  it.\<close>

theorem leveldb_random:
  assumes "0 < unat s" "unat s < 2147483647"
  shows "unat (Random_Next s) = unat s * 16807 mod 2147483647 \<and>
    0 < unat (Random_Next s) \<and> unat (Random_Next s) < 2147483647 \<and>
    0 < unat (Random_init r) \<and> unat (Random_init r) < 2147483647"
proof -
  have "unat (r AND 0x7fffffff) < 2147483648"
  proof -
    have "r AND 0x7fffffff = r AND mask 31"
      by (simp add: mask_eq_exp_minus_1)
    then show ?thesis
      by (simp only: unat_and_mask_eq) simp
  qed
  then have "0 < unat (Random_init r) \<and> unat (Random_init r) < 2147483647"
    by (auto simp: Random_init_def Let_def word_unat_eq_iff)
  then show ?thesis
    using Random_Next_eq [OF assms] Random_Next_range [OF assms] by simp
qed

theorem leveldb_random_witness:
  "unat (Random_Next 1) = 16807"
  using leveldb_random [of 1] by simp

end
