(* ===== verification/Leveldb_Memtable.thy ===== *)
theory Leveldb_Memtable
  imports Leveldb_Coding Leveldb_Status Leveldb_Skiplist "HOL-Library.List_Lexorder"
begin

text \<open>
  The write and read path of LevelDB through its memtable: \<open>include/leveldb/slice.h\<close>, \<open>util/comparator.cc\<close>,
  \<open>db/dbformat.h\<close>, \<open>db/dbformat.cc\<close>, \<open>db/memtable.cc\<close> and \<open>db/write_batch.cc\<close>. A \<open>Slice\<close> and a
  \<open>std::string\<close> are the list of their bytes. \<open>None\<close> stands for an access outside an object, as in the
  other theories; assertions are compiled out.
\<close>

unbundle bit_operations_syntax

section \<open>Slices and the bytewise order\<close>

fun memcmp :: "bytes \<Rightarrow> bytes \<Rightarrow> int" where
  "memcmp (a # as) (b # bs) = (if a < b then -1 else if a > b then 1 else memcmp as bs)"
| "memcmp _ _ = 0"

definition Slice_compare :: "bytes \<Rightarrow> bytes \<Rightarrow> int" where
  "Slice_compare a b =
    (let min_len = (if length a < length b then length a else length b);
         r = memcmp (take min_len a) (take min_len b)
     in if r = 0 then if length a < length b then -1 else if length a > length b then 1 else r
        else r)"

fun common_prefix :: "bytes \<Rightarrow> bytes \<Rightarrow> nat" where
  "common_prefix (a # as) (b # bs) = (if a = b then Suc (common_prefix as bs) else 0)"
| "common_prefix _ _ = 0"

definition FindShortestSeparator :: "bytes \<Rightarrow> bytes \<Rightarrow> bytes" where
  "FindShortestSeparator start limit =
    (let min_length = min (length start) (length limit);
         diff_index = common_prefix start limit
     in if diff_index \<ge> min_length then start
        else
          let diff_byte = start ! diff_index
          in if diff_byte < 0xff \<and> unat diff_byte + 1 < unat (limit ! diff_index)
             then take (diff_index + 1) (start[diff_index := diff_byte + 1])
             else start)"

fun FindShortSuccessor :: "bytes \<Rightarrow> bytes" where
  "FindShortSuccessor [] = []"
| "FindShortSuccessor (byte # key) = (if byte \<noteq> 0xff then [byte + 1] else byte # FindShortSuccessor key)"


section \<open>Internal keys\<close>

datatype ValueType = kTypeDeletion | kTypeValue

fun type_code :: "ValueType \<Rightarrow> unit64" where
  "type_code kTypeDeletion = 0"
| "type_code kTypeValue = 1"

definition kValueTypeForSeek :: ValueType where
  "kValueTypeForSeek = kTypeValue"

definition kMaxSequenceNumber :: unit64 where
  "kMaxSequenceNumber = push_bit 56 1 - 1"

record ParsedInternalKey =
  pk_user_key :: bytes
  pk_sequence :: unit64
  pk_type :: ValueType

definition PackSequenceAndType :: "unit64 \<Rightarrow> ValueType \<Rightarrow> unit64" where
  "PackSequenceAndType seq t = push_bit 8 seq OR type_code t"

definition AppendInternalKey :: "bytes \<Rightarrow> ParsedInternalKey \<Rightarrow> bytes" where
  "AppendInternalKey result key =
     PutFixed64 (result @ pk_user_key key) (PackSequenceAndType (pk_sequence key) (pk_type key))"

definition ExtractUserKey :: "bytes \<Rightarrow> bytes" where
  "ExtractUserKey internal_key = take (length internal_key - 8) internal_key"

text \<open>The tag in the last eight bytes; internal keys have at least eight (an assertion of the code).\<close>

definition key_tag :: "bytes \<Rightarrow> unit64" where
  "key_tag internal_key =
     (case DecodeFixed64 (drop (length internal_key - 8) internal_key) of Some num \<Rightarrow> num | None \<Rightarrow> 0)"

text \<open>\<open>None\<close> is the result \<open>false\<close>.\<close>

definition ParseInternalKey :: "bytes \<Rightarrow> ParsedInternalKey option" where
  "ParseInternalKey internal_key =
    (let n = length internal_key
     in if n < 8 then None
        else
          let num = key_tag internal_key;
              c = num AND 0xff
          in if c = 0 then Some \<lparr>pk_user_key = take (n - 8) internal_key, pk_sequence = drop_bit 8 num,
                pk_type = kTypeDeletion\<rparr>
             else if c = 1 then Some \<lparr>pk_user_key = take (n - 8) internal_key, pk_sequence = drop_bit 8 num,
                pk_type = kTypeValue\<rparr>
             else None)"

definition InternalKey_Compare :: "bytes \<Rightarrow> bytes \<Rightarrow> int" where
  "InternalKey_Compare akey bkey =
    (let r = Slice_compare (ExtractUserKey akey) (ExtractUserKey bkey)
     in if r = 0 then
          let anum = key_tag akey; bnum = key_tag bkey
          in if anum > bnum then -1 else if anum < bnum then 1 else r
        else r)"

definition InternalKey_FindShortestSeparator :: "bytes \<Rightarrow> bytes \<Rightarrow> bytes" where
  "InternalKey_FindShortestSeparator start limit =
    (let user_start = ExtractUserKey start;
         user_limit = ExtractUserKey limit;
         tmp = FindShortestSeparator user_start user_limit
     in if length tmp < length user_start \<and> Slice_compare user_start tmp < 0
        then PutFixed64 tmp (PackSequenceAndType kMaxSequenceNumber kValueTypeForSeek)
        else start)"

definition InternalKey_FindShortSuccessor :: "bytes \<Rightarrow> bytes" where
  "InternalKey_FindShortSuccessor key =
    (let user_key = ExtractUserKey key;
         tmp = FindShortSuccessor user_key
     in if length tmp < length user_key \<and> Slice_compare user_key tmp < 0
        then PutFixed64 tmp (PackSequenceAndType kMaxSequenceNumber kValueTypeForSeek)
        else key)"

text \<open>A \<open>LookupKey\<close>: the bytes from \<open>start_\<close>, of which the first \<open>kstart_ - start_\<close> are the length.\<close>

record LookupKey =
  lk_start :: bytes
  lk_kstart :: nat

definition new_LookupKey :: "bytes \<Rightarrow> unit64 \<Rightarrow> LookupKey" where
  "new_LookupKey user_key s =
    (let len = EncodeVarint32 (word_of_nat (length user_key + 8))
     in \<lparr>lk_start = len @ user_key @ EncodeFixed64 (PackSequenceAndType s kValueTypeForSeek),
         lk_kstart = length len\<rparr>)"

definition memtable_key :: "LookupKey \<Rightarrow> bytes" where
  "memtable_key key = lk_start key"

definition internal_key :: "LookupKey \<Rightarrow> bytes" where
  "internal_key key = drop (lk_kstart key) (lk_start key)"

definition user_key :: "LookupKey \<Rightarrow> bytes" where
  "user_key key = take (length (lk_start key) - lk_kstart key - 8) (drop (lk_kstart key) (lk_start key))"


section \<open>The memtable\<close>

text \<open>
  An entry is a pointer to the bytes \<open>Add\<close> wrote. \<open>GetVarint32Ptr\<close> reads at most five bytes, so its limit
  \<open>p + 5\<close> never matters.
\<close>

definition entry_slice :: "bytes \<Rightarrow> bytes option" where
  "entry_slice data = do { (len, p) \<leftarrow> GetVarint32Ptr data; slice p 0 (unat len) }"

text \<open>The comparator is only called on entries and lookup keys, which decode (\<open>entry_slice_entry\<close>).\<close>

definition KeyComparator :: "bytes \<Rightarrow> bytes \<Rightarrow> int" where
  "KeyComparator aptr bptr =
    (let a = (case entry_slice aptr of Some a \<Rightarrow> a | None \<Rightarrow> []);
         b = (case entry_slice bptr of Some b \<Rightarrow> b | None \<Rightarrow> [])
     in InternalKey_Compare a b)"

definition EncodeKey :: "bytes \<Rightarrow> bytes" where
  "EncodeKey target = PutVarint32 [] (word_of_nat (length target)) @ target"

definition new_MemTable :: "bytes skiplist" where
  "new_MemTable = new_skiplist []"

definition entry :: "unit64 \<Rightarrow> ValueType \<Rightarrow> bytes \<Rightarrow> bytes \<Rightarrow> bytes" where
  "entry s type key v =
     EncodeVarint32 (word_of_nat (length key + 8)) @ key @ EncodeFixed64 (push_bit 8 s OR type_code type) @
     EncodeVarint32 (word_of_nat (length v)) @ v"

definition Add :: "unit64 \<Rightarrow> ValueType \<Rightarrow> bytes \<Rightarrow> bytes \<Rightarrow> bytes skiplist \<Rightarrow> bytes skiplist option" where
  "Add s type key v table = Insert KeyComparator (entry s type key v) table"

text \<open>\<open>Get\<close> reports a value, a deletion (\<open>NotFound\<close> with the result \<open>true\<close>) or nothing (\<open>false\<close>).\<close>

datatype lookup = Value bytes | Deleted | Absent

definition Get :: "LookupKey \<Rightarrow> bytes skiplist \<Rightarrow> lookup option" where
  "Get key table = do {
     it \<leftarrow> Iterator_Seek KeyComparator table (memtable_key key);
     case it of
       None \<Rightarrow> Some Absent
     | Some x \<Rightarrow> do {
         node \<leftarrow> at (nodes table) x;
         (key_length, key_ptr) \<leftarrow> GetVarint32Ptr (node_key node);
         k \<leftarrow> slice key_ptr 0 (unat (key_length - 8));
         if Slice_compare k (user_key key) = 0 then do {
           tag \<leftarrow> DecodeFixed64 (drop (unat key_length - 8) key_ptr);
           if tag AND 0xff = 1 then do {
             v \<leftarrow> entry_slice (drop (unat key_length) key_ptr);
             Some (Value v)
           }
           else if tag AND 0xff = 0 then Some Deleted
           else Some Absent
         }
         else Some Absent
       }
   }"

text \<open>The key and the value under a memtable iterator.\<close>

definition MemTableIterator_key :: "bytes skiplist \<Rightarrow> nat \<Rightarrow> bytes option" where
  "MemTableIterator_key table x = do { node \<leftarrow> at (nodes table) x; entry_slice (node_key node) }"

definition MemTableIterator_value :: "bytes skiplist \<Rightarrow> nat \<Rightarrow> bytes option" where
  "MemTableIterator_value table x = do {
     node \<leftarrow> at (nodes table) x;
     (len, p) \<leftarrow> GetVarint32Ptr (node_key node);
     entry_slice (drop (unat len) p)
   }"


section \<open>Write batches\<close>

definition kHeader :: nat where
  "kHeader = 12"

definition Clear :: bytes where
  "Clear = replicate kHeader 0"

definition Count :: "bytes \<Rightarrow> unit32 option" where
  "Count rep = DecodeFixed32 (drop 8 rep)"

definition SetCount :: "bytes \<Rightarrow> unit32 \<Rightarrow> bytes option" where
  "SetCount rep n = blit rep 8 (EncodeFixed32 n)"

definition Sequence :: "bytes \<Rightarrow> unit64 option" where
  "Sequence rep = DecodeFixed64 rep"

definition SetSequence :: "bytes \<Rightarrow> unit64 \<Rightarrow> bytes option" where
  "SetSequence rep seq = blit rep 0 (EncodeFixed64 seq)"

definition Batch_Put :: "bytes \<Rightarrow> bytes \<Rightarrow> bytes \<Rightarrow> bytes option" where
  "Batch_Put key v rep = do {
     n \<leftarrow> Count rep;
     rep \<leftarrow> SetCount rep (n + 1);
     let rep = rep @ [ucast (type_code kTypeValue)];
     let rep = PutLengthPrefixedSlice rep key;
     Some (PutLengthPrefixedSlice rep v)
   }"

definition Batch_Delete :: "bytes \<Rightarrow> bytes \<Rightarrow> bytes option" where
  "Batch_Delete key rep = do {
     n \<leftarrow> Count rep;
     rep \<leftarrow> SetCount rep (n + 1);
     let rep = rep @ [ucast (type_code kTypeDeletion)];
     Some (PutLengthPrefixedSlice rep key)
   }"

definition Batch_Append :: "bytes \<Rightarrow> bytes \<Rightarrow> bytes option" where
  "Batch_Append dst src = do {
     m \<leftarrow> Count dst;
     n \<leftarrow> Count src;
     dst \<leftarrow> SetCount dst (m + n);
     rest \<leftarrow> slice src kHeader (length src - kHeader);
     Some (dst @ rest)
   }"

lemma varint32_loop_shorter: "varint32_loop shift p result = Some (v, q) \<Longrightarrow> length q < length p"
proof (induction p arbitrary: shift result)
  case Nil
  then show ?case
    by (subst (asm) varint32_loop.simps) (simp split: if_splits)
next
  case (Cons c p)
  show ?case
  proof (cases "shift \<le> 28 \<and> (ucast c :: unit32) AND 128 \<noteq> 0")
    case True
    then have "varint32_loop shift (c # p) result =
        varint32_loop (shift + 7) p (result OR push_bit shift (ucast c AND 127))"
      by (subst varint32_loop.simps) (simp add: Let_def)
    with Cons show ?thesis
      by (metis length_Cons less_Suc_eq)
  next
    case False
    then have "varint32_loop shift (c # p) result =
        (if shift \<le> 28 then Some (result OR push_bit shift (ucast c), p) else None)"
      by (subst varint32_loop.simps) (simp add: Let_def)
    with Cons.prems show ?thesis
      by (simp split: if_splits)
  qed
qed

lemma GetVarint32_shorter:
  assumes "GetVarint32 p = Some (v, q)"
  shows "length q < length p"
proof (cases p)
  case Nil
  with assms varint32_loop_shorter [of 0 p 0 v q] show ?thesis
    by (simp add: GetVarint32_def GetVarint32Ptr_def GetVarint32PtrFallback_def split: option.splits)
next
  case (Cons c r)
  with assms varint32_loop_shorter [of 0 p 0 v q] show ?thesis
    by (simp add: GetVarint32_def GetVarint32Ptr_def GetVarint32PtrFallback_def Let_def split: option.splits if_splits)
qed

lemma GetLengthPrefixedSlice_shorter: "GetLengthPrefixedSlice p = Some (s, q) \<Longrightarrow> length q < length p"
  by (auto simp: GetLengthPrefixedSlice_def split: Option.bind_splits if_splits prod.splits
      dest!: GetVarint32_shorter)

text \<open>
  The records of a batch, for a handler with its own state: \<open>None\<close> when a handler fails, otherwise the
  status, the state and the number of records found.
\<close>

function batch_records ::
  "(bytes \<Rightarrow> bytes \<Rightarrow> 's \<Rightarrow> 's option) \<Rightarrow> (bytes \<Rightarrow> 's \<Rightarrow> 's option) \<Rightarrow> bytes \<Rightarrow> 's \<Rightarrow> nat \<Rightarrow> (Status \<times> 's \<times> nat) option" where
  "batch_records put delete [] st found = Some (OK, st, found)"
| "batch_records put delete (tag # inp) st found =
    (if tag = ucast (type_code kTypeValue) then
       case GetLengthPrefixedSlice inp of
         None \<Rightarrow> Some (Corruption ''bad WriteBatch Put'', st, found + 1)
       | Some (key, inp') \<Rightarrow>
           (case GetLengthPrefixedSlice inp' of
              None \<Rightarrow> Some (Corruption ''bad WriteBatch Put'', st, found + 1)
            | Some (v, inp'') \<Rightarrow>
                (case put key v st of
                   None \<Rightarrow> None
                 | Some st \<Rightarrow> batch_records put delete inp'' st (found + 1)))
     else if tag = ucast (type_code kTypeDeletion) then
       case GetLengthPrefixedSlice inp of
         None \<Rightarrow> Some (Corruption ''bad WriteBatch Delete'', st, found + 1)
       | Some (key, inp') \<Rightarrow>
           (case delete key st of
              None \<Rightarrow> None
            | Some st \<Rightarrow> batch_records put delete inp' st (found + 1))
     else Some (Corruption ''unknown WriteBatch tag'', st, found + 1))"
  by pat_completeness auto
termination
  by (relation "measure (\<lambda>(put, delete, inp, st, found). length inp)")
    (auto dest!: GetLengthPrefixedSlice_shorter)

definition Iterate ::
  "(bytes \<Rightarrow> bytes \<Rightarrow> 's \<Rightarrow> 's option) \<Rightarrow> (bytes \<Rightarrow> 's \<Rightarrow> 's option) \<Rightarrow> bytes \<Rightarrow> 's \<Rightarrow> (Status \<times> 's) option" where
  "Iterate put delete rep st =
    (if length rep < kHeader then Some (Corruption ''malformed WriteBatch (too small)'', st)
     else do {
       (s, st, found) \<leftarrow> batch_records put delete (drop kHeader rep) st 0;
       if s = OK then do {
         n \<leftarrow> Count rep;
         if int found \<noteq> sint n then Some (Corruption ''WriteBatch has wrong count'', st) else Some (OK, st)
       }
       else Some (s, st)
     })"

text \<open>\<open>MemTableInserter\<close>: the state is the next sequence number and the table.\<close>

definition Inserter_Put :: "bytes \<Rightarrow> bytes \<Rightarrow> unit64 \<times> bytes skiplist \<Rightarrow> (unit64 \<times> bytes skiplist) option" where
  "Inserter_Put key v = (\<lambda>(sequence, mem). do { mem \<leftarrow> Add sequence kTypeValue key v mem; Some (sequence + 1, mem) })"

definition Inserter_Delete :: "bytes \<Rightarrow> unit64 \<times> bytes skiplist \<Rightarrow> (unit64 \<times> bytes skiplist) option" where
  "Inserter_Delete key = (\<lambda>(sequence, mem). do { mem \<leftarrow> Add sequence kTypeDeletion key [] mem; Some (sequence + 1, mem) })"

definition InsertInto :: "bytes \<Rightarrow> bytes skiplist \<Rightarrow> (Status \<times> bytes skiplist) option" where
  "InsertInto b memtable = do {
     seq \<leftarrow> Sequence b;
     (s, seq, mem) \<leftarrow> Iterate Inserter_Put Inserter_Delete b (seq, memtable);
     Some (s, mem)
   }"


section \<open>The bytewise order is the lexicographic order\<close>

lemma memcmp_take:
  "memcmp (take (min (length a) (length b)) a) (take (min (length a) (length b)) b) = memcmp a b"
  by (induction a b rule: memcmp.induct) auto

lemma Slice_compare_Cons:
  "Slice_compare (a # as) (b # bs) = (if a < b then -1 else if a > b then 1 else Slice_compare as bs)"
  by (simp add: Slice_compare_def Let_def)

lemma Slice_compare_Nil:
  "Slice_compare [] b = (if b = [] then 0 else -1)" "Slice_compare a [] = (if a = [] then 0 else 1)"
  by (simp_all add: Slice_compare_def Let_def)

lemma Slice_compare_order:
  "Slice_compare a b < 0 \<longleftrightarrow> a < b" "Slice_compare a b = 0 \<longleftrightarrow> a = b" "0 < Slice_compare a b \<longleftrightarrow> b < a"
proof (induction a arbitrary: b)
  case Nil
  {
    case 1 show ?case by (cases b) (auto simp: Slice_compare_Nil)
  next
    case 2 show ?case by (auto simp: Slice_compare_Nil)
  next
    case 3 show ?case by (auto simp: Slice_compare_Nil)
  }
next
  case (Cons x a)
  {
    case 1 show ?case by (cases b) (auto simp: Slice_compare_Nil Slice_compare_Cons Cons)
  next
    case 2 show ?case by (cases b) (auto simp: Slice_compare_Nil Slice_compare_Cons Cons)
  next
    case 3 show ?case by (cases b) (auto simp: Slice_compare_Nil Slice_compare_Cons Cons)
  }
qed


lemma InternalKey_Compare_order:
  "InternalKey_Compare a b < 0 \<longleftrightarrow> ExtractUserKey a < ExtractUserKey b \<or>
     ExtractUserKey a = ExtractUserKey b \<and> key_tag b < key_tag a"
  "0 < InternalKey_Compare a b \<longleftrightarrow> ExtractUserKey b < ExtractUserKey a \<or>
     ExtractUserKey a = ExtractUserKey b \<and> key_tag a < key_tag b"
  using Slice_compare_order [of "ExtractUserKey a" "ExtractUserKey b"]
  by (auto simp: InternalKey_Compare_def Let_def)

lemma InternalKey_Compare_le:
  "InternalKey_Compare a b \<le> 0 \<longleftrightarrow> ExtractUserKey a < ExtractUserKey b \<or>
     ExtractUserKey a = ExtractUserKey b \<and> key_tag b \<le> key_tag a"
  using InternalKey_Compare_order(2) [of a b] by (auto simp: not_less [symmetric])

interpretation memtable_order: key_order KeyComparator
proof
  show "KeyComparator a b < 0 \<longleftrightarrow> 0 < KeyComparator b a" for a b
    by (auto simp: KeyComparator_def InternalKey_Compare_order)
  show "KeyComparator a c \<le> 0" if "KeyComparator a b \<le> 0" "KeyComparator b c \<le> 0" for a b c
    using that unfolding KeyComparator_def Let_def InternalKey_Compare_le
    by (elim disjE conjE) (use order_less_trans order_trans in \<open>force+\<close>)
qed


section \<open>Entries\<close>

lemma unat_type_code: "unat (type_code t) = (if t = kTypeValue then 1 else 0)"
  by (cases t) simp_all

lemma unat_tag:
  assumes "unat s < 2 ^ 56"
  shows "unat (push_bit 8 s OR type_code t) = 256 * unat s + unat (type_code t)"
proof -
  have "unat (push_bit 8 s OR type_code t) = take_bit 64 (push_bit 8 (unat s)) OR unat (type_code t)"
    by (simp add: unsigned_or_eq unsigned_push_bit_eq)
  also have "take_bit 64 (push_bit 8 (unat s)) = push_bit 8 (unat s)"
    using assms by (simp add: take_bit_nat_eq_self push_bit_eq_mult)
  also have "push_bit 8 (unat s) OR unat (type_code t) = push_bit 8 (unat s) + unat (type_code t)"
  proof (rule disjunctive_add [symmetric])
    fix n
    show "\<not> bit (push_bit 8 (unat s)) n \<or> \<not> bit (unat (type_code t)) n"
      by (cases t; cases n) (auto simp: bit_push_bit_iff)
  qed
  finally show ?thesis
    by (simp add: push_bit_eq_mult)
qed

definition tag :: "unit64 \<Rightarrow> ValueType \<Rightarrow> unit64" where
  "tag s t = push_bit 8 s OR type_code t"

lemma tag_le_iff: "unat s < 2 ^ 56 \<Longrightarrow> unat s' < 2 ^ 56 \<Longrightarrow>
    tag s t \<le> tag s' t' \<longleftrightarrow> unat s < unat s' \<or> s = s' \<and> unat (type_code t) \<le> unat (type_code t')"
  by (auto simp: tag_def word_le_nat_alt unat_tag unat_type_code word_unat_eq_iff split: if_splits)

lemma tag_less: "unat s < unat s' \<Longrightarrow> unat s' < 2 ^ 56 \<Longrightarrow> tag s t < tag s' t'"
  by (simp add: tag_def word_less_nat_alt unat_tag unat_type_code)

lemma tag_type: "tag s t AND 0xff = type_code t"
proof -
  have "(push_bit 8 s OR type_code t) AND mask 8 = type_code t"
    by (rule bit_word_eqI) (cases t, auto simp: bit_simps)
  then show ?thesis
    by (simp add: tag_def mask_eq_exp_minus_1)
qed

lemma tag_sequence:
  assumes "unat s < 2 ^ 56"
  shows "drop_bit 8 (tag s t) = s"
proof (rule word_unat_eq_iff [THEN iffD2])
  have "unat (drop_bit 8 (tag s t)) = unat (tag s t) div 2 ^ 8"
    by (rule unat_drop_bit_div)
  then show "unat (drop_bit 8 (tag s t)) = unat s"
    unfolding tag_def unat_tag [OF assms] by (simp add: unat_type_code)
qed

text \<open>The internal key of a user key.\<close>

definition ikey :: "bytes \<Rightarrow> unit64 \<Rightarrow> bytes" where
  "ikey k n = k @ EncodeFixed64 n"

lemma length_EncodeFixed64 [simp]: "length (EncodeFixed64 n) = 8"
  by (simp add: EncodeFixed64_def)

lemma ikey_parts [simp]:
  "length (ikey k n) = length k + 8" "ExtractUserKey (ikey k n) = k" "key_tag (ikey k n) = n"
  using DecodeFixed64_EncodeFixed64 [of n "[]"] by (simp_all add: ikey_def ExtractUserKey_def key_tag_def)

lemma unat_size: "n < 2 ^ 31 \<Longrightarrow> unat (word_of_nat (n + 8) :: unit32) = n + 8"
  "n < 2 ^ 31 \<Longrightarrow> unat (word_of_nat n :: unit32) = n"
  by (simp_all add: unat_of_nat del: of_nat_add)

lemma entry_slice_prefixed:
  "length k < 2 ^ 31 \<Longrightarrow>
    entry_slice (EncodeVarint32 (word_of_nat (length k + 8)) @ ikey k n @ rest) = Some (ikey k n)"
  by (simp add: entry_slice_def GetVarint32_EncodeVarint32 unat_size slice_def del: of_nat_add)

lemma entry_ikey: "entry s t k v =
    EncodeVarint32 (word_of_nat (length k + 8)) @ ikey k (tag s t) @ EncodeVarint32 (word_of_nat (length v)) @ v"
  by (simp add: entry_def ikey_def tag_def)

lemma entry_slice_entry: "length k < 2 ^ 31 \<Longrightarrow> entry_slice (entry s t k v) = Some (ikey k (tag s t))"
  unfolding entry_ikey by (rule entry_slice_prefixed)

lemma entry_slice_lookup:
  "length k < 2 ^ 31 \<Longrightarrow> entry_slice (memtable_key (new_LookupKey k s)) = Some (ikey k (tag s kTypeValue))"
  using entry_slice_prefixed [of k "tag s kTypeValue" "[]"]
  by (simp add: memtable_key_def new_LookupKey_def Let_def ikey_def tag_def PackSequenceAndType_def kValueTypeForSeek_def)

lemma user_key_lookup: "user_key (new_LookupKey k s) = k"
  by (simp add: user_key_def new_LookupKey_def Let_def)

lemma internal_key_lookup: "internal_key (new_LookupKey k s) = ikey k (tag s kTypeValue)"
  by (simp add: internal_key_def new_LookupKey_def Let_def ikey_def tag_def PackSequenceAndType_def kValueTypeForSeek_def)

lemma KeyComparator_order:
  assumes "entry_slice a = Some (ikey k n)" "entry_slice b = Some (ikey k' n')"
  shows "KeyComparator a b < 0 \<longleftrightarrow> k < k' \<or> k = k' \<and> n' < n"
    and "KeyComparator a b = 0 \<longleftrightarrow> k = k' \<and> n = n'"
proof -
  show "KeyComparator a b < 0 \<longleftrightarrow> k < k' \<or> k = k' \<and> n' < n"
    by (simp add: KeyComparator_def assms InternalKey_Compare_order)
  have "KeyComparator a b = 0 \<longleftrightarrow> \<not> KeyComparator a b < 0 \<and> \<not> 0 < KeyComparator a b"
    by auto
  also have "\<dots> \<longleftrightarrow> k = k' \<and> n = n'"
    by (auto simp: KeyComparator_def assms InternalKey_Compare_order)
  finally show "KeyComparator a b = 0 \<longleftrightarrow> k = k' \<and> n = n'" .
qed


section \<open>The memtable as a list of versions\<close>

type_synonym version = "bytes \<times> unit64 \<times> ValueType \<times> bytes"

definition version_entry :: "version \<Rightarrow> bytes" where
  "version_entry = (\<lambda>(k, s, t, v). entry s t k v)"

definition version_ok :: "nat \<Rightarrow> version \<Rightarrow> bool" where
  "version_ok lim = (\<lambda>(k, s, t, v). length k < 2 ^ 31 \<and> length v < 2 ^ 31 \<and> unat s \<le> lim)"

text \<open>The newest version of a key comes first.\<close>

definition newest :: "version list \<Rightarrow> bytes \<Rightarrow> lookup" where
  "newest E k =
    (case List.find (\<lambda>e. fst e = k) E of
       None \<Rightarrow> Absent
     | Some (_, _, t, v) \<Rightarrow> (if t = kTypeValue then Value v else Deleted))"

definition mem_inv :: "nat \<Rightarrow> bytes skiplist \<Rightarrow> version list \<Rightarrow> bool" where
  "mem_inv lim sl E \<longleftrightarrow> lim < 2 ^ 56 \<and> (\<forall>e\<in>set E. version_ok lim e) \<and>
     (\<exists>L. skip_inv KeyComparator sl L \<and> map (key_of sl) L = map version_entry E)"

lemma version_slice:
  "version_ok lim e \<Longrightarrow> entry_slice (version_entry e) = Some (ikey (fst e) (tag (fst (snd e)) (fst (snd (snd e)))))"
  by (auto simp: version_ok_def version_entry_def entry_slice_entry split: prod.splits)

lemma newest_mono: "version_ok lim e \<Longrightarrow> lim \<le> lim' \<Longrightarrow> version_ok lim' e"
  by (auto simp: version_ok_def)

lemma find_at:
  assumes "j < length xs" "P (xs ! j)" "\<And>i. i < j \<Longrightarrow> \<not> P (xs ! i)"
  shows "List.find P xs = Some (xs ! j)"
  using assms by (auto simp: find_Some_iff)

text \<open>Where a key with a tag above all stored ones stands: behind exactly the smaller user keys.\<close>

lemma rank_user_keys:
  assumes ord: "ordered KeyComparator sl L" and E: "map (key_of sl) L = map version_entry E"
    and ok: "\<forall>e\<in>set E. version_ok lim e" and a: "entry_slice a = Some (ikey k n)"
    and top: "\<And>s t. unat s \<le> lim \<Longrightarrow> tag s t \<le> n"
  shows "i < length E \<Longrightarrow> i < rank KeyComparator sl a L \<longleftrightarrow> fst (E ! i) < k"
proof -
  assume i: "i < length E"
  have len: "length L = length E"
    using E by (metis length_map)
  have key: "key_of sl (L ! i) = version_entry (E ! i)"
    using E i len by (metis nth_map)
  obtain k' s t v where e: "E ! i = (k', s, t, v)"
    by (metis prod_cases4)
  have "version_ok lim (E ! i)"
    using ok i by simp
  then have "entry_slice (key_of sl (L ! i)) = Some (ikey k' (tag s t))" "unat s \<le> lim"
    using version_slice [of lim "E ! i"] key by (simp_all add: e version_ok_def)
  with KeyComparator_order(1) [OF this(1) a] top [of s t] memtable_order.before_rank [OF ord, of i a] i len e
  show ?thesis
    by (auto simp: not_less)
qed


lemma Get_entry:
  assumes "Iterator_Seek KeyComparator sl (memtable_key (new_LookupKey k s)) = Some (Some x)"
    and "x < length (nodes sl)" "key_of sl x = entry q t k' v" "length k' < 2 ^ 31" "length v < 2 ^ 31"
  shows "Get (new_LookupKey k s) sl =
    Some (if k' = k then if t = kTypeValue then Value v else Deleted else Absent)"
proof -
  define l where "l = (word_of_nat (length k' + 8) :: unit32)"
  define rest where "rest = EncodeVarint32 (word_of_nat (length v)) @ v"
  define p where "p = ikey k' (tag q t) @ rest"
  have l: "unat l = length k' + 8" "unat (l - 8) = length k'"
    using assms(4) unat_size(1) [of "length k'"] unat_size(2) [of "length k'"]
    by (simp_all add: l_def del: of_nat_add) simp
  have node: "at (nodes sl) x = Some (nodes sl ! x)" "node_key (nodes sl ! x) = entry q t k' v"
    using assms(2,3) by (simp_all add: at_def key_of_def)
  have v: "entry_slice rest = Some v"
    using assms(5) GetVarint32_EncodeVarint32 [of "word_of_nat (length v)" v] unat_size(2) [of "length v"]
    by (simp add: rest_def entry_slice_def slice_def)
  have ptr: "GetVarint32Ptr (entry q t k' v) = Some (l, p)"
    unfolding entry_ikey l_def p_def rest_def by (rule GetVarint32_EncodeVarint32)
  have sl: "slice p 0 (length k') = Some k'"
    by (simp add: slice_def ikey_def p_def)
  have tg: "DecodeFixed64 (drop (length k') p) = Some (tag q t)"
    using DecodeFixed64_EncodeFixed64 [of "tag q t" rest] by (simp add: ikey_def p_def)
  have dr: "drop (length k' + 8) p = rest"
    by (simp add: p_def)
  have "Get (new_LookupKey k s) sl =
      Some (if Slice_compare k' k = 0 then if t = kTypeValue then Value v else Deleted else Absent)"
    unfolding Get_def
    by (simp add: assms(1) node ptr l sl tg dr v user_key_lookup tag_type) (cases t; simp)
  then show ?thesis
    by (simp add: Slice_compare_order)
qed

lemma Get_newest:
  assumes inv: "mem_inv lim sl E" and k: "length k < 2 ^ 31" and s: "unat s = lim"
  shows "Get (new_LookupKey k s) sl = Some (newest E k)"
proof -
  obtain L where sk: "skip_inv KeyComparator sl L" and E: "map (key_of sl) L = map version_entry E"
    and ok: "\<forall>e\<in>set E. version_ok lim e" and lim: "lim < 2 ^ 56"
    using inv by (auto simp: mem_inv_def)
  have ord: "ordered KeyComparator sl L" and sh: "shape sl L"
    using sk by (auto simp: skip_inv_def)
  have len: "length L = length E"
    using E by (metis length_map)
  let ?a = "memtable_key (new_LookupKey k s)"
  let ?j = "rank KeyComparator sl ?a L"
  have top: "tag q t \<le> tag s kTypeValue" if "unat q \<le> lim" for q t
  proof (cases "unat q < unat s")
    case True
    with s lim show ?thesis
      by (intro order_less_imp_le tag_less) simp_all
  next
    case False
    with that s have "q = s"
      by (simp add: word_unat_eq_iff)
    with s lim show ?thesis
      by (simp add: tag_le_iff unat_type_code)
  qed
  have before: "i < ?j \<longleftrightarrow> fst (E ! i) < k" if "i < length E" for i
    using rank_user_keys [OF ord E ok entry_slice_lookup [OF k] top that] .
  have seek: "Iterator_Seek KeyComparator sl ?a = Some (if ?j < length L then Some (L ! ?j) else None)"
    using memtable_order.FindGreaterOrEqual_run [OF sk, of ?a] by (auto simp: Iterator_Seek_def)
  show ?thesis
  proof (cases "?j < length L")
    case False
    have "fst e \<noteq> k" if eE: "e \<in> set E" for e
    proof -
      obtain i where i: "i < length E" "e = E ! i"
        using eE unfolding in_set_conv_nth by blast
      then have "i < ?j"
        using False len by linarith
      then have "fst e < k"
        using before [OF i(1)] i(2) by blast
      then show ?thesis by blast
    qed
    then have "List.find (\<lambda>e. fst e = k) E = None"
      unfolding find_None_iff by blast
    with False seek show ?thesis
      by (simp add: Get_def newest_def)
  next
    case True
    then have j: "?j < length E"
      by (simp add: len)
    obtain k' q t v where e: "E ! ?j = (k', q, t, v)"
      by (metis prod_cases4)
    have node: "key_of sl (L ! ?j) = entry q t k' v"
      using E True len e by (metis (no_types, lifting) case_prod_conv nth_map version_entry_def)
    have "version_ok lim (E ! ?j)"
      using ok j by simp
    then have lens: "length k' < 2 ^ 31" "length v < 2 ^ 31"
      by (simp_all add: e version_ok_def)
    have "L ! ?j \<in> set (0 # L)"
      using True by simp
    then have x: "L ! ?j < length (nodes sl)"
      using sh by (auto simp: shape_def)
    have get: "Get (new_LookupKey k s) sl =
        Some (if k' = k then if t = kTypeValue then Value v else Deleted else Absent)"
      using seek True by (intro Get_entry [OF _ x node lens]) simp
    have ge: "\<not> k' < k"
      using before [OF j] e by simp
    show ?thesis
    proof (cases "k' = k")
      case same: True
      have "List.find (\<lambda>e. fst e = k) E = Some (E ! ?j)"
      proof (rule find_at [OF j])
        show "fst (E ! ?j) = k"
          using e same by simp
        show "fst (E ! i) \<noteq> k" if i: "i < ?j" for i
        proof -
          have "fst (E ! i) < k"
            using before [OF less_trans [OF i j]] i by blast
          then show ?thesis by blast
        qed
      qed
      with get same e show ?thesis
        by (simp add: newest_def)
    next
      case False
      have "fst e \<noteq> k" if eE: "e \<in> set E" for e
      proof -
        obtain i where i: "i < length E" "e = E ! i"
          using eE unfolding in_set_conv_nth by blast
        show ?thesis
        proof (cases "i \<le> ?j")
          case True
          with before [OF i(1)] False e i show ?thesis
            by (cases "i = ?j") auto
        next
          case later: False
          obtain k2 q2 t2 v2 where e2: "E ! i = (k2, q2, t2, v2)"
            by (metis prod_cases4)
          have "version_ok lim (E ! i)"
            using ok i by simp
          then have "entry_slice (key_of sl (L ! i)) = Some (ikey k2 (tag q2 t2))"
            using E i len e2 version_slice [of lim "E ! i"] by (metis fst_conv nth_map snd_conv)
          moreover have "entry_slice (key_of sl (L ! ?j)) = Some (ikey k' (tag q t))"
            using node lens by (simp add: entry_slice_entry)
          moreover have "KeyComparator (key_of sl (L ! ?j)) (key_of sl (L ! i)) < 0"
            using sorted_wrt_nth_less [OF ord [unfolded ordered_def], of ?j i] later i(1) len by linarith
          ultimately have "k' < k2 \<or> k' = k2 \<and> tag q2 t2 < tag q t"
            using KeyComparator_order(1) by blast
          then have "k' \<le> k2"
            by (elim disjE conjE) (simp_all only: order_less_imp_le order_refl)
          moreover have "k < k'"
            using ge False by (simp only: not_less order_less_le) simp
          ultimately have "k < k2"
            by (simp only: order_less_le_trans)
          with e2 i(2) show ?thesis
            by force
        qed
      qed
      then have "List.find (\<lambda>e. fst e = k) E = None"
        unfolding find_None_iff by blast
      with get False show ?thesis
        by (simp add: newest_def)
    qed
  qed
qed

lemma skip_inv_new: "skip_inv KeyComparator new_MemTable []"
  by (auto simp: new_MemTable_def new_skiplist_def skip_inv_def shape_def linked_def ordered_def
      height_def kMaxHeight_def)

lemma mem_inv_new: "lim < 2 ^ 56 \<Longrightarrow> mem_inv lim new_MemTable []"
  using skip_inv_new by (auto simp: mem_inv_def)

lemma Add_newest:
  assumes inv: "mem_inv lim sl E" and s: "unat s = Suc lim" "Suc lim < 2 ^ 56"
    and k: "length k < 2 ^ 31" and v: "length v < 2 ^ 31"
  shows "\<exists>sl' E'. Add s t k v sl = Some sl' \<and> mem_inv (Suc lim) sl' E' \<and>
    (\<forall>k'. newest E' k' = (if k' = k then if t = kTypeValue then Value v else Deleted else newest E k'))"
proof -
  obtain L where sk: "skip_inv KeyComparator sl L" and E: "map (key_of sl) L = map version_entry E"
    and ok: "\<forall>e\<in>set E. version_ok lim e"
    using inv by (auto simp: mem_inv_def)
  have ord: "ordered KeyComparator sl L"
    using sk by (auto simp: skip_inv_def)
  have len: "length L = length E"
    using E by (metis length_map)
  let ?a = "entry s t k v"
  let ?j = "rank KeyComparator sl ?a L"
  let ?N = "length (nodes sl)"
  let ?E = "take ?j E @ (k, s, t, v) # drop ?j E"
  note a = entry_slice_entry [OF k, of s t v]
  have top: "tag q t' < tag s t" if "unat q \<le> lim" for q t'
    using that s by (intro tag_less) simp_all
  have before: "i < ?j \<longleftrightarrow> fst (E ! i) < k" if "i < length E" for i
    by (rule rank_user_keys [OF ord E ok a _ that]) (use top in \<open>simp add: order_less_imp_le\<close>)
  have fresh: "KeyComparator (key_of sl n) ?a \<noteq> 0" if n: "n \<in> set L" for n
  proof -
    have "key_of sl n \<in> set (map version_entry E)"
      using n E by (metis image_eqI list.set_map)
    then obtain e where e: "e \<in> set E" "key_of sl n = version_entry e"
      by auto
    then have "version_ok lim e"
      using ok by blast
    then have "entry_slice (key_of sl n) = Some (ikey (fst e) (tag (fst (snd e)) (fst (snd (snd e)))))"
      "unat (fst (snd e)) \<le> lim"
      using version_slice [of lim e] e(2) by (auto simp: version_ok_def)
    then show ?thesis
      using KeyComparator_order(2) [OF _ a] top [of "fst (snd e)" "fst (snd (snd e))"] by fastforce
  qed
  obtain sl' where sl': "Insert KeyComparator ?a sl = Some sl'"
    "skip_inv KeyComparator sl' (take ?j L @ ?N # drop ?j L)" "key_of sl' ?N = ?a"
    "\<forall>n\<in>set L. key_of sl' n = key_of sl n"
    using memtable_order.Insert_run [OF sk, of ?a] fresh by blast
  have "map (key_of sl') (take ?j L) = map (key_of sl) (take ?j L)"
    "map (key_of sl') (drop ?j L) = map (key_of sl) (drop ?j L)"
    using sl'(4) by (auto dest: in_set_takeD in_set_dropD)
  then have "map (key_of sl') (take ?j L @ ?N # drop ?j L) = map version_entry ?E"
    using sl'(3) E by (simp add: version_entry_def flip: take_map drop_map)
  moreover have "\<forall>e\<in>set ?E. version_ok (Suc lim) e"
  proof
    fix e
    assume "e \<in> set ?E"
    then consider "e = (k, s, t, v)" | "e \<in> set E"
      by (auto dest: in_set_takeD in_set_dropD)
    then show "version_ok (Suc lim) e"
      using k v s ok newest_mono [of lim e "Suc lim"] by cases (simp_all add: version_ok_def)
  qed
  ultimately have inv': "mem_inv (Suc lim) sl' ?E"
    using s(2) sl'(2) unfolding mem_inv_def by blast
  have "newest ?E k' = (if k' = k then if t = kTypeValue then Value v else Deleted else newest E k')" for k'
  proof (cases "k' = k")
    case True
    have "fst e \<noteq> k" if e: "e \<in> set (take ?j E)" for e
    proof -
      obtain i where "i < length E" "i < ?j" "e = E ! i"
        using e by (auto simp: in_set_conv_nth)
      with before [of i] show ?thesis by auto
    qed
    then have "List.find (\<lambda>e. fst e = k) (take ?j E) = None"
      unfolding find_None_iff by blast
    with True show ?thesis
      by (simp add: newest_def find_append)
  next
    case False
    have "List.find (\<lambda>e. fst e = k') ?E = List.find (\<lambda>e. fst e = k') (take ?j E @ drop ?j E)"
      using False by (simp only: find_append) (simp split: option.splits)
    with False show ?thesis
      by (simp add: newest_def)
  qed
  with sl'(1) inv' show ?thesis
    unfolding Add_def by blast
qed


lemma mem_inv_mono: "mem_inv lim sl E \<Longrightarrow> lim \<le> lim' \<Longrightarrow> lim' < 2 ^ 56 \<Longrightarrow> mem_inv lim' sl E"
  using newest_mono unfolding mem_inv_def by blast


section \<open>Batches as lists of operations\<close>

datatype batch_op = Put_op bytes bytes | Delete_op bytes

fun op_size_ok :: "batch_op \<Rightarrow> bool" where
  "op_size_ok (Put_op k v) \<longleftrightarrow> length k < 2 ^ 31 \<and> length v < 2 ^ 31"
| "op_size_ok (Delete_op k) \<longleftrightarrow> length k < 2 ^ 31"

fun op_record :: "batch_op \<Rightarrow> bytes" where
  "op_record (Put_op k v) = 1 # PutLengthPrefixedSlice [] k @ PutLengthPrefixedSlice [] v"
| "op_record (Delete_op k) = 0 # PutLengthPrefixedSlice [] k"

text \<open>A client fills a batch with a sequence of calls; a handler sees a sequence of calls.\<close>

fun fill :: "batch_op list \<Rightarrow> bytes \<Rightarrow> bytes option" where
  "fill [] rep = Some rep"
| "fill (Put_op k v # ops) rep = do { rep \<leftarrow> Batch_Put k v rep; fill ops rep }"
| "fill (Delete_op k # ops) rep = do { rep \<leftarrow> Batch_Delete k rep; fill ops rep }"

fun handle :: "(bytes \<Rightarrow> bytes \<Rightarrow> 's \<Rightarrow> 's option) \<Rightarrow> (bytes \<Rightarrow> 's \<Rightarrow> 's option) \<Rightarrow> batch_op list \<Rightarrow> 's \<Rightarrow> 's option" where
  "handle put delete [] st = Some st"
| "handle put delete (Put_op k v # ops) st = do { st \<leftarrow> put k v st; handle put delete ops st }"
| "handle put delete (Delete_op k # ops) st = do { st \<leftarrow> delete k st; handle put delete ops st }"

definition batch_rep :: "bytes \<Rightarrow> unit32 \<Rightarrow> batch_op list \<Rightarrow> bytes" where
  "batch_rep seq n ops = seq @ EncodeFixed32 n @ concat (map op_record ops)"

lemma length_EncodeFixed32 [simp]: "length (EncodeFixed32 n) = 4"
  by (simp add: EncodeFixed32_def)

lemma Count_batch_rep: "length seq = 8 \<Longrightarrow> Count (batch_rep seq n ops) = Some n"
  using DecodeFixed32_EncodeFixed32 [of n "concat (map op_record ops)"] by (simp add: Count_def batch_rep_def)

lemma SetCount_batch_rep: "length seq = 8 \<Longrightarrow> SetCount (batch_rep seq n ops) m = Some (batch_rep seq m ops)"
  by (simp add: SetCount_def batch_rep_def blit_def)

lemma PutLengthPrefixedSlice_append: "PutLengthPrefixedSlice dst v = dst @ PutLengthPrefixedSlice [] v"
  by (simp add: PutLengthPrefixedSlice_def PutVarint32_def)

lemma Batch_Put_rep: "length seq = 8 \<Longrightarrow>
    Batch_Put k v (batch_rep seq n ops) = Some (batch_rep seq (n + 1) (ops @ [Put_op k v]))"
  by (simp add: Batch_Put_def Count_batch_rep SetCount_batch_rep)
    (simp add: batch_rep_def PutLengthPrefixedSlice_append [of "_ @ _"] PutLengthPrefixedSlice_append [of "_ # _"])

lemma Batch_Delete_rep: "length seq = 8 \<Longrightarrow>
    Batch_Delete k (batch_rep seq n ops) = Some (batch_rep seq (n + 1) (ops @ [Delete_op k]))"
  by (simp add: Batch_Delete_def Count_batch_rep SetCount_batch_rep)
    (simp add: batch_rep_def PutLengthPrefixedSlice_append [of "_ @ _"] PutLengthPrefixedSlice_append [of "_ # _"])

lemma fill_rep: "length seq = 8 \<Longrightarrow>
    fill ops (batch_rep seq n done_ops) = Some (batch_rep seq (n + word_of_nat (length ops)) (done_ops @ ops))"
proof (induction ops arbitrary: n done_ops)
  case (Cons op ops)
  then show ?case
    by (cases op) (simp_all add: Batch_Put_rep Batch_Delete_rep algebra_simps)
qed simp

lemma le_put_0: "le_put k 0 = replicate k 0"
  by (induction k) simp_all

lemma Clear_rep: "Clear = batch_rep (replicate 8 0) 0 []"
  using replicate_add [of 8 4 "0 :: unit8"]
  by (simp add: Clear_def batch_rep_def EncodeFixed32_def le_bytes_def kHeader_def le_put_0)

lemma records_run:
  assumes "\<forall>op\<in>set ops. op_size_ok op"
  shows "batch_records put delete (concat (map op_record ops)) st found =
    map_option (\<lambda>st. (OK, st, found + length ops)) (handle put delete ops st)"
  using assms
proof (induction ops arbitrary: st found)
  case (Cons op ops)
  show ?case
  proof (cases op)
    case (Put_op k v)
    with Cons show ?thesis
      by (simp add: PutLengthPrefixedSlice_def PutVarint32_def GetLengthPrefixedSlice_Put split: option.splits)
  next
    case (Delete_op k)
    with Cons show ?thesis
      by (simp add: PutLengthPrefixedSlice_def PutVarint32_def GetLengthPrefixedSlice_Put split: option.splits)
  qed
qed simp

lemma Iterate_rep:
  assumes "\<forall>op\<in>set ops. op_size_ok op" "length ops < 2 ^ 31" "length seq = 8"
  shows "Iterate put delete (batch_rep seq (word_of_nat (length ops)) ops) st =
    map_option (\<lambda>st. (OK, st)) (handle put delete ops st)"
proof -
  have "sint (word_of_nat (length ops) :: unit32) = int (length ops)"
    using assms(2) by (simp add: sint_uint unsigned_of_nat take_bit_nat_eq_self signed_take_bit_int_eq_self)
  moreover have "drop kHeader (batch_rep seq (word_of_nat (length ops)) ops) = concat (map op_record ops)"
    using assms(3) by (simp add: batch_rep_def kHeader_def)
  moreover have "\<not> length (batch_rep seq (word_of_nat (length ops)) ops) < kHeader"
    using assms(3) by (simp add: batch_rep_def kHeader_def)
  ultimately show ?thesis
    using assms(1,3)
    by (cases "handle put delete ops st") (simp_all add: Iterate_def records_run Count_batch_rep)
qed


section \<open>Separators\<close>

lemma FindShortestSeparator_Nil:
  "FindShortestSeparator [] limit = []" "FindShortestSeparator start [] = start"
  by (simp_all add: FindShortestSeparator_def Let_def)

lemma FindShortestSeparator_Cons:
  "FindShortestSeparator (a # as) (b # bs) =
    (if a = b then a # FindShortestSeparator as bs
     else if a < 255 \<and> unat a + 1 < unat b then [a + 1] else a # as)"
  by (simp add: FindShortestSeparator_def Let_def)

lemma byte_inc: "a < (255 :: unit8) \<Longrightarrow> unat (a + 1) = unat a + 1" "a < (255 :: unit8) \<Longrightarrow> a < a + 1"
proof -
  assume "a < (255 :: unit8)"
  then have a: "unat a < 255"
    by (simp add: word_less_nat_alt)
  show u: "unat (a + 1) = unat a + 1"
    using a by (simp add: unat_word_ariths)
  then show "a < a + 1"
    by (simp add: word_less_nat_alt)
qed

lemma FindShortestSeparator_between:
  "s < l \<Longrightarrow> s \<le> FindShortestSeparator s l \<and> FindShortestSeparator s l < l \<and>
    length (FindShortestSeparator s l) \<le> length s"
proof (induction s arbitrary: l)
  case Nil
  then show ?case by (simp add: FindShortestSeparator_Nil)
next
  case (Cons a as)
  obtain b bs where l: "l = b # bs"
    using Cons.prems by (cases l) auto
  show ?case
  proof (cases "a = b")
    case True
    with Cons l show ?thesis
      by (simp add: FindShortestSeparator_Cons)
  next
    case False
    then have "a < b"
      using Cons.prems l by simp
    then show ?thesis
      using byte_inc [of a] False by (auto simp: l FindShortestSeparator_Cons word_less_nat_alt)
  qed
qed

lemma FindShortSuccessor_above: "k \<le> FindShortSuccessor k \<and> length (FindShortSuccessor k) \<le> length k"
proof (induction k)
  case (Cons a k)
  have "a < 255" if "a \<noteq> 255"
    using that unat_byte_le [of a] by (auto simp: word_less_nat_alt word_unat_eq_iff)
  with Cons byte_inc [of a] show ?case
    by auto
qed simp

lemma kMax_tag: "unat kMaxSequenceNumber = 2 ^ 56 - 1"
  by (simp add: kMaxSequenceNumber_def push_bit_eq_mult unat_word_ariths)

lemma AppendInternalKey_ikey: "AppendInternalKey [] key = ikey (pk_user_key key) (tag (pk_sequence key) (pk_type key))"
  by (simp add: AppendInternalKey_def PutFixed64_def ikey_def tag_def PackSequenceAndType_def)


section \<open>Properties\<close>

text \<open>C30. Filling an empty write batch with any sequence of fewer than 2^31 puts and deletes and iterating over it
  hands exactly these operations to the handler, in order, with the status OK; the batch never reports
  a corruption.\<close>

theorem leveldb_batch_iterate:
  assumes "\<forall>op\<in>set ops. op_size_ok op" "length ops < 2 ^ 31"
  shows "\<exists>rep. fill ops Clear = Some rep \<and>
    Iterate put delete rep st = map_option (\<lambda>st. (OK, st)) (handle put delete ops st)"
  using fill_rep [of "replicate 8 0" ops 0 "[]"] Iterate_rep [OF assms, of "replicate 8 0" put delete st]
  by (simp add: Clear_rep)

theorem leveldb_batch_iterate_witness:
  "\<exists>rep. fill [Put_op [1] [2], Delete_op [1]] Clear = Some rep \<and>
    Iterate (\<lambda>k v st. Some (st @ [(k, Some v)])) (\<lambda>k st. Some (st @ [(k, None)])) rep []
      = Some (OK, [([1], Some [2]), ([1], None)])"
  using leveldb_batch_iterate [of "[Put_op [1] [2], Delete_op [1]]"
      "\<lambda>k v st. Some (st @ [(k, Some v)])" "\<lambda>k st. Some (st @ [(k, None)])" "[]"]
  by simp

text \<open>C11. The table of a memtable is a skip list whose nodes are linked, level by level, in the order of their
  keys. Inserting a key that is not in it returns, keeps this invariant and adds exactly that key;
  membership is decided by the search, and the iterator walks the keys in increasing order.\<close>

theorem leveldb_skiplist:
  assumes inv: "skip_inv KeyComparator sl L" and fresh: "\<forall>n\<in>set L. KeyComparator (key_of sl n) key \<noteq> 0"
  shows "\<exists>sl' L'. Insert KeyComparator key sl = Some sl' \<and> skip_inv KeyComparator sl' L' \<and>
    key_of sl' ` set L' = insert key (key_of sl ` set L) \<and>
    (\<forall>k. Contains KeyComparator k sl' = Some (KeyComparator k key = 0 \<or> Contains KeyComparator k sl = Some True)) \<and>
    Iterator_SeekToFirst sl' = Some (Some (hd L')) \<and>
    (\<forall>i<length L'. Iterator_Next sl' (L' ! i) = Some (if Suc i < length L' then Some (L' ! Suc i) else None))"
proof -
  let ?j = "rank KeyComparator sl key L"
  let ?L = "take ?j L @ length (nodes sl) # drop ?j L"
  obtain sl' where sl': "Insert KeyComparator key sl = Some sl'" "skip_inv KeyComparator sl' ?L"
    "key_of sl' (length (nodes sl)) = key" "\<forall>n\<in>set L. key_of sl' n = key_of sl n"
    using memtable_order.Insert_run [OF inv, of key] fresh by blast
  have set: "set ?L = insert (length (nodes sl)) (set L)"
    by (metis Un_insert_right append_take_drop_id list.simps(15) set_append)
  have keys: "key_of sl' ` set ?L = insert key (key_of sl ` set L)"
    using sl'(3,4) by (simp only: set image_insert) simp
  have "Contains KeyComparator k sl' = Some (KeyComparator k key = 0 \<or> Contains KeyComparator k sl = Some True)" for k
  proof -
    have "(\<exists>n\<in>set ?L. KeyComparator k (key_of sl' n) = 0) \<longleftrightarrow> (\<exists>x\<in>key_of sl' ` set ?L. KeyComparator k x = 0)"
      by blast
    also have "\<dots> \<longleftrightarrow> KeyComparator k key = 0 \<or> (\<exists>n\<in>set L. KeyComparator k (key_of sl n) = 0)"
      unfolding keys by blast
    finally show ?thesis
      using memtable_order.Contains_run [OF inv, of k] memtable_order.Contains_run [OF sl'(2), of k] by simp
  qed
  with sl'(1,2) keys memtable_order.iterator_ends(1) [OF sl'(2)] memtable_order.iterator_run(1) [OF sl'(2)]
  show ?thesis
    by (intro exI [of _ sl'] exI [of _ ?L]) simp
qed

theorem leveldb_skiplist_witness:
  "\<exists>sl' L'. Insert KeyComparator (entry 1 kTypeValue [3] [4]) new_MemTable = Some sl' \<and>
    skip_inv KeyComparator sl' L' \<and> key_of sl' ` set L' = {entry 1 kTypeValue [3] [4]}"
  using leveldb_skiplist [OF skip_inv_new, of "entry 1 kTypeValue [3] [4]"] by auto

text \<open>C31. An internal key with a sequence number below 2^56 parses back, and internal keys are ordered by the
  user key and, for one user key, from the newest sequence number to the oldest.\<close>

theorem leveldb_internal_key:
  assumes "unat (pk_sequence a) < 2 ^ 56" "unat (pk_sequence b) < 2 ^ 56"
  shows "ParseInternalKey (AppendInternalKey [] a) = Some a \<and>
    (InternalKey_Compare (AppendInternalKey [] a) (AppendInternalKey [] b) < 0 \<longleftrightarrow>
      pk_user_key a < pk_user_key b \<or>
      pk_user_key a = pk_user_key b \<and>
        (pk_sequence b < pk_sequence a \<or>
         pk_sequence b = pk_sequence a \<and> pk_type b = kTypeDeletion \<and> pk_type a = kTypeValue))"
proof
  have "key_tag (AppendInternalKey [] a) = tag (pk_sequence a) (pk_type a)"
    "length (AppendInternalKey [] a) = length (pk_user_key a) + 8"
    "take (length (pk_user_key a)) (AppendInternalKey [] a) = pk_user_key a"
    by (simp_all add: AppendInternalKey_ikey) (simp add: ikey_def)
  then show "ParseInternalKey (AppendInternalKey [] a) = Some a"
    using tag_type [of "pk_sequence a" "pk_type a"] tag_sequence [OF assms(1), of "pk_type a"]
    by (cases "pk_type a") (simp_all add: ParseInternalKey_def Let_def)
  have "tag (pk_sequence b) (pk_type b) < tag (pk_sequence a) (pk_type a) \<longleftrightarrow>
      pk_sequence b < pk_sequence a \<or>
      pk_sequence b = pk_sequence a \<and> pk_type b = kTypeDeletion \<and> pk_type a = kTypeValue"
    using tag_le_iff [OF assms, of "pk_type a" "pk_type b"]
    by (cases "pk_type a"; cases "pk_type b") (auto simp: not_le [symmetric] word_le_nat_alt word_unat_eq_iff)
  then show "InternalKey_Compare (AppendInternalKey [] a) (AppendInternalKey [] b) < 0 \<longleftrightarrow>
      pk_user_key a < pk_user_key b \<or>
      pk_user_key a = pk_user_key b \<and>
        (pk_sequence b < pk_sequence a \<or>
         pk_sequence b = pk_sequence a \<and> pk_type b = kTypeDeletion \<and> pk_type a = kTypeValue)"
    by (simp add: AppendInternalKey_ikey InternalKey_Compare_order)
qed

theorem leveldb_internal_key_witness:
  "ParseInternalKey (AppendInternalKey [] \<lparr>pk_user_key = [9], pk_sequence = 5, pk_type = kTypeValue\<rparr>)
    = Some \<lparr>pk_user_key = [9], pk_sequence = 5, pk_type = kTypeValue\<rparr>"
  using leveldb_internal_key [of "\<lparr>pk_user_key = [9], pk_sequence = 5, pk_type = kTypeValue\<rparr>"
      "\<lparr>pk_user_key = [9], pk_sequence = 4, pk_type = kTypeValue\<rparr>"] by simp

text \<open>C32. The shortened keys of the index stay in range: the shortest separator of two internal keys whose user
  keys differ is not below the first and is below the second, and the short successor is not below its
  key.\<close>

theorem leveldb_separator:
  assumes "8 \<le> length start" "8 \<le> length limit" "ExtractUserKey start < ExtractUserKey limit"
  shows "InternalKey_Compare start (InternalKey_FindShortestSeparator start limit) \<le> 0 \<and>
    InternalKey_Compare (InternalKey_FindShortestSeparator start limit) limit < 0 \<and>
    InternalKey_Compare start (InternalKey_FindShortSuccessor start) \<le> 0"
proof -
  have le: "InternalKey_Compare start start \<le> 0"
    by (simp add: InternalKey_Compare_le)
  let ?t = "FindShortestSeparator (ExtractUserKey start) (ExtractUserKey limit)"
  have b: "?t < ExtractUserKey limit"
    using FindShortestSeparator_between [OF assms(3)] by simp
  have sep: "InternalKey_FindShortestSeparator start limit =
      (if length ?t < length (ExtractUserKey start) \<and> ExtractUserKey start < ?t
       then ikey ?t (tag kMaxSequenceNumber kTypeValue) else start)"
    by (simp add: InternalKey_FindShortestSeparator_def Let_def Slice_compare_order PutFixed64_def ikey_def
        PackSequenceAndType_def tag_def kValueTypeForSeek_def)
  have suc: "InternalKey_FindShortSuccessor start =
      (if length (FindShortSuccessor (ExtractUserKey start)) < length (ExtractUserKey start) \<and>
          ExtractUserKey start < FindShortSuccessor (ExtractUserKey start)
       then ikey (FindShortSuccessor (ExtractUserKey start)) (tag kMaxSequenceNumber kTypeValue) else start)"
    by (simp add: InternalKey_FindShortSuccessor_def Let_def Slice_compare_order PutFixed64_def ikey_def
        PackSequenceAndType_def tag_def kValueTypeForSeek_def)
  show ?thesis
    using b le assms(3) unfolding sep suc by (simp add: InternalKey_Compare_le InternalKey_Compare_order)
qed

theorem leveldb_separator_witness:
  "InternalKey_Compare ([1, 5, 9] @ replicate 8 0)
      (InternalKey_FindShortestSeparator ([1, 5, 9] @ replicate 8 0) ([1, 8] @ replicate 8 0)) \<le> 0"
  using leveldb_separator [of "[1, 5, 9] @ replicate 8 0" "[1, 8] @ replicate 8 0"]
  by (simp add: ExtractUserKey_def)

end
