(* ===== verification/Leveldb_Db.thy ===== *)
theory Leveldb_Db
  imports Leveldb_Memtable Transaction_Process
begin

text \<open>
  \<open>DB::Put\<close>, \<open>DB::Delete\<close>, \<open>DBImpl::Write\<close> and \<open>DBImpl::Get\<close> of \<open>db/db_impl.cc\<close> for the one client thread of
  this program: the writer queue holds the one writer, so \<open>BuildBatchGroup\<close> returns its batch. The log
  file is not part of the state; the status its writer returns is an argument. The lookup in the table
  files of the current version is the field \<open>version_get\<close>, a function of the user key and the sequence
  number in the lookup key.
\<close>

record db =
  mem :: "bytes skiplist"
  imm :: "bytes skiplist option"
  version_get :: "bytes \<Rightarrow> unit64 \<Rightarrow> bytes option"
  last_sequence :: unit64

definition DBImpl_Write :: "Status \<Rightarrow> bytes \<Rightarrow> db \<Rightarrow> (Status \<times> db) option" where
  "DBImpl_Write log_status my_batch d = do {
     updates \<leftarrow> SetSequence my_batch (last_sequence d + 1);
     n \<leftarrow> Count updates;
     (status, m) \<leftarrow> (if log_status = OK then InsertInto updates (mem d) else Some (log_status, mem d));
     Some (status, d\<lparr>mem := m, last_sequence := last_sequence d + scast n\<rparr>)
   }"

definition DB_Put :: "Status \<Rightarrow> bytes \<Rightarrow> bytes \<Rightarrow> db \<Rightarrow> (Status \<times> db) option" where
  "DB_Put log_status key v d = do {
     batch \<leftarrow> Batch_Put key v Clear;
     DBImpl_Write log_status batch d
   }"

definition DB_Delete :: "Status \<Rightarrow> bytes \<Rightarrow> db \<Rightarrow> (Status \<times> db) option" where
  "DB_Delete log_status key d = do {
     batch \<leftarrow> Batch_Delete key Clear;
     DBImpl_Write log_status batch d
   }"

text \<open>A value, or \<open>None\<close> for the status \<open>NotFound\<close>.\<close>

definition DBImpl_Get :: "unit64 option \<Rightarrow> bytes \<Rightarrow> db \<Rightarrow> bytes option option" where
  "DBImpl_Get snapshot key d =
    (let s = (case snapshot of Some number \<Rightarrow> number | None \<Rightarrow> last_sequence d);
         lkey = new_LookupKey key s
     in do {
       r \<leftarrow> Get lkey (mem d);
       case r of
         Value v \<Rightarrow> Some (Some v)
       | Deleted \<Rightarrow> Some None
       | Absent \<Rightarrow>
           (case imm d of
              None \<Rightarrow> Some (version_get d key s)
            | Some m \<Rightarrow> do {
                r \<leftarrow> Get lkey m;
                case r of
                  Value v \<Rightarrow> Some (Some v)
                | Deleted \<Rightarrow> Some None
                | Absent \<Rightarrow> Some (version_get d key s)
              })
     })"

text \<open>A full memtable becomes the immutable one; \<open>MakeRoomForWrite\<close> waits until there is none.\<close>

definition switch_memtable :: "db \<Rightarrow> db" where
  "switch_memtable d = d\<lparr>imm := Some (mem d), mem := new_MemTable\<rparr>"


section \<open>The contents of a database\<close>

text \<open>The files answer alike for every sequence number from the last one on.\<close>

definition db_view :: "db \<Rightarrow> version list \<Rightarrow> version list \<Rightarrow> bool" where
  "db_view d E F \<longleftrightarrow> mem_inv (unat (last_sequence d)) (mem d) E \<and>
     (case imm d of None \<Rightarrow> F = [] | Some m \<Rightarrow> mem_inv (unat (last_sequence d)) m F) \<and>
     (\<forall>k s. last_sequence d \<le> s \<longrightarrow> version_get d k s = version_get d k (last_sequence d))"

definition db_inv :: "db \<Rightarrow> bool" where
  "db_inv d \<longleftrightarrow> (\<exists>E F. db_view d E F)"

definition contents :: "version list \<Rightarrow> version list \<Rightarrow> db \<Rightarrow> bytes \<Rightarrow> bytes option" where
  "contents E F d k =
    (case newest E k of
       Value v \<Rightarrow> Some v
     | Deleted \<Rightarrow> None
     | Absent \<Rightarrow> (case newest F k of Value v \<Rightarrow> Some v | Deleted \<Rightarrow> None | Absent \<Rightarrow> version_get d k (last_sequence d)))"

lemma newest_Nil [simp]: "newest [] k = Absent"
  by (simp add: newest_def)

lemma DBImpl_Get_contents:
  assumes "db_view d E F" "length k < 2 ^ 31"
  shows "DBImpl_Get None k d = Some (contents E F d k)"
proof -
  have "Get (new_LookupKey k (last_sequence d)) (mem d) = Some (newest E k)"
    using assms by (intro Get_newest [of "unat (last_sequence d)"]) (simp_all add: db_view_def)
  moreover have "Get (new_LookupKey k (last_sequence d)) m = Some (newest F k)" if "imm d = Some m" for m
    using assms that by (intro Get_newest [of "unat (last_sequence d)"]) (simp_all add: db_view_def)
  moreover have "newest F k = Absent" if "imm d = None"
    using assms(1) that by (simp add: db_view_def)
  ultimately show ?thesis
    by (cases "imm d") (simp_all add: DBImpl_Get_def contents_def Let_def split: lookup.split)
qed

lemma SetSequence_rep: "length seq = 8 \<Longrightarrow> SetSequence (batch_rep seq n ops) s = Some (batch_rep (EncodeFixed64 s) n ops)"
  by (simp add: SetSequence_def batch_rep_def blit_def)

lemma Sequence_rep: "Sequence (batch_rep (EncodeFixed64 s) n ops) = Some s"
  by (simp add: Sequence_def batch_rep_def DecodeFixed64_EncodeFixed64)

lemma unat_next:
  assumes "Suc (unat s) < 2 ^ 56"
  shows "unat ((s :: unit64) + 1) = Suc (unat s)" "s \<le> s + 1"
proof -
  show u: "unat (s + 1) = Suc (unat s)"
    using assms by (simp add: unat_word_ariths)
  show "s \<le> s + 1"
    by (simp add: word_le_nat_alt u)
qed

text \<open>A batch of one operation, written to a database with room for it.\<close>

fun op_key :: "batch_op \<Rightarrow> bytes" where
  "op_key (Put_op k v) = k"
| "op_key (Delete_op k) = k"

fun op_effect :: "batch_op \<Rightarrow> bytes option" where
  "op_effect (Put_op k v) = Some v"
| "op_effect (Delete_op k) = None"

lemma Write_one:
  assumes view: "db_view d E F" and ok: "op_size_ok op" and room: "Suc (unat (last_sequence d)) < 2 ^ 56"
  shows "\<exists>d' E'. DBImpl_Write OK (batch_rep (replicate 8 0) 1 [op]) d = Some (OK, d') \<and> db_view d' E' F \<and>
    unat (last_sequence d') = Suc (unat (last_sequence d)) \<and>
    (\<forall>k. contents E' F d' k = (if k = op_key op then op_effect op else contents E F d k))"
proof -
  let ?s = "last_sequence d + 1"
  note s = unat_next [OF room]
  have inv: "mem_inv (unat (last_sequence d)) (mem d) E"
    using view by (simp add: db_view_def)
  obtain t v where op: "op = (if t = kTypeValue then Put_op (op_key op) v else Delete_op (op_key op))"
    "op_effect op = (if t = kTypeValue then Some v else None)" "t = kTypeDeletion \<Longrightarrow> v = []"
    "length v < 2 ^ 31" "length (op_key op) < 2 ^ 31"
  proof (cases op)
    case (Put_op k v)
    with ok that [of kTypeValue v] show thesis by simp
  next
    case (Delete_op k)
    with ok that [of kTypeDeletion "[]"] show thesis by simp
  qed
  obtain m E' where m: "Add ?s t (op_key op) v (mem d) = Some m" "mem_inv (Suc (unat (last_sequence d))) m E'"
    "\<And>k. newest E' k = (if k = op_key op then if t = kTypeValue then Value v else Deleted else newest E k)"
    using Add_newest [OF inv s(1) room op(5,4), of t] by blast
  have "handle Inserter_Put Inserter_Delete [op] (?s, mem d) = Some (?s + 1, m)"
    using op m(1) by (cases op; cases t) (simp_all add: Inserter_Put_def Inserter_Delete_def)
  then have ins: "InsertInto (batch_rep (EncodeFixed64 ?s) 1 [op]) (mem d) = Some (OK, m)"
    using Iterate_rep [of "[op]" "EncodeFixed64 ?s" Inserter_Put Inserter_Delete "(?s, mem d)"] ok
    by (simp add: InsertInto_def Sequence_rep)
  let ?d = "d\<lparr>mem := m, last_sequence := ?s\<rparr>"
  have wr: "DBImpl_Write OK (batch_rep (replicate 8 0) 1 [op]) d = Some (OK, ?d)"
    by (simp add: DBImpl_Write_def SetSequence_rep Count_batch_rep ins)
  have files: "version_get d k q = version_get d k (last_sequence d)" if "last_sequence d \<le> q" for k q
    using view that unfolding db_view_def by blast
  have view': "db_view ?d E' F"
    unfolding db_view_def
  proof (intro conjI allI impI)
    show "mem_inv (unat (last_sequence ?d)) (mem ?d) E'"
      using m(2) s(1) by simp
    show "case imm ?d of None \<Rightarrow> F = [] | Some m \<Rightarrow> mem_inv (unat (last_sequence ?d)) m F"
      using view [unfolded db_view_def, THEN conjunct2, THEN conjunct1] s(1) room
        mem_inv_mono [of "unat (last_sequence d)" _ F "Suc (unat (last_sequence d))"]
      by (auto split: option.splits)
    show "version_get ?d k q = version_get ?d k (last_sequence ?d)" if "last_sequence ?d \<le> q" for k q
    proof -
      have "version_get d k q = version_get d k (last_sequence d)"
        using that s(2) by (intro files) simp
      moreover have "version_get d k ?s = version_get d k (last_sequence d)"
        using s(2) by (rule files)
      ultimately show ?thesis by simp
    qed
  qed
  moreover have "contents E' F ?d k = (if k = op_key op then op_effect op else contents E F d k)" for k
    using files [OF s(2)] op(2) by (simp add: contents_def m(3) split: lookup.split)
  ultimately show ?thesis
    using wr s(1) by (intro exI [of _ ?d] exI [of _ E']) simp
qed


lemma DB_Put_write: "DB_Put st k v d = DBImpl_Write st (batch_rep (replicate 8 0) 1 [Put_op k v]) d"
  by (simp add: DB_Put_def Clear_rep Batch_Put_rep)

lemma DB_Delete_write: "DB_Delete st k d = DBImpl_Write st (batch_rep (replicate 8 0) 1 [Delete_op k]) d"
  by (simp add: DB_Delete_def Clear_rep Batch_Delete_rep)

definition fresh_db :: db where
  "fresh_db = \<lparr>mem = new_MemTable, imm = None, version_get = (\<lambda>k s. None), last_sequence = 0\<rparr>"

lemma fresh_view: "db_view fresh_db [] []"
  by (simp add: db_view_def fresh_db_def mem_inv_new)


section \<open>The store of the program\<close>

text \<open>
  The operations as total functions of the database; on a well-formed database with room no access is
  undefined and the defaults are not reached. The room is the number of sequence numbers left.
\<close>

definition kv_get :: "bytes \<Rightarrow> db \<Rightarrow> bytes option" where
  "kv_get k d = (case DBImpl_Get None k d of Some r \<Rightarrow> r | None \<Rightarrow> None)"

definition kv_put :: "bytes \<Rightarrow> bytes \<Rightarrow> db \<Rightarrow> db" where
  "kv_put k v d = (case DB_Put OK k v d of Some (st, d') \<Rightarrow> d' | None \<Rightarrow> d)"

definition kv_room :: "db \<Rightarrow> nat" where
  "kv_room d = (if db_inv d then 2 ^ 56 - 1 - unat (last_sequence d) else 0)"

lemma kv_put_step:
  assumes "0 < kv_room d" "length k < 2 ^ 31" "length v < 2 ^ 31"
  shows "\<exists>E F E' d'. db_view d E F \<and> DB_Put OK k v d = Some (OK, d') \<and> db_view d' E' F \<and>
    unat (last_sequence d') = Suc (unat (last_sequence d)) \<and>
    (\<forall>k'. contents E' F d' k' = (if k' = k then Some v else contents E F d k'))"
proof -
  obtain E F where view: "db_view d E F"
    using assms(1) by (auto simp: kv_room_def db_inv_def split: if_splits)
  have "Suc (unat (last_sequence d)) < 2 ^ 56"
    using assms(1) by (simp add: kv_room_def split: if_splits)
  then obtain d' E' where "DBImpl_Write OK (batch_rep (replicate 8 0) 1 [Put_op k v]) d = Some (OK, d')"
    "db_view d' E' F" "unat (last_sequence d') = Suc (unat (last_sequence d))"
    "\<forall>k'. contents E' F d' k' = (if k' = k then Some v else contents E F d k')"
    using Write_one [OF view, of "Put_op k v"] assms(2,3) by auto
  with view show ?thesis
    unfolding DB_Put_write by blast
qed

interpretation level: kv_store kv_get kv_put kv_room
proof
  fix d :: db and k v k' :: bytes
  assume a: "0 < kv_room d" "length k < 2 ^ 31" "length v < 2 ^ 31"
  obtain E F E' d' where st: "db_view d E F" "DB_Put OK k v d = Some (OK, d')" "db_view d' E' F"
    "unat (last_sequence d') = Suc (unat (last_sequence d))"
    "\<And>k'. contents E' F d' k' = (if k' = k then Some v else contents E F d k')"
    using kv_put_step [OF a] by blast
  have put: "kv_put k v d = d'"
    by (simp add: kv_put_def st(2))
  show "kv_get k' (kv_put k v d) = (if k' = k then Some v else kv_get k' d)" if "length k' < 2 ^ 31"
    by (simp add: put kv_get_def DBImpl_Get_contents [OF st(1) that] DBImpl_Get_contents [OF st(3) that] st(5))
  have "db_inv d" "db_inv d'"
    using st(1,3) by (auto simp: db_inv_def)
  with st(4) put show "kv_room (kv_put k v d) = kv_room d - 1"
    by (simp add: kv_room_def)
qed

lemma kv_room_fresh: "kv_room fresh_db = 2 ^ 56 - 1"
  using fresh_view by (auto simp: kv_room_def db_inv_def fresh_db_def)

definition level_store :: "db leveldb" where
  "level_store = \<lparr>ld_get = kv_get, ld_put = kv_put\<rparr>"


section \<open>Properties\<close>

text \<open>C3. A write of a key and value to a well-formed LevelDB database with a sequence number left succeeds,
  keeps the database well-formed and takes one sequence number; afterwards the key reads as the value
  and every other key as before. A deletion does the same with the key absent afterwards.\<close>

theorem leveldb_put_get:
  assumes "db_inv d" "unat (last_sequence d) < 2 ^ 56 - 1" "length k < 2 ^ 31" "length v < 2 ^ 31"
  shows "(\<exists>d'. DB_Put OK k v d = Some (OK, d') \<and> db_inv d' \<and>
      unat (last_sequence d') = Suc (unat (last_sequence d)) \<and>
      (\<forall>k'. length k' < 2 ^ 31 \<longrightarrow>
        DBImpl_Get None k' d' = (if k' = k then Some (Some v) else DBImpl_Get None k' d))) \<and>
    (\<exists>d'. DB_Delete OK k d = Some (OK, d') \<and> db_inv d' \<and>
      unat (last_sequence d') = Suc (unat (last_sequence d)) \<and>
      (\<forall>k'. length k' < 2 ^ 31 \<longrightarrow>
        DBImpl_Get None k' d' = (if k' = k then Some None else DBImpl_Get None k' d)))"
proof -
  obtain E F where view: "db_view d E F"
    using assms(1) by (auto simp: db_inv_def)
  have room: "Suc (unat (last_sequence d)) < 2 ^ 56"
    using assms(2) by simp
  have run: "\<exists>d'. DBImpl_Write OK (batch_rep (replicate 8 0) 1 [op]) d = Some (OK, d') \<and> db_inv d' \<and>
      unat (last_sequence d') = Suc (unat (last_sequence d)) \<and>
      (\<forall>k'. length k' < 2 ^ 31 \<longrightarrow>
        DBImpl_Get None k' d' = (if k' = op_key op then Some (op_effect op) else DBImpl_Get None k' d))"
    if op: "op_size_ok op" for op
  proof -
    obtain d' E' where d': "DBImpl_Write OK (batch_rep (replicate 8 0) 1 [op]) d = Some (OK, d')"
      "db_view d' E' F" "unat (last_sequence d') = Suc (unat (last_sequence d))"
      "\<And>k. contents E' F d' k = (if k = op_key op then op_effect op else contents E F d k)"
      using Write_one [OF view op room] by blast
    then show ?thesis
      by (auto simp: db_inv_def DBImpl_Get_contents [OF view] DBImpl_Get_contents [OF d'(2)])
  qed
  show ?thesis
    unfolding DB_Put_write DB_Delete_write using assms(3,4)
    by (intro conjI run [of "Put_op k v", unfolded op_key.simps op_effect.simps]
        run [of "Delete_op k", unfolded op_key.simps op_effect.simps]) simp_all
qed

theorem leveldb_put_get_witness:
  "\<exists>d'. DB_Put OK [1, 2] [7] fresh_db = Some (OK, d') \<and> DBImpl_Get None [1, 2] d' = Some (Some [7])"
proof -
  have "db_inv fresh_db"
    using fresh_view by (auto simp: db_inv_def)
  from leveldb_put_get [OF this, of "[1, 2]" "[7]"] show ?thesis
    by (auto simp: fresh_db_def)
qed

text \<open>Making the memtable immutable and starting a new one does not change what any key reads as.\<close>

theorem leveldb_switch_memtable:
  assumes "db_inv d" "imm d = None" "length k < 2 ^ 31"
  shows "db_inv (switch_memtable d) \<and> DBImpl_Get None k (switch_memtable d) = DBImpl_Get None k d"
proof -
  obtain E F where view: "db_view d E F"
    using assms(1) by (auto simp: db_inv_def)
  have F: "F = []"
    using view [unfolded db_view_def, THEN conjunct2, THEN conjunct1] assms(2) by simp
  have inv: "mem_inv (unat (last_sequence d)) (mem d) E"
    using view unfolding db_view_def by blast
  have lim: "unat (last_sequence d) < 2 ^ 56"
    using inv by (simp add: mem_inv_def)
  have view': "db_view (switch_memtable d) [] E"
    unfolding db_view_def
  proof (intro conjI)
    let ?d = "switch_memtable d"
    show "mem_inv (unat (last_sequence ?d)) (mem ?d) []"
      using mem_inv_new [OF lim] by (simp add: switch_memtable_def)
    show "case imm ?d of None \<Rightarrow> E = [] | Some m \<Rightarrow> mem_inv (unat (last_sequence ?d)) m E"
      using inv by (simp add: switch_memtable_def)
    have "last_sequence ?d = last_sequence d" "version_get ?d = version_get d"
      by (simp_all add: switch_memtable_def)
    then show "\<forall>k s. last_sequence ?d \<le> s \<longrightarrow> version_get ?d k s = version_get ?d k (last_sequence ?d)"
      using view unfolding db_view_def by metis
  qed
  have "contents [] E (switch_memtable d) k = contents E F d k"
    by (simp add: contents_def F switch_memtable_def split: lookup.split)
  with view' show ?thesis
    by (auto simp: db_inv_def DBImpl_Get_contents [OF view assms(3)] DBImpl_Get_contents [OF view' assms(3)])
qed

theorem leveldb_switch_memtable_witness:
  "imm fresh_db = None \<and> DBImpl_Get None [5] (switch_memtable fresh_db) = DBImpl_Get None [5] fresh_db"
  using leveldb_switch_memtable [of fresh_db "[5]"] fresh_view by (auto simp: db_inv_def fresh_db_def)

end
