(* ===== verification/Ledger.thy ===== *)
theory Ledger
  imports Sql_Model Leveldb_Db
begin

text \<open>
  The properties of \<open>TransactionProcess.h\<close> and \<open>EntityProcess.h\<close> over the two stores. LevelDB is the model of
  its sources (\<open>level_store\<close>); MySQL is a parameter, and the locale predicates \<open>entity_tables\<close> and
  \<open>ledger_tables\<close> are the hypotheses on it. The witnesses take the interpreter \<open>sql\<close> of the statements.
\<close>

section \<open>The transactions the parser delivers\<close>

definition tx_shape :: "Transaction \<Rightarrow> bool" where
  "tx_shape tx \<longleftrightarrow> unat (tx_in_count tx) = length (tx_ins tx) \<and> unat (tx_out_count tx) = length (tx_outs tx) \<and>
     list_all (\<lambda>o1. length (out_address o1) = 20) (tx_outs tx) \<and>
     28 * (length (tx_ins tx) + length (tx_outs tx)) + 24 < 2 ^ 31 \<and> tx_ins tx \<noteq> []"

text \<open>The entries of the outputs that the inputs spend, as \<open>ReadOutput\<close> finds them.\<close>

definition spends :: "Transaction \<Rightarrow> db \<Rightarrow> bytes list \<Rightarrow> bool" where
  "spends tx d preouts \<longleftrightarrow>
     list_all2 (\<lambda>txin p. ReadOutput level_store (rev (in_hash txin)) (in_index txin) d = Some p) (tx_ins tx) preouts"

definition payers :: "bytes list \<Rightarrow> bytes list" where
  "payers preouts = map (take 20) preouts"

definition payees :: "Transaction \<Rightarrow> bytes list" where
  "payees tx = map out_address (tx_outs tx)"

lemma process_run:
  assumes "ledger_tables my ent ids acct dflt" "tx_shape tx" "spends tx (tx_db st) preouts"
    and "payers preouts = [coinbase_h] \<or> known (owners_of ent ids st) (payers preouts)"
  obtains st' t where "TransactionProcess my level_store tx st = Some st'"
    and "acct (conn st') = fold (post_output dflt t) (tx_outs tx) (fold (post_input t) preouts (acct (conn st)))"
    and "owners_of ent ids st' = assign_outputs (payees tx) (add_unowned (payees tx)
      (if payers preouts = [coinbase_h] then owners_of ent ids st
       else merge_inputs (payers preouts) (owners_of ent ids st)))"
  using ledger_tables.TransactionProcess_run [OF assms(1), of tx level_store st preouts
      "strftime (gmtime (unat (tx_txtime tx)))"] assms(2-4)
  by (auto simp: tx_shape_def spends_def payers_def payees_def getTimeString_strftime)

lemma fold_post_input_absent:
  "A a = None \<Longrightarrow> fold (post_input t) ps A a = None"
proof (induction ps arbitrary: A)
  case (Cons p ps)
  have "post_input t p A a = None"
    using Cons.prems by (auto simp: post_input_def Let_def)
  then show ?case
    using Cons.IH [where A = "post_input t p A"] by simp
qed simp

lemma paid_from_absent: "a \<notin> set (payers ps) \<Longrightarrow> paid_from ps a = 0"
  by (induction ps) (auto simp: payers_def paid_from_def)

lemma process_totals:
  assumes "a \<noteq> coinbase_h" "payers ps = [coinbase_h] \<or> known w (payers ps)" "\<And>b. own w b \<noteq> None \<Longrightarrow> A b \<noteq> None"
  shows "total_in (fold (post_input t) ps A) a = total_in A a + paid_from ps a"
    and "total_out (fold (post_input t) ps A) a = total_out A a"
proof -
  have "total_in (fold (post_input t) ps A) a = total_in A a + paid_from ps a \<and>
      total_out (fold (post_input t) ps A) a = total_out A a"
  proof (cases "A a")
    case None
    then have "own w a = None"
      using assms(3) [of a] by blast
    then have "a \<notin> set (payers ps)"
      using assms(1,2) by (auto simp: known_def list_all_iff)
    with None show ?thesis
      using fold_post_input_absent [of A a t ps]
      by (simp add: total_in_def total_out_def paid_from_absent)
  qed (use post_inputs_totals [of a A t ps] assms(1) in simp)
  then show "total_in (fold (post_input t) ps A) a = total_in A a + paid_from ps a"
    and "total_out (fold (post_input t) ps A) a = total_out A a"
    by simp_all
qed

lemma ran_add_unowned: "ran (own (add_unowned as w)) - {0} = ran (own w) - {0}"
proof
  show "ran (own (add_unowned as w)) - {0} \<subseteq> ran (own w) - {0}"
    by (auto simp: add_unowned_def ran_def split: if_splits)
  show "ran (own w) - {0} \<subseteq> ran (own (add_unowned as w)) - {0}"
  proof
    fix e
    assume "e \<in> ran (own w) - {0}"
    then obtain a where a: "own w a = Some e" "e \<noteq> 0"
      by (auto simp: ran_def)
    then have "own (add_unowned as w) a = Some e"
      by (simp add: add_unowned_def)
    with a(2) show "e \<in> ran (own (add_unowned as w)) - {0}"
      by (auto intro: ranI)
  qed
qed

lemma owners_inv_add_unowned: "owners_inv w \<Longrightarrow> owners_inv (add_unowned as w)"
  using ran_add_unowned [of as w] by (simp add: owners_inv_def add_unowned_def)

lemma distinct_remdups_adj_sorted: "sorted xs \<Longrightarrow> distinct (remdups_adj xs)"
  by (induction xs rule: remdups_adj.induct) (auto simp: order_le_less)

text \<open>The owners after the payers were merged, as seen from the state before.\<close>

lemma merged_payers:
  assumes inv: "owners_inv w" and some: "ps \<noteq> []"
    and owned: "ps = [coinbase_h] \<or> known w ps \<and> 0 \<notin> input_owners ps w"
  defines "w1 \<equiv> if ps = [coinbase_h] then w else merge_inputs ps w"
  shows "owners_inv w1" "own_cnt w1 = own_cnt w"
    and "own w a \<in> {None, Some 0} \<Longrightarrow> own w1 a = own w a"
    and "own w a \<notin> {None, Some 0} \<Longrightarrow> own w1 a \<notin> {None, Some 0}"
    and "same_owner w1 a b \<longleftrightarrow> same_owner w a b \<or>
      (\<exists>x\<in>set ps. same_owner w a x) \<and> (\<exists>y\<in>set ps. same_owner w b y)"
proof -
  have "owners_inv w1 \<and> own_cnt w1 = own_cnt w \<and>
    (own w a \<in> {None, Some 0} \<longrightarrow> own w1 a = own w a) \<and>
    (own w a \<notin> {None, Some 0} \<longrightarrow> own w1 a \<notin> {None, Some 0}) \<and>
    (same_owner w1 a b \<longleftrightarrow> same_owner w a b \<or>
      (\<exists>x\<in>set ps. same_owner w a x) \<and> (\<exists>y\<in>set ps. same_owner w b y))"
  proof (cases "ps = [coinbase_h]")
    case True
    then show ?thesis
      using inv by (auto simp: w1_def same_owner_def)
  next
    case False
    then have k: "known w ps" "0 \<notin> input_owners ps w" and w1: "w1 = merge_inputs ps w"
      using owned by (auto simp: w1_def)
    have m: "Min (input_owners ps w) \<noteq> 0"
      using Min_input_owners [OF some, of w] k(2) by metis
    have "own_cnt w1 = own_cnt w"
      by (simp add: w1 merge_inputs_def Let_def)
    then show ?thesis
      using merge_inputs_inv [OF inv k(1) some k(2)] merge_inputs_same_owner [OF k(1) some, of a b] k(2) m
      unfolding w1 own_merge_inputs by auto
  qed
  then show "owners_inv w1" "own_cnt w1 = own_cnt w"
    and "own w a \<in> {None, Some 0} \<Longrightarrow> own w1 a = own w a"
    and "own w a \<notin> {None, Some 0} \<Longrightarrow> own w1 a \<notin> {None, Some 0}"
    and "same_owner w1 a b \<longleftrightarrow> same_owner w a b \<or>
      (\<exists>x\<in>set ps. same_owner w a x) \<and> (\<exists>y\<in>set ps. same_owner w b y)"
    by blast+
qed

lemma known_add_unowned: "tx_shape tx \<Longrightarrow> known (add_unowned (payees tx) w) (payees tx)"
  by (auto simp: known_def add_unowned_def tx_shape_def payees_def list_all_iff)

lemma stored_read_back:
  assumes run: "TransactionProcess my level_store tx st = Some st'" and shape: "tx_shape tx"
    and hash: "length (tx_curhash tx) = 32" "rev (tx_curhash tx) \<noteq> coinbase_b"
    and room: "0 < kv_room (tx_db st)" and i: "unat i < length (tx_outs tx)"
  shows "ReadOutput level_store (rev (tx_curhash tx)) i (tx_db st') = Some (out_entry (tx_outs tx ! unat i))"
proof -
  note sh = shape [unfolded tx_shape_def]
  obtain preouts where p: "tx_db st' = ld_put level_store (rev (tx_curhash tx)) (stored_value tx preouts) (tx_db st)"
    "length preouts = length (tx_ins tx)" "list_all (\<lambda>p. length p = 28) preouts"
    "length (stored_value tx preouts) < 2 ^ 31"
    using TransactionProcess_stored [OF run] sh by blast
  have "ld_get level_store (rev (tx_curhash tx)) (tx_db st') = Some (stored_value tx preouts)"
    using level.get_put [OF room, of "rev (tx_curhash tx)" "stored_value tx preouts" "rev (tx_curhash tx)"] hash p(1,4)
    by (simp add: level_store_def)
  then show ?thesis
  proof (rule ReadOutput_stored [OF _ hash(2)])
    show "list_all (\<lambda>p. length p = 28) preouts" "unat (tx_in_count tx) = length preouts"
      using sh p(2,3) by simp_all
    show "28 * length preouts < 2 ^ 32" "28 * length (tx_outs tx) < 2 ^ 32"
      unfolding p(2) using sh by simp_all
    show "list_all (\<lambda>t. length (out_address t) = 20) (tx_outs tx)" "unat i < length (tx_outs tx)"
      using sh i by blast+
  qed
qed


section \<open>An example\<close>

definition coinbase_tx :: Transaction where
  "coinbase_tx = \<lparr>tx_ver = 1, tx_in_count = 1,
     tx_ins = [\<lparr>in_hash = replicate 32 0, in_index = 0xffffffff, in_script_length = 0, in_script = [], in_seq = 0\<rparr>],
     tx_out_count = 1,
     tx_outs = [\<lparr>out_val = 5000000000, out_script_length = 0, out_script = [], out_address = replicate 20 7\<rparr>],
     tx_lock_time = 0, tx_blocknumber = 1, tx_txnumber = 0, tx_txcounter = 1, tx_length = 134, tx_txtime = 1231469665,
     tx_curhash = replicate 32 9\<rparr>"

definition empty_state :: "(tables, db) tstate" where
  "empty_state = \<lparr>conn = \<lparr>addressinfo = (\<lambda>a. None), entityinfo = {}\<rparr>, entitychange_v = [], entitycnt = 0,
     tx_db = fresh_db\<rparr>"

lemma replicate_32_coinbase: "replicate 32 0 = coinbase_b"
  by (simp add: coinbase_b_def eval_nat_numeral)

definition coin :: bytes where
  "coin = coinbase_h @ le_bytes 8 (0 :: unit64)"

lemma replicate_20_coinbase: "replicate 20 (0x30 :: unit8) = coinbase_h"
  by (simp add: coinbase_h_def eval_nat_numeral)

lemma coinbase_example:
  "tx_shape coinbase_tx" "spends coinbase_tx d [coin]" "payers [coin] = [coinbase_h]"
proof -
  show "tx_shape coinbase_tx"
    by (simp add: tx_shape_def coinbase_tx_def)
  have "rev (replicate 32 (0 :: unit8)) = coinbase_b"
    by (simp add: replicate_32_coinbase [symmetric])
  then show "spends coinbase_tx d [coin]"
    using rev_replicate [of 32 "0 :: unit8"] replicate_20_coinbase by (simp add: spends_def coinbase_tx_def ReadOutput_def coin_def)
  have "length coinbase_h = 20"
    by (simp add: coinbase_h_def)
  then show "payers [coin] = [coinbase_h]"
    by (simp add: payers_def coin_def)
qed


section \<open>Properties\<close>

text \<open>C5. Processing a transaction whose inputs are found and whose paying addresses have accounts (or that creates
  coins) returns, and afterwards every account has received exactly what the outputs pay to it and spent
  exactly what the inputs take from it; the balances stay the differences of the two totals, bounded by
  the maximal balance.\<close>

theorem transaction_process_ledger:
  assumes tables: "ledger_tables my ent ids acct dflt" and new: "inval dflt = 0"
    and shape: "tx_shape tx" and spent: "spends tx (tx_db st) preouts"
    and owned: "payers preouts = [coinbase_h] \<or> known (owners_of ent ids st) (payers preouts)"
  shows "\<exists>st'. TransactionProcess my level_store tx st = Some st' \<and>
    (\<forall>a. a \<noteq> coinbase_h \<longrightarrow>
      total_in (acct (conn st')) a = total_in (acct (conn st)) a + paid_from preouts a \<and>
      total_out (acct (conn st')) a = total_out (acct (conn st)) a + paid_to (tx_outs tx) a) \<and>
    (ledger_inv (acct (conn st)) \<longrightarrow> ledger_inv (acct (conn st')))"
proof -
  obtain st' t where st': "TransactionProcess my level_store tx st = Some st'"
    "acct (conn st') = fold (post_output dflt t) (tx_outs tx) (fold (post_input t) preouts (acct (conn st)))"
    using process_run [OF tables shape spent owned] by blast
  have rows: "acct (conn st) b \<noteq> None" if "own (owners_of ent ids st) b \<noteq> None" for b
    using ledger_tables.rows [OF tables, of "conn st" b] that by (simp add: owners_of_def)
  show ?thesis
    using st' post_inv [of "acct (conn st)" dflt t "tx_outs tx" preouts]
    by (auto simp: post_outputs_totals [OF new] process_totals [OF _ owned rows])
qed

theorem transaction_process_ledger_witness:
  "\<exists>st'. TransactionProcess sql level_store coinbase_tx empty_state = Some st' \<and>
     total_out (sql_acct (conn st')) (replicate 20 7) = 5000000000 \<and> ledger_inv (sql_acct (conn st'))"
proof -
  have "replicate 20 7 \<noteq> coinbase_h"
    by (simp add: replicate_20_coinbase [symmetric])
  moreover have "ledger_inv (sql_acct (conn empty_state))"
    "total_out (sql_acct (conn empty_state)) (replicate 20 7) = 0"
    by (simp_all add: ledger_inv_def empty_state_def sql_acct_def total_out_def)
  moreover have "paid_to (tx_outs coinbase_tx) (replicate 20 7) = 5000000000"
    by (simp add: paid_to_def coinbase_tx_def)
  ultimately show ?thesis
    using transaction_process_ledger [OF server.ledger_tables_axioms _ coinbase_example(1,2), of empty_state]
      coinbase_example(3) by (auto simp: default_account_def)
qed

text \<open>C6. Processing a transaction keeps the entity tables consistent (every entity in use has one row and a number
  not above the counter), merges the owners of all paying addresses and of nobody else, and gives every
  paid address without an owner a new owner of its own.\<close>

theorem transaction_process_owners:
  assumes tables: "ledger_tables my ent ids acct dflt"
    and shape: "tx_shape tx" and spent: "spends tx (tx_db st) preouts"
    and owned: "payers preouts = [coinbase_h] \<or> known (owners_of ent ids st) (payers preouts) \<and>
      0 \<notin> input_owners (payers preouts) (owners_of ent ids st)"
    and inv: "owners_inv (owners_of ent ids st)"
    and room: "unat (entitycnt st) + length (tx_outs tx) < 2 ^ 32"
  shows "\<exists>st'. TransactionProcess my level_store tx st = Some st' \<and>
    owners_inv (owners_of ent ids st') \<and>
    (\<forall>a b. ent (conn st) a \<notin> {None, Some 0} \<longrightarrow> ent (conn st) b \<notin> {None, Some 0} \<longrightarrow>
      same_owner (owners_of ent ids st') a b \<longleftrightarrow>
        same_owner (owners_of ent ids st) a b \<or>
        (\<exists>x\<in>set (payers preouts). same_owner (owners_of ent ids st) a x) \<and>
        (\<exists>y\<in>set (payers preouts). same_owner (owners_of ent ids st) b y)) \<and>
    (\<forall>a\<in>set (payees tx). ent (conn st) a \<in> {None, Some 0} \<longrightarrow>
      (\<exists>e. ent (conn st') a = Some e \<and> entitycnt st < e \<and> (\<forall>b. ent (conn st') b = Some e \<longrightarrow> b = a)))"
proof -
  define w ps where "w = owners_of ent ids st" and "ps = payers preouts"
  define w1 where "w1 = (if ps = [coinbase_h] then w else merge_inputs ps w)"
  define w2 where "w2 = add_unowned (payees tx) w1"
  obtain st' where st': "TransactionProcess my level_store tx st = Some st'"
    "owners_of ent ids st' = assign_outputs (payees tx) w2"
    using process_run [OF tables shape spent] owned unfolding w2_def w1_def w_def ps_def by blast
  have some: "ps \<noteq> []"
    using shape spent by (auto simp: tx_shape_def spends_def payers_def ps_def)
  note merged = merged_payers [OF inv some [unfolded ps_def] owned, folded w_def ps_def, folded w1_def]
  have own: "own w = ent (conn st)" "own_cnt w = entitycnt st" "own (owners_of ent ids st') = ent (conn st')"
    by (simp_all add: owners_of_def w_def)
  have cnt: "own_cnt w2 = entitycnt st"
    using merged(2) own(2) by (simp add: add_unowned_def w2_def)
  have inv2: "owners_inv w2" "known w2 (payees tx)"
    using owners_inv_add_unowned [OF merged(1)] known_add_unowned [OF shape] by (simp_all add: w2_def)
  have "unat (own_cnt w2) + length (payees tx) < 2 ^ 32"
    using room by (simp add: cnt payees_def)
  note assigned = assign_outputs_run [OF inv2 this]
  have keep: "own (owners_of ent ids st') a = own w1 a" if "ent (conn st) a \<notin> {None, Some 0}" for a
  proof -
    have "own w1 a \<notin> {None, Some 0}"
      using merged(4) [of a] that unfolding own(1) by blast
    then have "own w2 a = own w1 a" "own w2 a \<noteq> Some 0"
      by (auto simp: add_unowned_def w2_def)
    then show ?thesis
      unfolding st'(2) using assigned by metis
  qed
  have same: "same_owner (owners_of ent ids st') a b \<longleftrightarrow>
      same_owner w a b \<or> (\<exists>x\<in>set ps. same_owner w a x) \<and> (\<exists>y\<in>set ps. same_owner w b y)"
    if "ent (conn st) a \<notin> {None, Some 0}" "ent (conn st) b \<notin> {None, Some 0}" for a b
    using keep [OF that(1)] keep [OF that(2)] merged(5) [of a b] by (simp only: same_owner_def)
  have fresh: "\<exists>e. ent (conn st') a = Some e \<and> entitycnt st < e \<and> (\<forall>b. ent (conn st') b = Some e \<longrightarrow> b = a)"
    if "a \<in> set (payees tx)" "ent (conn st) a \<in> {None, Some 0}" for a
  proof -
    have "own w1 a \<in> {None, Some 0}"
      using merged(3) [of a] that(2) unfolding own(1) by metis
    then have "own w2 a = Some 0"
      using that(1) by (auto simp: add_unowned_def w2_def)
    then show ?thesis
      using assigned that(1) unfolding own(3) [symmetric] st'(2) cnt by blast
  qed
  show ?thesis
    using st' assigned same fresh unfolding w_def ps_def by (intro exI [of _ st'] conjI) auto
qed

theorem transaction_process_owners_witness:
  "\<exists>st'. TransactionProcess sql level_store coinbase_tx empty_state = Some st' \<and>
     owners_inv (owners_of sql_ent entityinfo st') \<and> (\<exists>e. sql_ent (conn st') (replicate 20 7) = Some e \<and> 0 < e)"
proof -
  have e: "owners_inv (owners_of sql_ent entityinfo empty_state)" "replicate 20 7 \<in> set (payees coinbase_tx)"
    "sql_ent (conn empty_state) (replicate 20 7) = None" "entitycnt empty_state = 0"
    by (simp_all add: owners_inv_def owners_of_def empty_state_def sql_ent_def payees_def coinbase_tx_def ran_def)
  have "unat (entitycnt empty_state) + length (tx_outs coinbase_tx) < 2 ^ 32"
    by (simp add: empty_state_def coinbase_tx_def)
  from transaction_process_owners [OF server.ledger_tables_axioms coinbase_example(1,2)
      disjI1 [OF coinbase_example(3)] e(1) this]
  obtain st' where st': "TransactionProcess sql level_store coinbase_tx empty_state = Some st'"
    "owners_inv (owners_of sql_ent entityinfo st')"
    and new: "\<forall>a\<in>set (payees coinbase_tx). sql_ent (conn empty_state) a \<in> {None, Some 0} \<longrightarrow>
      (\<exists>e. sql_ent (conn st') a = Some e \<and> entitycnt empty_state < e \<and>
        (\<forall>b. sql_ent (conn st') b = Some e \<longrightarrow> b = a))"
    by blast
  have "\<exists>e. sql_ent (conn st') (replicate 20 7) = Some e \<and> 0 < e"
    using bspec [OF new e(2)] e(3,4) by auto
  with st' show ?thesis by blast
qed

text \<open>C7. What a completed call stored for a transaction is what later transactions find: every output is read back
  under the transaction's hash and its index with the address and the value it was parsed with.\<close>

theorem stored_outputs_read_back:
  assumes run: "TransactionProcess my level_store tx st = Some st'" and shape: "tx_shape tx"
    and hash: "length (tx_curhash tx) = 32" "rev (tx_curhash tx) \<noteq> coinbase_b"
    and room: "0 < kv_room (tx_db st)" and i: "unat i < length (tx_outs tx)"
  shows "ReadOutput level_store (rev (tx_curhash tx)) i (tx_db st') = Some (out_entry (tx_outs tx ! unat i))"
  by (rule stored_read_back [OF assms])

theorem stored_outputs_read_back_witness:
  "\<exists>st'. TransactionProcess sql level_store coinbase_tx empty_state = Some st' \<and>
     ReadOutput level_store (replicate 32 9) 0 (tx_db st') = Some (replicate 20 7 @ le_bytes 8 (5000000000 :: unit64))"
proof -
  obtain st' where run: "TransactionProcess sql level_store coinbase_tx empty_state = Some st'"
    using process_run [OF server.ledger_tables_axioms coinbase_example(1,2), of empty_state] coinbase_example(3) by blast
  have hash: "tx_curhash coinbase_tx = replicate 32 9" "replicate 32 9 \<noteq> coinbase_b"
    by (simp_all add: coinbase_tx_def flip: replicate_32_coinbase)
  have room: "0 < kv_room (tx_db empty_state)"
    using kv_room_fresh by (simp add: empty_state_def)
  show ?thesis
    using stored_outputs_read_back [OF run coinbase_example(1) _ _ room, of 0] run hash
    by (simp add: out_entry_def) (simp add: coinbase_tx_def)
qed

text \<open>C33. An output to an address that already has an owner queues the counter for the later refresh of the totals
  and not that owner: unless the two coincide, the totals of the owner are not brought up to date.\<close>

theorem output_entity_touches_counter:
  assumes "entity_tables my ent ids" "length a = 20" "ent (conn st) a = Some e" "e \<noteq> 0"
  shows "\<exists>st'. output_entity_mysql my [a] st = Some st' \<and>
    entitychange_v st' = entitychange_v st @ [entitycnt st] \<and> entitycnt st' = entitycnt st \<and> ent (conn st') = ent (conn st)"
proof -
  have "known (owners_of ent ids st) [a]"
    using assms by (simp add: known_def owners_of_def)
  from entity_tables.output_entity_run [OF assms(1) this] assms(3,4) show ?thesis
    by (auto simp: owners_of_def)
qed

theorem output_entity_touches_counter_witness:
  "\<exists>st'. output_entity_mysql sql [replicate 20 1]
      \<lparr>conn = \<lparr>addressinfo = (\<lambda>a. Some (default_account, 3)), entityinfo = {3}\<rparr>, entitychange_v = [], entitycnt = 5\<rparr>
    = Some st' \<and> entitychange_v st' = [5]"
  using output_entity_touches_counter [OF server.entity_tables_axioms, of "replicate 20 1"
      "\<lparr>conn = \<lparr>addressinfo = (\<lambda>a. Some (default_account, 3)), entityinfo = {3}\<rparr>, entitychange_v = [], entitycnt = 5\<rparr>" 3]
  by (auto simp: sql_ent_def)

text \<open>C34. The refresh computes the totals of every queued entity exactly once, in increasing order, and empties the
  queue.\<close>

theorem update_entity_once:
  "conn (update_entity_mysql my st) =
     foldl (\<lambda>d e. my_exec my (refresh_entity e) d) (conn st) (sorted_list_of_set (set (entitychange_v st))) \<and>
   entitychange_v (update_entity_mysql my st) = [] \<and> entitycnt (update_entity_mysql my st) = entitycnt st"
proof -
  have "conn (foldl (\<lambda>st e. mysql_query my (refresh_entity e) st) s es) =
      foldl (\<lambda>d e. my_exec my (refresh_entity e) d) (conn s) es \<and>
      entitycnt (foldl (\<lambda>st e. mysql_query my (refresh_entity e) st) s es) = entitycnt s"
    for es and s :: "('a, 'b) state_scheme"
    by (induction es arbitrary: s) simp_all
  moreover have "remdups_adj (sort xs) = sorted_list_of_set (set xs)" for xs :: "unit32 list"
  proof (rule sorted_distinct_set_unique)
    show "distinct (remdups_adj (sort xs))"
      by (rule distinct_remdups_adj_sorted [OF sorted_sort])
  qed (simp_all add: sorted_remdups_adj)
  ultimately show ?thesis
    by (simp add: update_entity_mysql_def Let_def)
qed

end
