(* ===== verification/Block_Process.thy ===== *)
theory Block_Process
  imports Transaction_Process
begin

text \<open>
  \<open>BlockProcess.h\<close>, which adds the row of a block to the table \<open>blkinfo\<close>, and \<open>BlockFileName.h\<close>, the names of
  the block files. The difficulty of a block is computed with floats in \<open>TransactionProcess.h\<close> and is a
  parameter here, a function of the \<open>bits\<close> field.
\<close>

section \<open>The files\<close>

definition blkname :: "string list" where
  "blkname =
    [path ''E:/blocks/blk00000.dat'', path ''E:/blocks/blk00001.dat'', path ''E:/blocks/blk00002.dat'',
     path ''E:/blocks/blk00003.dat'', path ''E:/blocks/blk00004.dat'', path ''E:/blocks/blk00005.dat'',
     path ''E:/blocks/blk00006.dat'', path ''E:/blocks/blk00007.dat'', path ''E:/blocks/blk00008.dat'',
     path ''E:/blocks/blk00009.dat'', path ''E:/blocks/blk00010.dat'', path ''E:/blocks/blk00011.dat'',
     path ''E:/blocks/blk00012.dat'', path ''E:/blocks/blk00013.dat'', path ''E:/blocks/blk00014.dat'',
     path ''E:/blocks/blk00015.dat'', path ''E:/blocks/blk00016.dat'', path ''E:/blocks/blk00017.dat'',
     path ''E:/blocks/blk00018.dat'', path ''E:/blocks/blk00019.dat'', path ''E:/blocks/blk00020.dat'',
     path ''E:/blocks/blk00021.dat'', path ''E:/blocks/blk00022.dat'', path ''E:/blocks/blk00023.dat'',
     path ''E:/blocks/blk00024.dat'', path ''E:/blocks/blk00025.dat'', path ''E:/blocks/blk00026.dat'',
     path ''E:/blocks/blk00027.dat'', path ''E:/blocks/blk00028.dat'', path ''E:/blocks/blk00029.dat'',
     path ''E:/blocks/blk00030.dat'', path ''E:/blocks/blk00031.dat'', path ''E:/blocks/blk00032.dat'',
     path ''E:/blocks/blk00033.dat'', path ''E:/blocks/blk00034.dat'', path ''E:/blocks/blk00035.dat'',
     path ''E:/blocks/blk00036.dat'', path ''E:/blocks/blk00037.dat'', path ''E:/blocks/blk00038.dat'',
     path ''E:/blocks/blk00039.dat'', path ''E:/blocks/blk00040.dat'', path ''E:/blocks/blk00041.dat'',
     path ''E:/blocks/blk00042.dat'', path ''E:/blocks/blk00043.dat'', path ''E:/blocks/blk00044.dat'',
     path ''E:/blocks/blk00045.dat'', path ''E:/blocks/blk00046.dat'', path ''E:/blocks/blk00047.dat'',
     path ''E:/blocks/blk00048.dat'', path ''E:/blocks/blk00049.dat'', path ''E:/blocks/blk00050.dat'',
     path ''E:/blocks/blk00051.dat'', path ''E:/blocks/blk00052.dat'', path ''E:/blocks/blk00053.dat'',
     path ''E:/blocks/blk00054.dat'', path ''E:/blocks/blk00055.dat'', path ''E:/blocks/blk00056.dat'',
     path ''E:/blocks/blk00057.dat'', path ''E:/blocks/blk00058.dat'', path ''E:/blocks/blk00059.dat'',
     path ''E:/blocks/blk00060.dat'', path ''E:/blocks/blk00061.dat'', path ''E:/blocks/blk00062.dat'',
     path ''E:/blocks/blk00063.dat'', path ''E:/blocks/blk00064.dat'', path ''E:/blocks/blk00065.dat'',
     path ''E:/blocks/blk00066.dat'', path ''E:/blocks/blk00067.dat'', path ''E:/blocks/blk00068.dat'',
     path ''E:/blocks/blk00069.dat'', path ''E:/blocks/blk00070.dat'', path ''E:/blocks/blk00071.dat'',
     path ''E:/blocks/blk00072.dat'', path ''E:/blocks/blk00073.dat'', path ''E:/blocks/blk00074.dat'',
     path ''E:/blocks/blk00075.dat'', path ''E:/blocks/blk00076.dat'', path ''E:/blocks/blk00077.dat'',
     path ''E:/blocks/blk00078.dat'', path ''E:/blocks/blk00079.dat'', path ''E:/blocks/blk00080.dat'',
     path ''E:/blocks/blk00081.dat'', path ''E:/blocks/blk00082.dat'', path ''E:/blocks/blk00083.dat'',
     path ''E:/blocks/blk00084.dat'', path ''E:/blocks/blk00085.dat'', path ''E:/blocks/blk00086.dat'',
     path ''E:/blocks/blk00087.dat'', path ''E:/blocks/blk00088.dat'', path ''E:/blocks/blk00089.dat'',
     path ''E:/blocks/blk00090.dat'', path ''E:/blocks/blk00091.dat'', path ''E:/blocks/blk00092.dat'',
     path ''E:/blocks/blk00093.dat'', path ''E:/blocks/blk00094.dat'', path ''E:/blocks/blk00095.dat'',
     path ''E:/blocks/blk00096.dat'', path ''E:/blocks/blk00097.dat'', path ''E:/blocks/blk00098.dat'',
     path ''E:/blocks/blk00099.dat'', path ''E:/blocks/blk00100.dat'', path ''E:/blocks/blk00101.dat'',
     path ''E:/blocks/blk00102.dat'', path ''E:/blocks/blk00103.dat'', path ''E:/blocks/blk00104.dat'',
     path ''E:/blocks/blk00105.dat'', path ''E:/blocks/blk00106.dat'', path ''E:/blocks/blk00107.dat'',
     path ''E:/blocks/blk00108.dat'', path ''E:/blocks/blk00109.dat'', path ''E:/blocks/blk00110.dat'',
     path ''E:/blocks/blk00111.dat'', path ''E:/blocks/blk00112.dat'', path ''E:/blocks/blk00113.dat'',
     path ''E:/blocks/blk00114.dat'', path ''E:/blocks/blk00115.dat'', path ''E:/blocks/blk00116.dat'',
     path ''E:/blocks/blk00117.dat'', path ''E:/blocks/blk00118.dat'', path ''E:/blocks/blk00119.dat'',
     path ''E:/blocks/blk00120.dat'', path ''E:/blocks/blk00121.dat'', path ''E:/blocks/blk00122.dat'',
     path ''E:/blocks/blk00123.dat'', path ''E:/blocks/blk00124.dat'', path ''E:/blocks/blk00125.dat'',
     path ''E:/blocks/blk00126.dat'', path ''E:/blocks/blk00127.dat'', path ''E:/blocks/blk00128.dat'',
     path ''E:/blocks/blk00129.dat'', path ''E:/blocks/blk00130.dat'', path ''E:/blocks/blk00131.dat'',
     path ''E:/blocks/blk00132.dat'', path ''E:/blocks/blk00133.dat'', path ''E:/blocks/blk00134.dat'',
     path ''E:/blocks/blk00135.dat'', path ''E:/blocks/blk00136.dat'', path ''E:/blocks/blk00137.dat'',
     path ''E:/blocks/blk00138.dat'', path ''E:/blocks/blk00139.dat'', path ''E:/blocks/blk00140.dat'',
     path ''E:/blocks/blk00141.dat'', path ''E:/blocks/blk00142.dat'', path ''E:/blocks/blk00143.dat'',
     path ''E:/blocks/blk00144.dat'', path ''E:/blocks/blk00145.dat'', path ''E:/blocks/blk00146.dat'',
     path ''E:/blocks/blk00147.dat'', path ''E:/blocks/blk00148.dat'', path ''E:/blocks/blk00149.dat'',
     path ''E:/blocks/blk00150.dat'', path ''E:/blocks/blk00151.dat'', path ''E:/blocks/blk00152.dat'',
     path ''E:/blocks/blk00153.dat'', path ''E:/blocks/blk00154.dat'', path ''E:/blocks/blk00155.dat'',
     path ''E:/blocks/blk00156.dat'', path ''E:/blocks/blk00157.dat'', path ''E:/blocks/blk00158.dat'',
     path ''E:/blocks/blk00159.dat'', path ''E:/blocks/blk00160.dat'', path ''E:/blocks/blk00161.dat'',
     path ''E:/blocks/blk00162.dat'', path ''E:/blocks/blk00163.dat'', path ''E:/blocks/blk00164.dat'',
     path ''E:/blocks/blk00165.dat'', path ''E:/blocks/blk00166.dat'', path ''E:/blocks/blk00167.dat'',
     path ''E:/blocks/blk00168.dat'', path ''E:/blocks/blk00169.dat'', path ''E:/blocks/blk00170.dat'',
     path ''E:/blocks/blk00171.dat'', path ''E:/blocks/blk00172.dat'', path ''E:/blocks/blk00173.dat'',
     path ''E:/blocks/blk00174.dat'', path ''E:/blocks/blk00175.dat'', path ''E:/blocks/blk00176.dat'',
     path ''E:/blocks/blk00177.dat'', path ''E:/blocks/blk00178.dat'', path ''E:/blocks/blk00179.dat'',
     path ''E:/blocks/blk00180.dat'', path ''E:/blocks/blk00181.dat'', path ''E:/blocks/blk00182.dat'',
     path ''E:/blocks/blk00183.dat'', path ''E:/blocks/blk00184.dat'', path ''E:/blocks/blk00185.dat'',
     path ''E:/blocks/blk00186.dat'', path ''E:/blocks/blk00187.dat'', path ''E:/blocks/blk00188.dat'',
     path ''E:/blocks/blk00189.dat'', path ''E:/blocks/blk00190.dat'', path ''E:/blocks/blk00191.dat'',
     path ''E:/blocks/blk00192.dat'', path ''E:/blocks/blk00193.dat'', path ''E:/blocks/blk00194.dat'',
     path ''E:/blocks/blk00195.dat'', path ''E:/blocks/blk00196.dat'', path ''E:/blocks/blk00197.dat'',
     path ''E:/blocks/blk00198.dat'', path ''E:/blocks/blk00199.dat'', path ''E:/blocks/blk00200.dat'',
     path ''E:/blocks/blk00201.dat'', path ''E:/blocks/blk00202.dat'', path ''E:/blocks/blk00203.dat'',
     path ''E:/blocks/blk00204.dat'', path ''E:/blocks/blk00205.dat'', path ''E:/blocks/blk00206.dat'',
     path ''E:/blocks/blk00207.dat'', path ''E:/blocks/blk00208.dat'', path ''E:/blocks/blk00209.dat'',
     path ''E:/blocks/blk00210.dat'', path ''E:/blocks/blk00211.dat'', path ''E:/blocks/blk00212.dat'',
     path ''E:/blocks/blk00213.dat'', path ''E:/blocks/blk00214.dat'', path ''E:/blocks/blk00215.dat'',
     path ''E:/blocks/blk00216.dat'', path ''E:/blocks/blk00217.dat'', path ''E:/blocks/blk00218.dat'',
     path ''E:/blocks/blk00219.dat'', path ''E:/blocks/blk00220.dat'', path ''E:/blocks/blk00221.dat'',
     path ''E:/blocks/blk00222.dat'', path ''E:/blocks/blk00223.dat'', path ''E:/blocks/blk00224.dat'',
     path ''E:/blocks/blk00225.dat'', path ''E:/blocks/blk00226.dat'', path ''E:/blocks/blk00227.dat'',
     path ''E:/blocks/blk00228.dat'', path ''E:/blocks/blk00229.dat'', path ''E:/blocks/blk00230.dat'',
     path ''E:/blocks/blk00231.dat'', path ''E:/blocks/blk00232.dat'', path ''E:/blocks/blk00233.dat'',
     path ''E:/blocks/blk00234.dat'', path ''E:/blocks/blk00235.dat'', path ''E:/blocks/blk00236.dat'']"

section \<open>The row of a block\<close>

definition insert_blkinfo :: "(unit32 \<Rightarrow> unit64) \<Rightarrow> Block \<Rightarrow> string \<Rightarrow> string" where
  "insert_blkinfo difficulty blk blktime_s =
     ''INSERT INTO blkinfo VALUES(x'' @ quoted (hex_bytes (rev (blk_curhash blk))) @
     '','' @ quoted (decimal (unat (blk_blocknumber blk))) @
     '','' @ quoted (decimal (unat (hd_Blocksize (blk_Head blk)))) @
     '','' @ quoted (decimal (unat (blk_trans_count blk))) @
     '','' @ quoted blktime_s @
     '','' @ quoted (decimal (unat (difficulty (hd_bits (blk_Head blk))))) @
     '','' @ quoted (decimal (unat (blk_blockReward blk))) @ '');''"

definition BlockProcess ::
  "(unit32 \<Rightarrow> unit64) \<Rightarrow> 'db mysql \<Rightarrow> Block \<Rightarrow> ('db, 'm) state_scheme \<Rightarrow> ('db, 'm) state_scheme option" where
  "BlockProcess difficulty my blk st = do {
     blktime_s \<leftarrow> getTimeString (hd_timeStamp (blk_Head blk));
     Some (mysql_query my (insert_blkinfo difficulty blk blktime_s) st)
   }"

lemma BlockProcess_run:
  "\<exists>t. BlockProcess difficulty my blk st = Some (mysql_query my (insert_blkinfo difficulty blk t) st) \<and> quote_free t"
  unfolding BlockProcess_def getTimeString_strftime using quote_free_strftime by auto

text \<open>The table lists the 237 files in the order of their numbers.\<close>

lemma blkname_numbered:
  "blkname = map (\<lambda>i. path (''E:/blocks/blk00'' @ drop 1 (decimal (1000 + i)) @ ''.dat'')) [0..<237]"
  by (simp add: blkname_def upt_eval decimal_eval digit_chars)

end
