(* ===== verification/Unzip_Blocks.thy ===== *)
theory Unzip_Blocks
  imports Block_Process
begin

text \<open>
  \<open>unzipBlocks.h\<close>: the main loop. One call reads the block files from a checkpoint to the end of a day,
  processes every transaction and every block, refreshes the entities and writes the next checkpoint.
  The text files are the map \<open>files\<close>, the block files a second map from the path to the bytes. The
  time zone of \<open>mktime\<close>, the two stores and the difficulty are parameters. The log file and the console
  output are left out.

  Numbers of type \<open>int\<close> are 32-bit words read with sign. A stream that failed stays failed until the
  next \<open>open\<close>: \<open>seekg\<close> and \<open>read\<close> have no effect on it and \<open>peek\<close> returns \<open>EOF\<close>. \<open>None\<close> is undefined behaviour:
  reading bytes that were not read from the file, a variable that was not initialised, or a loop that
  does not end.
\<close>

section \<open>One block\<close>

definition ONE_BTC :: unit64 where
  "ONE_BTC = 100000000"

definition block_reward :: "unit32 \<Rightarrow> unit64 \<Rightarrow> unit64" where
  "block_reward blocknumber sumoutvalue =
    (if blocknumber < 210000 then sumoutvalue - 50 * ONE_BTC else sumoutvalue - 25 * ONE_BTC)"

primrec block_transactions ::
  "'db mysql \<Rightarrow> 'kv leveldb \<Rightarrow> unit32 \<Rightarrow> unit32 \<Rightarrow> bytes \<Rightarrow> nat \<Rightarrow> unit16 \<Rightarrow> unit32 \<Rightarrow> nat \<Rightarrow> unit64 option \<Rightarrow>
     ('db, 'kv, 'm) tstate_scheme \<Rightarrow> (unit64 option \<times> unit32 \<times> ('db, 'kv, 'm) tstate_scheme) option" where
  "block_transactions my ld timeStamp blocknumber transSec 0 txNum txcounter transPos reward st =
     Some (reward, txcounter, st)"
| "block_transactions my ld timeStamp blocknumber transSec (Suc k) txNum txcounter transPos reward st = do {
     (tx, transPos) \<leftarrow> read_tx blocknumber txNum txcounter timeStamp transSec transPos;
     let sumoutvalue = (if txNum = 0 then sum_list (map out_val (tx_outs tx)) else 0);
     let reward = (if txNum = 0 then Some (block_reward blocknumber sumoutvalue) else reward);
     st \<leftarrow> (if txcounter \<noteq> 142783 \<and> txcounter \<noteq> 142841 then TransactionProcess my ld tx st else Some st);
     block_transactions my ld timeStamp blocknumber transSec k (txNum + 1) (txcounter + 1) transPos reward st
   }"

text \<open>
  The body of the loop over the blocks of a file, with the file pointer at \<open>blockPos\<close>. The loop is left by
  \<open>break\<close> (\<open>Stop\<close>), goes on with a stream that failed (\<open>Failed\<close>), or goes on with a good one (\<open>Good\<close>).
\<close>

datatype outcome = Stop | Failed | Good

definition block_step ::
  "'db mysql \<Rightarrow> 'kv leveldb \<Rightarrow> (unit32 \<Rightarrow> unit64) \<Rightarrow> int \<Rightarrow> bytes \<Rightarrow> unit32 \<Rightarrow> unit32 \<Rightarrow> unit32 \<Rightarrow>
     ('db, 'kv, 'm) tstate_scheme \<Rightarrow> (outcome \<times> unit32 \<times> unit32 \<times> unit32 \<times> ('db, 'kv, 'm) tstate_scheme) option" where
  "block_step my ld difficulty stoptm_t file blockPos BlockNum txcounter st =
    (let rest = drop (unat blockPos) file;
         blockStart = take 88 rest @ replicate (88 - length rest) 0;
         Head = read_header blockStart;
         curhash = twiceSHA256 (drop 8 blockStart);
         blocknumber = BlockNum;
         BlockNum = BlockNum + 1
     in if int (unat (hd_timeStamp Head)) > stoptm_t then Some (Stop, blockPos, BlockNum, txcounter, st)
        else do {
          let size = unat (hd_Blocksize Head - 80);
          let transSec = (if length rest < 88 then [] else take size (drop 88 rest));
          (trans_count, transPos) \<leftarrow> readVarLen transSec 0;
          (reward, txcounter, st) \<leftarrow>
            block_transactions my ld (hd_timeStamp Head) blocknumber transSec (unat trans_count) 0 txcounter transPos None st;
          blockReward \<leftarrow> reward;
          st \<leftarrow> BlockProcess difficulty my \<lparr>blk_Head = Head, blk_trans_count = trans_count, blk_curhash = curhash,
            blk_blocknumber = blocknumber, blk_blockReward = blockReward\<rparr> st;
          let good = (88 \<le> length rest \<and> length transSec = size);
          Some (if good then Good else Failed, blockPos + hd_Blocksize Head + 8, BlockNum, txcounter, st)
        })"


section \<open>The files\<close>

partial_function (option) block_loop ::
  "'db mysql \<Rightarrow> 'kv leveldb \<Rightarrow> (unit32 \<Rightarrow> unit64) \<Rightarrow> int \<Rightarrow> bytes \<Rightarrow> unit32 \<Rightarrow> unit32 \<Rightarrow> unit32 \<Rightarrow>
     ('db, 'kv, 'm) tstate_scheme \<Rightarrow> (bool \<times> unit32 \<times> unit32 \<times> unit32 \<times> ('db, 'kv, 'm) tstate_scheme) option" where
  "block_loop my ld difficulty stoptm_t file blockPos BlockNum txcounter st =
    (if sint blockPos < 0 \<or> length file \<le> unat blockPos then Some (False, blockPos, BlockNum, txcounter, st)
     else do {
       (r, blockPos, BlockNum, txcounter, st) \<leftarrow>
         block_step my ld difficulty stoptm_t file blockPos BlockNum txcounter st;
       case r of
         Stop \<Rightarrow> Some (True, blockPos, BlockNum, txcounter, st)
       | Failed \<Rightarrow> Some (False, blockPos, BlockNum, txcounter, st)
       | Good \<Rightarrow> block_loop my ld difficulty stoptm_t file blockPos BlockNum txcounter st
     })"

text \<open>
  The loop over the file numbers still to come; \<open>next_file\<close> is the value of \<open>blkfile_num\<close> when it ends
  without \<open>break\<close>. A file that cannot be opened is skipped.
\<close>

fun file_loop ::
  "'db mysql \<Rightarrow> 'kv leveldb \<Rightarrow> (unit32 \<Rightarrow> unit64) \<Rightarrow> int \<Rightarrow> (string \<Rightarrow> bytes option) \<Rightarrow> nat \<Rightarrow> unit32 \<Rightarrow> nat list \<Rightarrow> nat \<Rightarrow>
     unit32 \<Rightarrow> unit32 \<Rightarrow> unit32 \<Rightarrow> ('db, 'kv, 'm) tstate_scheme \<Rightarrow>
     (nat \<times> unit32 \<times> unit32 \<times> unit32 \<times> ('db, 'kv, 'm) tstate_scheme) option" where
  "file_loop my ld difficulty stoptm_t disk BLKFILE BLKPOS [] next_file blockPos BlockNum txcounter st =
     Some (next_file, blockPos, BlockNum, txcounter, st)"
| "file_loop my ld difficulty stoptm_t disk BLKFILE BLKPOS (blkfile_num # nums) next_file blockPos BlockNum txcounter st = do {
     name \<leftarrow> at blkname blkfile_num;
     let blockPos = (if blkfile_num = BLKFILE then BLKPOS else 0);
     (testflag, blockPos, BlockNum, txcounter, st) \<leftarrow>
       (case disk name of
          None \<Rightarrow> Some (False, blockPos, BlockNum, txcounter, st)
        | Some file \<Rightarrow> block_loop my ld difficulty stoptm_t file blockPos BlockNum txcounter st);
     if testflag then Some (blkfile_num, blockPos, BlockNum, txcounter, st)
     else file_loop my ld difficulty stoptm_t disk BLKFILE BLKPOS nums next_file blockPos BlockNum txcounter st
   }"


section \<open>The parameters and the checkpoint\<close>

definition scan_unit32 :: "string \<Rightarrow> (unit32 \<times> string) option" where
  "scan_unit32 s = do {
     (i, s) \<leftarrow> scan_int s;
     if - (2 ^ 32) < i \<and> i < 2 ^ 32 then Some (word_of_int i, s) else None
   }"

definition scan_int32 :: "string \<Rightarrow> (unit32 \<times> string) option" where
  "scan_int32 s = do {
     (i, s) \<leftarrow> scan_int s;
     if - (2 ^ 31) \<le> i \<and> i < 2 ^ 31 then Some (word_of_int i, s) else None
   }"

definition read_checkpoint :: "string \<Rightarrow> (unit32 \<times> unit32 \<times> unit32 \<times> unit32 \<times> unit32) option" where
  "read_checkpoint s = do {
     (BLKFILE, s) \<leftarrow> scan_unit32 s;
     (BLKPOS, s) \<leftarrow> scan_unit32 s;
     (BLOCKNUM, s) \<leftarrow> scan_int32 s;
     (TXCOUNTER, s) \<leftarrow> scan_int32 s;
     (cnt, s) \<leftarrow> scan_unit32 s;
     Some (BLKFILE, BLKPOS, BLOCKNUM, TXCOUNTER, cnt)
   }"

definition read_stop :: "string \<Rightarrow> (unit32 \<times> unit32 \<times> unit32) option" where
  "read_stop s = do {
     (STOPYEAR, s) \<leftarrow> scan_unit32 s;
     (STOPMON, s) \<leftarrow> scan_unit32 s;
     (STOPDAY, s) \<leftarrow> scan_unit32 s;
     Some (STOPYEAR, STOPMON, STOPDAY)
   }"

definition stop_time :: "int \<Rightarrow> unit32 \<Rightarrow> unit32 \<Rightarrow> unit32 \<Rightarrow> int" where
  "stop_time tz STOPYEAR STOPMON STOPDAY =
     mktime tz \<lparr>tm_year = sint (STOPYEAR - 1900), tm_mon = unat (STOPMON - 1), tm_mday = unat STOPDAY,
       tm_hour = 23, tm_min = 59, tm_sec = 59\<rparr>"

definition write_checkpoint :: "nat \<Rightarrow> unit32 \<Rightarrow> unit32 \<Rightarrow> unit32 \<Rightarrow> unit32 \<Rightarrow> string" where
  "write_checkpoint blkfile_num blockPos BlockNum txcounter cnt =
     decimal_int (int blkfile_num) @ newline @ decimal_int (sint blockPos) @ newline @
     decimal_int (sint (BlockNum - 2)) @ newline @ decimal_int (sint (txcounter - 1)) @ newline @
     decimal_int (int (unat cnt)) @ newline"

definition unzipBlocks ::
  "'db mysql \<Rightarrow> 'kv leveldb \<Rightarrow> (unit32 \<Rightarrow> unit64) \<Rightarrow> int \<Rightarrow> (string \<Rightarrow> bytes option) \<Rightarrow>
     ('db, 'kv, 'm) tstate_scheme \<Rightarrow> files \<Rightarrow> (('db, 'kv, 'm) tstate_scheme \<times> files) option" where
  "unzipBlocks my ld difficulty tz disk st files = do {
     unzip_0 \<leftarrow> files (path ''H:/para/1.unzip_0.txt'');
     (BLKFILE, BLKPOS, BLOCKNUM, TXCOUNTER, cnt) \<leftarrow> read_checkpoint unzip_0;
     let st = st\<lparr>entitycnt := cnt\<rparr>;
     unzip_1 \<leftarrow> files (path ''H:/para/1.unzip_1.txt'');
     (STOPYEAR, STOPMON, STOPDAY) \<leftarrow> read_stop unzip_1;
     let BlockNum = BLOCKNUM + 1;
     let txcounter = TXCOUNTER + 1;
     let stoptm_t = stop_time tz STOPYEAR STOPMON STOPDAY;
     first \<leftarrow> (if sint BLKFILE < 0 then None else Some (unat BLKFILE));
     (blkfile_num, blockPos, BlockNum, txcounter, st) \<leftarrow>
       file_loop my ld difficulty stoptm_t disk first BLKPOS [first..<218] (max first 218)
         0 BlockNum txcounter st;
     let st = update_entity_mysql my st;
     Some (st, files(path ''H:/para/1.unzip_0.txt'' \<mapsto>
       write_checkpoint blkfile_num blockPos BlockNum txcounter (entitycnt st)))
   }"


section \<open>Encoded files\<close>

definition ser_head :: "Blkheader \<Rightarrow> bytes" where
  "ser_head h = le_bytes 4 (hd_magic h) @ le_bytes 4 (hd_Blocksize h) @ le_bytes 4 (hd_Version h) @ hd_preBlockHash h @
     hd_merkRoot h @ le_bytes 4 (hd_timeStamp h) @ le_bytes 4 (hd_bits h) @ le_bytes 4 (hd_nonce h)"

definition wf_head :: "Blkheader \<Rightarrow> bool" where
  "wf_head h \<longleftrightarrow> length (hd_preBlockHash h) = 32 \<and> length (hd_merkRoot h) = 32"

lemma length_ser_head: "wf_head h \<Longrightarrow> length (ser_head h) = 88"
  by (simp add: ser_head_def wf_head_def)

lemma read_header_ser: "wf_head h \<Longrightarrow> read_header (ser_head h) = h"
  by (simp add: read_header_def ser_head_def wf_head_def le_word_le_bytes)

text \<open>A block is its header and its transactions; the metadata of a transaction come with its place.\<close>

type_synonym block = "Blkheader \<times> Transaction list"

definition ser_body :: "Transaction list \<Rightarrow> bytes" where
  "ser_body txs = ser_varlen (word_of_nat (length txs)) @ concat (map ser_tx txs)"

definition ser_block :: "block \<Rightarrow> bytes" where
  "ser_block = (\<lambda>(h, txs). ser_head h @ ser_body txs)"

definition wf_block :: "block \<Rightarrow> bool" where
  "wf_block = (\<lambda>(h, txs). wf_head h \<and> list_all wf_tx txs \<and> txs \<noteq> [] \<and> length txs < 2 ^ 16 \<and>
     length (ser_body txs) + 80 < 2 ^ 31 \<and> unat (hd_Blocksize h) = length (ser_body txs) + 80)"

definition stamp :: "unit32 \<Rightarrow> unit16 \<Rightarrow> unit32 \<Rightarrow> unit32 \<Rightarrow> Transaction \<Rightarrow> Transaction" where
  "stamp blocknumber txNum txcounter timeStamp tx =
     tx\<lparr>tx_blocknumber := blocknumber, tx_txnumber := txNum, tx_txcounter := txcounter, tx_txtime := timeStamp,
        tx_length := word_of_nat (length (ser_tx tx)), tx_curhash := twiceSHA256 (ser_tx tx)\<rparr>"

lemma stamp_facts:
  "ser_tx (stamp bn tn tc ts tx) = ser_tx tx" "wf_tx (stamp bn tn tc ts tx) = wf_tx tx"
  "tx_meta bn tn tc ts (stamp bn tn tc ts tx)" "tx_outs (stamp bn tn tc ts tx) = tx_outs tx"
  by (simp_all add: stamp_def ser_tx_def wf_tx_def tx_meta_def)

text \<open>What the loop does to the stores, block by block.\<close>

fun run_txs ::
  "'db mysql \<Rightarrow> 'kv leveldb \<Rightarrow> unit32 \<Rightarrow> unit32 \<Rightarrow> Transaction list \<Rightarrow> unit16 \<Rightarrow> unit32 \<Rightarrow> ('db, 'kv, 'm) tstate_scheme \<Rightarrow>
     (unit32 \<times> ('db, 'kv, 'm) tstate_scheme) option" where
  "run_txs my ld timeStamp blocknumber [] txNum txcounter st = Some (txcounter, st)"
| "run_txs my ld timeStamp blocknumber (tx # txs) txNum txcounter st = do {
     st \<leftarrow> (if txcounter \<noteq> 142783 \<and> txcounter \<noteq> 142841
            then TransactionProcess my ld (stamp blocknumber txNum txcounter timeStamp tx) st else Some st);
     run_txs my ld timeStamp blocknumber txs (txNum + 1) (txcounter + 1) st
   }"

definition run_block ::
  "'db mysql \<Rightarrow> 'kv leveldb \<Rightarrow> (unit32 \<Rightarrow> unit64) \<Rightarrow> block \<Rightarrow> unit32 \<Rightarrow> unit32 \<Rightarrow> ('db, 'kv, 'm) tstate_scheme \<Rightarrow>
     (unit32 \<times> ('db, 'kv, 'm) tstate_scheme) option" where
  "run_block my ld difficulty = (\<lambda>(h, txs) blocknumber txcounter st. do {
     (txcounter, st) \<leftarrow> run_txs my ld (hd_timeStamp h) blocknumber txs 0 txcounter st;
     st \<leftarrow> BlockProcess difficulty my \<lparr>blk_Head = h, blk_trans_count = word_of_nat (length txs),
       blk_curhash = twiceSHA256 (drop 8 (ser_head h)), blk_blocknumber = blocknumber,
       blk_blockReward = block_reward blocknumber (sum_list (map out_val (tx_outs (hd txs))))\<rparr> st;
     Some (txcounter, st)
   })"

fun run_blocks ::
  "'db mysql \<Rightarrow> 'kv leveldb \<Rightarrow> (unit32 \<Rightarrow> unit64) \<Rightarrow> int \<Rightarrow> block list \<Rightarrow> unit32 \<Rightarrow> unit32 \<Rightarrow> unit32 \<Rightarrow>
     ('db, 'kv, 'm) tstate_scheme \<Rightarrow> (bool \<times> unit32 \<times> unit32 \<times> unit32 \<times> ('db, 'kv, 'm) tstate_scheme) option" where
  "run_blocks my ld difficulty stop [] pos BlockNum txcounter st = Some (False, pos, BlockNum, txcounter, st)"
| "run_blocks my ld difficulty stop (b # bs) pos BlockNum txcounter st =
    (if int (unat (hd_timeStamp (fst b))) > stop then Some (True, pos, BlockNum + 1, txcounter, st)
     else do {
       (txcounter, st) \<leftarrow> run_block my ld difficulty b BlockNum txcounter st;
       run_blocks my ld difficulty stop bs (pos + word_of_nat (length (ser_block b))) (BlockNum + 1) txcounter st
     })"

lemma block_transactions_run:
  fixes st :: "('db, 'kv, 'm) tstate_scheme"
  assumes "list_all wf_tx txs" "sec = pre @ concat (map ser_tx txs)" "pos = length pre"
    and "unat tn + length txs < 2 ^ 16" "reward = None \<longleftrightarrow> tn = 0"
  shows "block_transactions my ld ts bn sec (length txs) tn tc pos reward st =
    map_option (\<lambda>(tc, st).
      (if tn = 0 \<and> txs \<noteq> [] then Some (block_reward bn (sum_list (map out_val (tx_outs (hd txs))))) else reward, tc, st))
      (run_txs my ld ts bn txs tn tc st)"
  using assms
proof (induction txs arbitrary: pre pos tn tc reward st)
  case (Cons tx txs)
  let ?tx = "stamp bn tn tc ts tx"
  have wf: "wf_tx ?tx" "tx_meta bn tn tc ts ?tx"
    using Cons.prems(1) by (simp_all add: stamp_facts)
  have read: "read_tx bn tn tc ts sec pos = Some (?tx, length (pre @ ser_tx tx))"
    using tx.reads [of ?tx bn tn tc ts pre "concat (map ser_tx txs)"] wf Cons.prems(2,3) by (simp add: stamp_facts)
  have tn: "unat (tn + 1) = unat tn + 1"
    using Cons.prems(4) by (simp add: unat_word_ariths)
  then have nz: "tn + 1 \<noteq> 0"
    by (metis add_is_0 one_neq_zero unat_0)
  define rw where "rw = (if tn = 0 then Some (block_reward bn (sum_list (map out_val (tx_outs tx)))) else reward)"
  define go where "go = (if tc \<noteq> 142783 \<and> tc \<noteq> 142841 then TransactionProcess my ld ?tx st else Some st)"
  have some: "rw \<noteq> None"
    using Cons.prems(5) by (auto simp: rw_def)
  have IH: "block_transactions my ld ts bn sec (length txs) (tn + 1) (tc + 1) (length (pre @ ser_tx tx)) rw st' =
      map_option (\<lambda>(tc, st). (rw, tc, st)) (run_txs my ld ts bn txs (tn + 1) (tc + 1) st')"
    for st' :: "('db, 'kv, 'm) tstate_scheme"
    using Cons.IH [of "pre @ ser_tx tx" "length (pre @ ser_tx tx)" "tn + 1" rw "tc + 1" st'] Cons.prems tn nz some
    by simp
  have "block_transactions my ld ts bn sec (length (tx # txs)) tn tc pos reward st =
      Option.bind go (block_transactions my ld ts bn sec (length txs) (tn + 1) (tc + 1) (length (pre @ ser_tx tx)) rw)"
    unfolding rw_def go_def by (simp add: read stamp_facts Let_def cong: if_cong)
  moreover have "run_txs my ld ts bn (tx # txs) tn tc st = Option.bind go (run_txs my ld ts bn txs (tn + 1) (tc + 1))"
    unfolding go_def by simp
  moreover have "(if tn = 0 \<and> tx # txs \<noteq> [] then Some (block_reward bn (sum_list (map out_val (tx_outs (hd (tx # txs)))))) else reward) = rw"
    by (simp add: rw_def)
  ultimately show ?case
    by (cases go) (simp_all only: IH bind.simps option.map)
qed simp


lemma block_step_run:
  assumes wf: "wf_block b" and pos: "unat pos = length pre"
  shows "block_step my ld difficulty stop (pre @ ser_block b @ post) pos bn tc st =
    (if int (unat (hd_timeStamp (fst b))) > stop then Some (Stop, pos, bn + 1, tc, st)
     else map_option (\<lambda>(tc, st). (Good, pos + word_of_nat (length (ser_block b)), bn + 1, tc, st))
       (run_block my ld difficulty b bn tc st))"
proof -
  obtain h txs where b: "b = (h, txs)" by (cases b)
  have wf': "wf_head h" "list_all wf_tx txs" "txs \<noteq> []" "length txs < 2 ^ 16" "length (ser_body txs) + 80 < 2 ^ 31"
    "unat (hd_Blocksize h) = length (ser_body txs) + 80"
    using wf by (simp_all add: b wf_block_def)
  have len: "length (ser_head h) = 88"
    using wf'(1) by (rule length_ser_head)
  have size: "hd_Blocksize h = word_of_nat (length (ser_body txs) + 80)"
    using wf'(5,6) by (simp add: word_unat_eq_iff unat_of_nat del: of_nat_add)
  have size80: "unat (hd_Blocksize h - 80) = length (ser_body txs)"
    using wf'(5) by (simp add: size unat_of_nat)
  have count: "readVarLen (ser_body txs) 0 =
      Some (word_of_nat (length txs), length (ser_varlen (word_of_nat (length txs))))"
    using varlen.reads [of "[]" "word_of_nat (length txs)" "concat (map ser_tx txs)"] by (simp add: ser_body_def)
  have n: "unat (word_of_nat (length txs) :: unit32) = length txs"
    using wf'(4) by (simp add: unat_of_nat)
  have txs: "block_transactions my ld ts bn (ser_body txs) (length txs) 0 tc
      (length (ser_varlen (word_of_nat (length txs)))) None st =
      map_option (\<lambda>(tc, st). (Some (block_reward bn (sum_list (map out_val (tx_outs (hd txs))))), tc, st))
        (run_txs my ld ts bn txs 0 tc st)" for ts
    by (subst block_transactions_run [where pre = "ser_varlen (word_of_nat (length txs))"])
      (use wf'(2-4) in \<open>simp_all add: ser_body_def\<close>)
  have move: "pos + hd_Blocksize h + 8 = pos + word_of_nat (length (ser_block b))"
    by (simp add: b ser_block_def len size)
  have rest: "drop (unat pos) (pre @ ser_block b @ post) = ser_head h @ ser_body txs @ post"
    by (simp add: pos b ser_block_def)
  have start: "take 88 (ser_head h @ ser_body txs @ post) @ replicate (88 - length (ser_head h @ ser_body txs @ post)) 0 = ser_head h"
    "\<not> length (ser_head h @ ser_body txs @ post) < 88" "88 \<le> length (ser_head h @ ser_body txs @ post)"
    "take (length (ser_body txs)) (drop 88 (ser_head h @ ser_body txs @ post)) = ser_body txs"
    by (simp_all add: len)
  show ?thesis
    unfolding block_step_def rest Let_def start read_header_ser [OF wf'(1)] size80 move if_False if_True
    by (simp add: b run_block_def len count n txs Let_def map_option_bind bind_map_option case_prod_beta comp_def cong: if_cong)
qed

lemma sint_small:
  assumes "unat (w :: unit32) < 2 ^ 31"
  shows "sint w = int (unat w)"
proof -
  have w: "uint w < 2 ^ 31"
    using assms by (metis uint_nat of_nat_less_iff of_nat_numeral of_nat_power)
  have "- (2 ^ 31) \<le> uint w"
    by (rule order_trans [OF _ uint_ge_0]) simp
  then have "signed_take_bit 31 (uint w) = uint w"
    using w by (rule signed_take_bit_int_eq_self)
  then show ?thesis
    by (simp add: sint_uint)
qed

lemma block_loop_run:
  fixes st :: "('db, 'kv, 'm) tstate_scheme"
  assumes "list_all wf_block bs" "file = pre @ concat (map ser_block bs)" "length file < 2 ^ 31" "unat pos = length pre"
  shows "block_loop my ld difficulty stop file pos bn tc st = run_blocks my ld difficulty stop bs pos bn tc st"
  using assms
proof (induction bs arbitrary: pre pos bn tc st)
  case Nil
  then show ?case
    by (simp add: block_loop.simps)
next
  case (Cons b bs)
  have step: "block_step my ld difficulty stop file pos bn tc st =
    (if int (unat (hd_timeStamp (fst b))) > stop then Some (Stop, pos, bn + 1, tc, st)
     else map_option (\<lambda>(tc, st). (Good, pos + word_of_nat (length (ser_block b)), bn + 1, tc, st))
       (run_block my ld difficulty b bn tc st))"
    using block_step_run [of b pos pre my ld difficulty stop "concat (map ser_block bs)" bn tc st] Cons.prems by simp
  have b: "0 < length (ser_block b)"
    using Cons.prems(1) by (cases b) (simp add: ser_block_def wf_block_def length_ser_head)
  have len: "length pre + length (ser_block b) \<le> length file"
    using Cons.prems(2) by simp
  have "unat pos < length file"
    using len b Cons.prems(4) by linarith
  then have pos: "\<not> sint pos < 0" "\<not> length file \<le> unat pos"
    using Cons.prems(3) sint_small [of pos] by simp_all
  have next_pos: "unat (pos + word_of_nat (length (ser_block b))) = length (pre @ ser_block b)"
    using len Cons.prems(3,4) by (simp add: unat_word_ariths unat_of_nat)
  have IH: "block_loop my ld difficulty stop file (pos + word_of_nat (length (ser_block b))) bn' tc' st' =
      run_blocks my ld difficulty stop bs (pos + word_of_nat (length (ser_block b))) bn' tc' st'"
    for bn' tc' and st' :: "('db, 'kv, 'm) tstate_scheme"
    using Cons.IH [of "pre @ ser_block b"] Cons.prems next_pos by simp
  show ?case
    by (subst block_loop.simps) (simp add: pos step IH split: bind_splits)
qed


section \<open>Stopping and going on\<close>

lemma block_step_Stop:
  "block_step my ld difficulty stop file pos bn tc st = Some (Stop, p, bn1, tc1, st1) \<Longrightarrow>
     p = pos \<and> bn1 = bn + 1 \<and> tc1 = tc \<and> st1 = st"
  by (auto simp: block_step_def Let_def bind_eq_Some_conv split: if_splits)

lemma block_step_later:
  assumes "block_step my ld difficulty s1 file pos bn tc st = Some (r, p, bn1, tc1, st1)" "r \<noteq> Stop" "s1 \<le> s2"
  shows "block_step my ld difficulty s2 file pos bn tc st = Some (r, p, bn1, tc1, st1)"
  using assms by (auto simp: block_step_def Let_def split: if_splits)

lemma block_loop_resume:
  assumes run: "block_loop my ld difficulty s1 file pos bn tc st = Some (c, p, bn1, tc1, st1)" and later: "s1 \<le> s2"
  shows "block_loop my ld difficulty s2 file pos bn tc st =
    (if c then block_loop my ld difficulty s2 file p (bn1 - 1) tc1 st1 else Some (c, p, bn1, tc1, st1))"
proof -
  have "s1 \<le> s2 \<longrightarrow> block_loop my ld difficulty s2 file pos bn tc st =
    (case (c, p, bn1, tc1, st1) of (c, p, bn1, tc1, st1) \<Rightarrow>
      if c then block_loop my ld difficulty s2 file p (bn1 - 1) tc1 st1 else Some (c, p, bn1, tc1, st1))"
  proof (rule block_loop.raw_induct [where P = "\<lambda>my ld difficulty s1 file pos bn tc st r. s1 \<le> s2 \<longrightarrow>
      block_loop my ld difficulty s2 file pos bn tc st =
      (case r of (c, p, bn1, tc1, st1) \<Rightarrow>
        if c then block_loop my ld difficulty s2 file p (bn1 - 1) tc1 st1 else Some (c, p, bn1, tc1, st1))"
      and y = "(c, p, bn1, tc1, st1)", OF _ run], goal_cases)
    case (1 loop my ld difficulty s1 dat pos bn tc st r)
    show ?case
    proof (cases "sint pos < 0 \<or> length dat \<le> unat pos")
      case True
      then show ?thesis
        using 1(2) block_loop.simps [of my ld difficulty s2 dat pos bn tc st] by auto
    next
      case False
      obtain o1 p1 bn1 tc1 st1 where step: "block_step my ld difficulty s1 dat pos bn tc st = Some (o1, p1, bn1, tc1, st1)"
        using 1(2) False by (auto simp: bind_eq_Some_conv)
      show ?thesis
      proof (cases o1)
        case Stop
        then show ?thesis
          using 1(2) False step block_step_Stop [of my ld difficulty s1 dat pos bn tc st] by auto
      next
        case Failed
        then show ?thesis
          using 1(2) False step block_step_later [OF step, of s2]
            block_loop.simps [of my ld difficulty s2 dat pos bn tc st] by auto
      next
        case Good
        then show ?thesis
          using 1(2) False step block_step_later [OF step, of s2] 1(1) [of my ld difficulty s1 dat p1 bn1 tc1 st1 r]
            block_loop.simps [of my ld difficulty s2 dat pos bn tc st] by auto
      qed
    qed
  qed
  with later show ?thesis by simp
qed

text \<open>The part of the loop that works on one file.\<close>

definition file_step ::
  "'db mysql \<Rightarrow> 'kv leveldb \<Rightarrow> (unit32 \<Rightarrow> unit64) \<Rightarrow> int \<Rightarrow> (string \<Rightarrow> bytes option) \<Rightarrow> nat \<Rightarrow> unit32 \<Rightarrow> unit32 \<Rightarrow> unit32 \<Rightarrow>
     ('db, 'kv, 'm) tstate_scheme \<Rightarrow> (bool \<times> unit32 \<times> unit32 \<times> unit32 \<times> ('db, 'kv, 'm) tstate_scheme) option" where
  "file_step my ld difficulty stop disk k pos bn tc st =
     Option.bind (at blkname k) (\<lambda>name. case disk name of
       None \<Rightarrow> Some (False, pos, bn, tc, st)
     | Some file \<Rightarrow> block_loop my ld difficulty stop file pos bn tc st)"

lemma file_loop_Cons:
  "file_loop my ld difficulty stop disk B P (k # nums) n pos bn tc st =
     Option.bind (file_step my ld difficulty stop disk k (if k = B then P else 0) bn tc st)
       (\<lambda>(c, p, bn, tc, st). if c then Some (k, p, bn, tc, st)
          else file_loop my ld difficulty stop disk B P nums n p bn tc st)"
  by (simp add: file_step_def Let_def)

lemma file_step_resume:
  assumes "file_step my ld difficulty s1 disk k pos bn tc st = Some (c, p, bn1, tc1, st1)" "s1 \<le> s2"
  shows "file_step my ld difficulty s2 disk k pos bn tc st =
    (if c then file_step my ld difficulty s2 disk k p (bn1 - 1) tc1 st1 else Some (c, p, bn1, tc1, st1))"
proof (cases "at blkname k")
  case (Some name)
  show ?thesis
  proof (cases "disk name")
    case (Some dat)
    then show ?thesis
      using assms(1) block_loop_resume [OF _ assms(2), of my ld difficulty dat pos bn tc st c p bn1 tc1 st1]
      by (simp add: file_step_def \<open>at blkname k = Some name\<close>)
  qed (use assms(1) Some in \<open>auto simp: file_step_def\<close>)
qed (use assms(1) in \<open>simp add: file_step_def\<close>)

lemma file_loop_result:
  "file_loop my ld difficulty stop disk B P nums n pos bn tc st = Some (j, p, bn1, tc1, st1) \<Longrightarrow> j \<in> insert n (set nums)"
proof (induction nums arbitrary: pos bn tc st)
  case (Cons k nums)
  then show ?case
    unfolding file_loop_Cons by (auto simp: bind_eq_Some_conv split: if_splits)
qed simp

lemma file_loop_started:
  "B \<notin> set nums \<Longrightarrow> k \<notin> set nums \<Longrightarrow>
     file_loop my ld difficulty stop disk B P nums n pos bn tc st = file_loop my ld difficulty stop disk k p nums n pos bn tc st"
proof (induction nums arbitrary: pos bn tc st)
  case (Cons i nums)
  then have "B \<notin> set nums" "k \<notin> set nums" by simp_all
  note IH = Cons.IH [OF this]
  show ?case
    unfolding file_loop_Cons IH using Cons.prems by auto
qed simp

lemma file_loop_resume:
  assumes "file_loop my ld difficulty s1 disk B P nums n pos bn tc st = Some (j, p, bn1, tc1, st1)"
    and "n \<notin> set nums" "j \<noteq> n" "distinct nums" "B \<notin> set (tl nums)" "s1 \<le> s2"
  shows "file_loop my ld difficulty s2 disk B P nums n pos bn tc st =
    file_loop my ld difficulty s2 disk j p (dropWhile (\<lambda>k. k \<noteq> j) nums) n 0 (bn1 - 1) tc1 st1"
  using assms
proof (induction nums arbitrary: pos bn tc st)
  case (Cons k nums)
  obtain c p' bn' tc' st' where step: "file_step my ld difficulty s1 disk k (if k = B then P else 0) bn tc st =
      Some (c, p', bn', tc', st')"
    and rest: "(if c then Some (k, p', bn', tc', st')
      else file_loop my ld difficulty s1 disk B P nums n p' bn' tc' st') = Some (j, p, bn1, tc1, st1)"
    using Cons.prems(1) unfolding file_loop_Cons by (auto simp: bind_eq_Some_conv)
  note again = file_step_resume [OF step Cons.prems(6)]
  have B: "B \<notin> set nums" "k \<notin> set nums" "B \<notin> set (tl nums)"
    using Cons.prems(4,5) list.set_sel(2) [of nums B] by (cases nums; auto)+
  show ?case
  proof (cases c)
    case True
    with rest have j: "j = k" "p = p'" "bn1 = bn'" "tc1 = tc'" "st1 = st'"
      by simp_all
    show ?thesis
      using True again unfolding j
      by (simp only: dropWhile.simps simp_thms if_False if_True file_loop_Cons
          file_loop_started [OF B(1,2), of my ld difficulty s2 disk P n _ _ _ _ p'])
  next
    case False
    then have IH: "file_loop my ld difficulty s2 disk B P nums n p' bn' tc' st' =
        file_loop my ld difficulty s2 disk j p (dropWhile (\<lambda>k. k \<noteq> j) nums) n 0 (bn1 - 1) tc1 st1"
      using Cons.IH [of p' bn' tc' st'] rest Cons.prems B by simp
    have "j \<noteq> k"
      using rest False B(2) file_loop_result [of my ld difficulty s1 disk B P nums n p' bn' tc' st'] Cons.prems(3) by auto
    then show ?thesis
      using False IH again unfolding file_loop_Cons by simp
  qed
qed simp


section \<open>The checkpoint file\<close>

lemma scan_line:
  "scan_int (decimal_int i @ newline @ r) = Some (i, newline @ r)"
  "scan_int (newline @ decimal_int i @ newline @ r) = Some (i, newline @ r)"
  using scan_int_decimal_int [of "newline @ r" "[]" i] scan_int_decimal_int [of "newline @ r" newline i]
  by (simp_all add: is_space_def is_digit_def)

lemma sint_range: "- (2 ^ 31) \<le> sint (w :: unit32)" "sint (w :: unit32) < 2 ^ 31"
  using sint_ge [of w] sint_lt [of w] by simp_all

lemma scan_sint:
  "scan_unit32 (newline @ decimal_int (sint w) @ newline @ r) = Some (w, newline @ r)"
  "scan_int32 (newline @ decimal_int (sint w) @ newline @ r) = Some (w, newline @ r)"
  using sint_range [of w] by (simp_all add: scan_unit32_def scan_int32_def scan_line del: append.simps)

lemma scan_nat:
  assumes "n < 2 ^ 32"
  shows "scan_unit32 (decimal_int (int n) @ newline @ r) = Some (word_of_nat n, newline @ r)"
    and "scan_unit32 (newline @ decimal_int (int n) @ newline @ r) = Some (word_of_nat n, newline @ r)"
proof -
  have "- (2 ^ 32) < int n" "int n < 2 ^ 32"
    using assms by simp_all
  then show "scan_unit32 (decimal_int (int n) @ newline @ r) = Some (word_of_nat n, newline @ r)"
    and "scan_unit32 (newline @ decimal_int (int n) @ newline @ r) = Some (word_of_nat n, newline @ r)"
    by (simp_all add: scan_unit32_def scan_line del: append.simps)
qed

lemma checkpoint_read_back:
  assumes "n < 2 ^ 32"
  shows "read_checkpoint (write_checkpoint n p b t c) = Some (word_of_nat n, p, b - 2, t - 1, c)"
proof -
  have "unat c < 2 ^ 32"
    using unsigned_less [of c] by simp
  then show ?thesis
    using scan_nat [OF assms] scan_nat(2) [of "unat c" "[]"]
    by (simp add: read_checkpoint_def write_checkpoint_def scan_sint del: append.simps)
qed

lemma entitycnt_update: "entitycnt (update_entity_mysql my st) = entitycnt st"
proof -
  have "entitycnt (foldl (\<lambda>st e. mysql_query my (refresh_entity e) st) st es) = entitycnt st" for es
    by (induction es arbitrary: st) simp_all
  then show ?thesis
    by (simp add: update_entity_mysql_def Let_def)
qed

lemma dropWhile_upt: "B \<le> j \<Longrightarrow> j < n \<Longrightarrow> dropWhile (\<lambda>k. k \<noteq> j) [B..<n] = [j..<n]"
proof (induction "j - B" arbitrary: B)
  case (Suc d)
  then have "dropWhile (\<lambda>k. k \<noteq> j) [Suc B..<n] = [j..<n]"
    by simp
  with Suc show ?case
    by (simp add: upt_conv_Cons)
qed (simp add: upt_conv_Cons)

end
