(* ===== verification/Chain.thy ===== *)
theory Chain
  imports Ledger Unzip_Blocks
begin

text \<open>
  A chain of blocks from the bytes of a file to the accounts. What the transactions of a chain spend and
  receive is defined on the transactions alone, without a store; the properties say that \<open>unzipBlocks.h\<close>
  and the code it calls book exactly these amounts.
\<close>

section \<open>The tables of the whole program\<close>

locale chain_tables = ledger_tables my ent ids acct dflt
  for my :: "'db mysql" and ent ids acct dflt +
  assumes blkinfo_law: "quote_free t \<Longrightarrow>
      acct (my_exec my (insert_blkinfo difficulty blk t) db) = acct db \<and>
      ent (my_exec my (insert_blkinfo difficulty blk t) db) = ent db \<and>
      ids (my_exec my (insert_blkinfo difficulty blk t) db) = ids db"
begin

lemma BlockProcess_books:
  fixes st :: "('db, 'm) state_scheme"
  obtains st' where "BlockProcess difficulty my blk st = Some st'" and "acct (conn st') = acct (conn st)"
    and "ent (conn st') = ent (conn st)" and "state.more st' = state.more st"
  using BlockProcess_run [of difficulty my blk st] blkinfo_law by fastforce

end

interpretation chain: chain_tables sql sql_ent entityinfo sql_acct default_account
proof
  fix t difficulty blk and db :: tables
  have "parse (insert_blkinfo difficulty blk t) = Other"
    by (simp add: parse_def parse_select_def parse_set_entity_def parse_delete_def parse_insert_entity_def
        parse_debit_def parse_credit_def parse_raise_def insert_blkinfo_def)
  then have "my_exec sql (insert_blkinfo difficulty blk t) db = db"
    by (simp add: sql_def)
  then show "sql_acct (my_exec sql (insert_blkinfo difficulty blk t) db) = sql_acct db \<and>
      sql_ent (my_exec sql (insert_blkinfo difficulty blk t) db) = sql_ent db \<and>
      entityinfo (my_exec sql (insert_blkinfo difficulty blk t) db) = entityinfo db"
    by simp
qed


section \<open>What a chain spends\<close>

text \<open>The transactions processed so far, the newest first; a later one with the same hash hides an earlier one.\<close>

definition coin_in :: "Txin \<Rightarrow> bool" where
  "coin_in i \<longleftrightarrow> rev (in_hash i) = coinbase_b"

definition source :: "Transaction list \<Rightarrow> Txin \<Rightarrow> Txout option" where
  "source past i =
    (case find (\<lambda>p. tx_curhash p = in_hash i) past of
       None \<Rightarrow> None
     | Some p \<Rightarrow> if unat (in_index i) < length (tx_outs p) then Some (tx_outs p ! unat (in_index i)) else None)"

definition entry :: "Transaction list \<Rightarrow> Txin \<Rightarrow> bytes" where
  "entry past i = (if coin_in i then coin else out_entry (the (source past i)))"

definition valid_tx :: "Transaction list \<Rightarrow> Transaction \<Rightarrow> bool" where
  "valid_tx past tx \<longleftrightarrow> tx_shape tx \<and> length (tx_curhash tx) = 32 \<and>
     (length (tx_ins tx) = 1 \<and> coin_in (hd (tx_ins tx)) \<or>
      list_all (\<lambda>i. \<not> coin_in i \<and> source past i \<noteq> None) (tx_ins tx))"

fun valid_chain :: "Transaction list \<Rightarrow> Transaction list \<Rightarrow> bool" where
  "valid_chain past [] = True"
| "valid_chain past (tx # txs) = (valid_tx past tx \<and> valid_chain (tx # past) txs)"

fun spent :: "Transaction list \<Rightarrow> Transaction list \<Rightarrow> bytes \<Rightarrow> int" where
  "spent past [] a = 0"
| "spent past (tx # txs) a = paid_from (map (entry past) (tx_ins tx)) a + spent (tx # past) txs a"

definition received :: "Transaction list \<Rightarrow> bytes \<Rightarrow> int" where
  "received txs a = (\<Sum>tx\<leftarrow>txs. paid_to (tx_outs tx) a)"

text \<open>The two stores know the past: every output can be read back, and every paid address has an account.\<close>

definition readable :: "Transaction list \<Rightarrow> db \<Rightarrow> bool" where
  "readable past d \<longleftrightarrow> (\<forall>p \<in> set past. length (tx_curhash p) = 32) \<and>
     (\<forall>i t. \<not> coin_in i \<longrightarrow> source past i = Some t \<longrightarrow>
       ReadOutput level_store (rev (in_hash i)) (in_index i) d = Some (out_entry t))"

definition paid_known :: "Transaction list \<Rightarrow> (bytes \<Rightarrow> unit32 option) \<Rightarrow> bool" where
  "paid_known past own1 \<longleftrightarrow>
     (\<forall>p \<in> set past. \<forall>t \<in> set (tx_outs p). length (out_address t) = 20 \<and> own1 (out_address t) \<noteq> None)"

lemma source_paid: "source past i = Some t \<Longrightarrow> \<exists>p \<in> set past. t \<in> set (tx_outs p) \<and> tx_curhash p = in_hash i"
  by (fastforce simp: source_def find_Some_iff in_set_conv_nth split: option.splits if_splits)

lemma spends_entries:
  assumes valid: "valid_tx past tx" and readable: "readable past (tx_db st)" and paid: "paid_known past (ent (conn st))"
  defines "es \<equiv> map (entry past) (tx_ins tx)"
  shows "spends tx (tx_db st) es" and "payers es = [coinbase_h] \<or> known (owners_of ent ids st) (payers es)"
proof -
  have coin: "ReadOutput level_store (rev (in_hash i)) (in_index i) (tx_db st) = Some coin" if "coin_in i" for i
    using that by (simp add: ReadOutput_def coin_in_def coin_def flip: replicate_20_coinbase)
  have old: "ReadOutput level_store (rev (in_hash i)) (in_index i) (tx_db st) = Some (out_entry (the (source past i))) \<and>
      length (out_address (the (source past i))) = 20 \<and> ent (conn st) (out_address (the (source past i))) \<noteq> None"
    if "\<not> coin_in i" "source past i \<noteq> None" for i
    using that readable paid source_paid [of past i] by (fastforce simp: readable_def paid_known_def)
  consider i where "tx_ins tx = [i]" "coin_in i" | "list_all (\<lambda>i. \<not> coin_in i \<and> source past i \<noteq> None) (tx_ins tx)"
    using valid by (cases "tx_ins tx") (auto simp: valid_tx_def)
  then have "spends tx (tx_db st) es \<and> (payers es = [coinbase_h] \<or> known (owners_of ent ids st) (payers es))"
  proof cases
    case 1
    then show ?thesis
      using coinbase_example(3) by (simp add: es_def spends_def entry_def coin)
  next
    case 2
    then have "spends tx (tx_db st) es"
      using old by (auto simp: es_def spends_def entry_def list_all2_map2 list_all_iff list_all2_same)
    moreover have "known (owners_of ent ids st) (payers es)"
      using 2 old by (auto simp: es_def payers_def known_def owners_of_def entry_def list_all_iff out_entry_def)
    ultimately show ?thesis by blast
  qed
  then show "spends tx (tx_db st) es" "payers es = [coinbase_h] \<or> known (owners_of ent ids st) (payers es)"
    by blast+
qed


section \<open>One transaction\<close>

lemma own_merge_inputs_known: "own w a \<noteq> None \<Longrightarrow> own (merge_inputs as w) a \<noteq> None"
  by (simp add: merge_inputs_def Let_def)

lemma own_assign_outputs_known: "own w a \<noteq> None \<Longrightarrow> own (assign_outputs as w) a \<noteq> None"
  by (induction as w rule: assign_outputs.induct) (simp_all add: Let_def)

lemma own_add_unowned_known: "own w a \<noteq> None \<or> a \<in> set as \<Longrightarrow> own (add_unowned as w) a \<noteq> None"
  by (auto simp: add_unowned_def)

lemma ReadOutput_cong: "ld_get ld h kv = ld_get ld h kv' \<Longrightarrow> ReadOutput ld h i kv = ReadOutput ld h i kv'"
  by (simp add: ReadOutput_def)

lemma readable_put:
  assumes run: "TransactionProcess my level_store tx st = Some st'" and valid: "valid_tx past tx"
    and room: "0 < kv_room (tx_db st)" and readable: "readable past (tx_db st)"
  shows "readable (tx # past) (tx_db st')" and "kv_room (tx_db st') = kv_room (tx_db st) - 1"
proof -
  have shape: "tx_shape tx" and hash: "length (tx_curhash tx) = 32"
    using valid by (simp_all add: valid_tx_def)
  obtain preouts where p: "tx_db st' = ld_put level_store (rev (tx_curhash tx)) (stored_value tx preouts) (tx_db st)"
    "length (stored_value tx preouts) < 2 ^ 31"
    using TransactionProcess_stored [OF run] shape unfolding tx_shape_def by blast
  show "kv_room (tx_db st') = kv_room (tx_db st) - 1"
    using p hash level.room_put [OF room, of "rev (tx_curhash tx)"] by (simp add: level_store_def)
  have old: "ReadOutput level_store (rev h) i (tx_db st') = ReadOutput level_store (rev h) i (tx_db st)"
    if "length h = 32" "h \<noteq> tx_curhash tx" for h i
    using that p hash level.get_put [OF room, of "rev (tx_curhash tx)" "stored_value tx preouts" "rev h"]
    by (intro ReadOutput_cong) (simp add: level_store_def)
  have "ReadOutput level_store (rev (in_hash i)) (in_index i) (tx_db st') = Some (out_entry t)"
    if i: "\<not> coin_in i" "source (tx # past) i = Some t" for i t
  proof (cases "tx_curhash tx = in_hash i")
    case True
    then have "unat (in_index i) < length (tx_outs tx)" "t = tx_outs tx ! unat (in_index i)"
      using i(2) by (simp_all add: source_def split: if_splits)
    then show ?thesis
      using stored_read_back [OF run shape hash _ room, of "in_index i"] i(1) True by (simp add: coin_in_def)
  next
    case False
    then have t: "source past i = Some t"
      using i(2) by (simp add: source_def)
    then have "length (in_hash i) = 32"
      using source_paid readable by (fastforce simp: readable_def)
    then show ?thesis
      using old [of "in_hash i" "in_index i"] False t i(1) readable by (simp add: readable_def)
  qed
  then show "readable (tx # past) (tx_db st')"
    using hash readable by (simp add: readable_def)
qed

text \<open>What is booked between two states.\<close>

definition booked :: "ledger \<Rightarrow> ledger \<Rightarrow> (bytes \<Rightarrow> int) \<Rightarrow> (bytes \<Rightarrow> int) \<Rightarrow> bool" where
  "booked A B took gave \<longleftrightarrow>
     (\<forall>a. a \<noteq> coinbase_h \<longrightarrow> total_in B a = total_in A a + took a \<and> total_out B a = total_out A a + gave a) \<and>
     (ledger_inv A \<longrightarrow> ledger_inv B)"

lemma booked_same [intro]: "booked A A (\<lambda>a. 0) (\<lambda>a. 0)"
  by (simp add: booked_def)

lemma booked_trans: "booked A B t1 g1 \<Longrightarrow> booked B C t2 g2 \<Longrightarrow> booked A C (\<lambda>a. t1 a + t2 a) (\<lambda>a. g1 a + g2 a)"
  by (simp add: booked_def)

lemma process_valid_tx:
  fixes st :: "('db, db) tstate"
  assumes tables: "ledger_tables my ent ids acct dflt" and new: "inval dflt = 0" and valid: "valid_tx past tx"
    and readable: "readable past (tx_db st)" and paid: "paid_known past (ent (conn st))" and room: "0 < kv_room (tx_db st)"
  obtains st' where "TransactionProcess my level_store tx st = Some st'"
    and "readable (tx # past) (tx_db st')" and "paid_known (tx # past) (ent (conn st'))"
    and "kv_room (tx_db st') = kv_room (tx_db st) - 1"
    and "booked (acct (conn st)) (acct (conn st')) (paid_from (map (entry past) (tx_ins tx))) (paid_to (tx_outs tx))"
proof -
  let ?es = "map (entry past) (tx_ins tx)"
  have shape: "tx_shape tx" using valid by (simp add: valid_tx_def)
  note es = spends_entries(1) [where ent = ent and st = st, OF valid readable paid]
    spends_entries(2) [where ent = ent and st = st and ids = ids, OF valid readable paid]
  obtain st' t where st': "TransactionProcess my level_store tx st = Some st'"
    "acct (conn st') = fold (post_output dflt t) (tx_outs tx) (fold (post_input t) ?es (acct (conn st)))"
    "owners_of ent ids st' = assign_outputs (payees tx) (add_unowned (payees tx)
      (if payers ?es = [coinbase_h] then owners_of ent ids st else merge_inputs (payers ?es) (owners_of ent ids st)))"
    using process_run [OF tables shape es] by blast
  have "own (owners_of ent ids st') a \<noteq> None" if "ent (conn st) a \<noteq> None \<or> a \<in> set (payees tx)" for a
  proof -
    have "own (owners_of ent ids st) a \<noteq> None \<or> a \<in> set (payees tx)"
      using that by (simp add: owners_of_def)
    then show ?thesis
      unfolding st'(3) using own_merge_inputs_known
      by (intro own_assign_outputs_known own_add_unowned_known) auto
  qed
  then have "ent (conn st') a \<noteq> None" if "ent (conn st) a \<noteq> None \<or> a \<in> set (payees tx)" for a
    using that by (simp add: owners_of_def)
  then have "paid_known (tx # past) (ent (conn st'))"
    using paid shape by (simp add: paid_known_def payees_def tx_shape_def list_all_iff)
  moreover have "acct (conn st) b \<noteq> None" if "own (owners_of ent ids st) b \<noteq> None" for b
    using ledger_tables.rows [OF tables, of "conn st" b] that by (simp add: owners_of_def)
  then have "booked (acct (conn st)) (acct (conn st')) (paid_from ?es) (paid_to (tx_outs tx))"
    unfolding st'(2) booked_def
    using post_inv [of "acct (conn st)" dflt t "tx_outs tx" ?es] process_totals [OF _ es(2), of _ "acct (conn st)" t]
    by (simp add: post_outputs_totals [OF new])
  ultimately show thesis
    using that st'(1) readable_put [OF st'(1) valid room readable] by blast
qed


section \<open>The blocks of a file\<close>

text \<open>
  The transactions that the loop processes: all of the blocks up to the stop time but the two whose
  counters \<open>unzipBlocks\<close> leaves out.
\<close>

fun accepted :: "unit32 \<Rightarrow> unit32 \<Rightarrow> Transaction list \<Rightarrow> unit16 \<Rightarrow> unit32 \<Rightarrow> Transaction list" where
  "accepted timeStamp blocknumber [] txNum txcounter = []"
| "accepted timeStamp blocknumber (tx # txs) txNum txcounter =
    (if txcounter \<noteq> 142783 \<and> txcounter \<noteq> 142841
     then stamp blocknumber txNum txcounter timeStamp tx # accepted timeStamp blocknumber txs (txNum + 1) (txcounter + 1)
     else accepted timeStamp blocknumber txs (txNum + 1) (txcounter + 1))"

definition due :: "int \<Rightarrow> block list \<Rightarrow> block list" where
  "due stop bs = takeWhile (\<lambda>b. int (unat (hd_timeStamp (fst b))) \<le> stop) bs"

fun chain_of :: "block list \<Rightarrow> unit32 \<Rightarrow> unit32 \<Rightarrow> Transaction list" where
  "chain_of [] BlockNum txcounter = []"
| "chain_of (b # bs) BlockNum txcounter = accepted (hd_timeStamp (fst b)) BlockNum (snd b) 0 txcounter @
     chain_of bs (BlockNum + 1) (txcounter + word_of_nat (length (snd b)))"

text \<open>The stores after a part of the chain was processed.\<close>

definition knows ::
  "('db \<Rightarrow> bytes \<Rightarrow> unit32 option) \<Rightarrow> Transaction list \<Rightarrow> nat \<Rightarrow> ('db, db) tstate \<Rightarrow> bool" where
  "knows ent past n st \<longleftrightarrow> readable past (tx_db st) \<and> paid_known past (ent (conn st)) \<and> n \<le> kv_room (tx_db st)"

definition advanced ::
  "('db \<Rightarrow> bytes \<Rightarrow> unit32 option) \<Rightarrow> ('db \<Rightarrow> ledger) \<Rightarrow> Transaction list \<Rightarrow> Transaction list \<Rightarrow> nat \<Rightarrow>
     ('db, db) tstate \<Rightarrow> ('db, db) tstate \<Rightarrow> bool" where
  "advanced ent acct past txs n st st' \<longleftrightarrow> knows ent (rev txs @ past) n st' \<and>
     booked (acct (conn st)) (acct (conn st')) (spent past txs) (received txs)"

lemma spent_append: "spent past (xs @ ys) a = spent past xs a + spent (rev xs @ past) ys a"
  by (induction xs arbitrary: past) simp_all

lemma valid_chain_append: "valid_chain past (xs @ ys) \<longleftrightarrow> valid_chain past xs \<and> valid_chain (rev xs @ past) ys"
  by (induction xs arbitrary: past) simp_all

lemma advanced_refl: "knows ent past n st \<Longrightarrow> advanced ent acct past [] n st st"
  by (simp add: advanced_def received_def booked_def)

lemma advanced_trans:
  assumes "advanced ent acct past xs n st st'" "advanced ent acct (rev xs @ past) ys m st' st''"
  shows "advanced ent acct past (xs @ ys) m st st''"
  using assms booked_trans [of "acct (conn st)" "acct (conn st')" "spent past xs" "received xs" "acct (conn st'')"
      "spent (rev xs @ past) ys" "received ys"]
  by (simp add: advanced_def received_def spent_append booked_def)

lemma run_txs_advance:
  fixes st :: "('db, db) tstate"
  assumes tables: "ledger_tables my ent ids acct dflt" and new: "inval dflt = 0"
    and "valid_chain past (accepted ts bn txs tn tc)" "knows ent past (length (accepted ts bn txs tn tc) + n) st"
  shows "\<exists>st'. run_txs my level_store ts bn txs tn tc st = Some (tc + word_of_nat (length txs), st') \<and>
    advanced ent acct past (accepted ts bn txs tn tc) n st st'"
  using assms(3,4)
proof (induction txs arbitrary: past tn tc st)
  case Nil
  then show ?case by (simp add: advanced_refl)
next
  case (Cons tx txs)
  let ?rest = "accepted ts bn txs (tn + 1) (tc + 1)" and ?tx = "stamp bn tn tc ts tx"
  show ?case
  proof (cases "tc \<noteq> 142783 \<and> tc \<noteq> 142841")
    case True
    then have chain: "accepted ts bn (tx # txs) tn tc = ?tx # ?rest" by simp
    then have valid: "valid_tx past ?tx" "valid_chain (?tx # past) ?rest"
      using Cons.prems(1) by simp_all
    have kn0: "knows ent past (Suc (length ?rest + n)) st"
      using Cons.prems(2) unfolding chain by simp
    then have k: "readable past (tx_db st)" "paid_known past (ent (conn st))" "0 < kv_room (tx_db st)"
      by (simp_all add: knows_def)
    obtain st' where st': "TransactionProcess my level_store ?tx st = Some st'" "readable (?tx # past) (tx_db st')"
      "paid_known (?tx # past) (ent (conn st'))" "kv_room (tx_db st') = kv_room (tx_db st) - 1"
      "booked (acct (conn st)) (acct (conn st')) (paid_from (map (entry past) (tx_ins ?tx))) (paid_to (tx_outs ?tx))"
      by (rule process_valid_tx [OF tables new valid(1) k])
    then have kn: "knows ent (?tx # past) (length ?rest + n) st'"
      using kn0 unfolding knows_def by (metis Suc_le_D Suc_le_mono diff_Suc_1)
    then have first: "advanced ent acct past [?tx] (length ?rest + n) st st'"
      using st'(5) by (simp add: advanced_def booked_def received_def)
    obtain st'' where rest: "run_txs my level_store ts bn txs (tn + 1) (tc + 1) st' = Some (tc + 1 + word_of_nat (length txs), st'')"
      "advanced ent acct (?tx # past) ?rest n st' st''"
      using Cons.IH [OF valid(2) kn] by blast
    then show ?thesis
      using st'(1) True advanced_trans [OF first, of ?rest n st''] by (simp add: chain add.assoc)
  next
    case False
    then have chain: "accepted ts bn (tx # txs) tn tc = ?rest" by simp
    obtain st'' where "run_txs my level_store ts bn txs (tn + 1) (tc + 1) st = Some (tc + 1 + word_of_nat (length txs), st'')"
      "advanced ent acct past ?rest n st st''"
      using Cons.IH [of past "tn + 1" "tc + 1" st] Cons.prems unfolding chain by blast
    with False show ?thesis
      unfolding chain by (auto simp: add.assoc)
  qed
qed

lemma run_block_advance:
  fixes st :: "('db, db) tstate"
  assumes tables: "chain_tables my ent ids acct dflt" and new: "inval dflt = 0"
    and "valid_chain past (accepted (hd_timeStamp (fst b)) bn (snd b) 0 tc)"
      "knows ent past (length (accepted (hd_timeStamp (fst b)) bn (snd b) 0 tc) + n) st"
  shows "\<exists>st'. run_block my level_store difficulty b bn tc st = Some (tc + word_of_nat (length (snd b)), st') \<and>
    advanced ent acct past (accepted (hd_timeStamp (fst b)) bn (snd b) 0 tc) n st st'"
proof -
  obtain st' where st': "run_txs my level_store (hd_timeStamp (fst b)) bn (snd b) 0 tc st =
      Some (tc + word_of_nat (length (snd b)), st')"
    "advanced ent acct past (accepted (hd_timeStamp (fst b)) bn (snd b) 0 tc) n st st'"
    using run_txs_advance [OF chain_tables.axioms(1) [OF tables] new assms(3,4)] by blast
  obtain h txs where b: "b = (h, txs)" by (cases b)
  let ?blk = "\<lparr>blk_Head = h, blk_trans_count = word_of_nat (length txs),
      blk_curhash = twiceSHA256 (drop 8 (ser_head h)), blk_blocknumber = bn,
      blk_blockReward = block_reward bn (sum_list (map out_val (tx_outs (hd txs))))\<rparr>"
  obtain st'' where st'': "BlockProcess difficulty my ?blk st' = Some st''" "acct (conn st'') = acct (conn st')"
    "ent (conn st'') = ent (conn st')" "state.more st'' = state.more st'"
    by (rule chain_tables.BlockProcess_books [OF tables])
  then have "run_block my level_store difficulty b bn tc st = Some (tc + word_of_nat (length (snd b)), st'')"
    using st'(1) by (simp add: run_block_def b)
  moreover have "tx_db st'' = tx_db st'"
    using st''(4) by (cases st'; cases st'') simp
  moreover note st''(2,3)
  ultimately show ?thesis
    using st'(2) by (auto simp: advanced_def knows_def)
qed

lemma run_blocks_due:
  assumes tables: "chain_tables my ent ids acct dflt" and new: "inval dflt = 0"
    and "valid_chain past (chain_of (due stop bs) bn tc)" "knows ent past (length (chain_of (due stop bs) bn tc) + n) st"
  shows "\<exists>st'. run_blocks my level_store difficulty stop bs pos bn tc st =
      Some (due stop bs \<noteq> bs, pos + word_of_nat (length (concat (map ser_block (due stop bs)))),
        bn + word_of_nat (length (due stop bs)) + (if due stop bs \<noteq> bs then 1 else 0),
        tc + word_of_nat (\<Sum>b\<leftarrow>due stop bs. length (snd b)), st') \<and>
    advanced ent acct past (chain_of (due stop bs) bn tc) n st st'"
  using assms(3,4)
proof (induction bs arbitrary: past pos bn tc st)
  case Nil
  then show ?case by (simp add: due_def advanced_refl)
next
  case (Cons b bs)
  show ?case
  proof (cases "int (unat (hd_timeStamp (fst b))) \<le> stop")
    case True
    let ?now = "accepted (hd_timeStamp (fst b)) bn (snd b) 0 tc"
    let ?rest = "chain_of (due stop bs) (bn + 1) (tc + word_of_nat (length (snd b)))"
    have due: "due stop (b # bs) = b # due stop bs"
      using True by (simp add: due_def)
    have valid: "valid_chain past ?now" "valid_chain (rev ?now @ past) ?rest"
      using Cons.prems(1) by (simp_all add: due valid_chain_append)
    have "knows ent past (length ?now + (length ?rest + n)) st"
      using Cons.prems(2) by (simp add: due add.assoc)
    then obtain st' where st': "run_block my level_store difficulty b bn tc st = Some (tc + word_of_nat (length (snd b)), st')"
      "advanced ent acct past ?now (length ?rest + n) st st'"
      using run_block_advance [OF tables new valid(1)] by blast
    have "knows ent (rev ?now @ past) (length ?rest + n) st'"
      using st'(2) by (simp add: advanced_def)
    from Cons.IH [OF valid(2) this, of "pos + word_of_nat (length (ser_block b))"] st' True
    show ?thesis
      using advanced_trans [OF st'(2)] by (auto simp: due add.assoc add.commute add.left_commute)
  next
    case False
    then have "due stop (b # bs) = []" by (simp add: due_def)
    with False Cons.prems show ?thesis
      by (simp add: advanced_refl)
  qed
qed


section \<open>An example\<close>

definition sample_spend :: Transaction where
  "sample_spend = sample_base\<lparr>
     tx_ins := [\<lparr>in_hash = replicate 32 9, in_index = 0, in_script_length = 0, in_script = [], in_seq = 0\<rparr>],
     tx_outs := [\<lparr>out_val = 4999990000, out_script_length = 25,
       out_script = [0x76, 0xa9, 20] @ replicate 20 3 @ [0x88, 0xac], out_address = replicate 20 3\<rparr>]\<rparr>"

definition sample_block :: block where
  "sample_block = (\<lparr>hd_magic = 0xd9b4bef9, hd_Blocksize = 253, hd_Version = 1, hd_preBlockHash = replicate 32 1,
     hd_merkRoot = replicate 32 2, hd_timeStamp = 1231731025, hd_bits = 0x1d00ffff, hd_nonce = 5\<rparr>,
     [sample_base, sample_spend])"

lemmas sample_defs = sample_block_def sample_spend_def sample_base_def

lemma sample_wf: "list_all wf_block [sample_block]"
  by (simp add: sample_defs wf_block_def wf_head_def wf_tx_def wf_txin_def wf_txout_def outAddress_def
      ser_body_def ser_tx_def ser_txin_def ser_txout_def ser_varlen_def)

lemma coin_in_replicate: "coin_in i" if "in_hash i = replicate 32 0" for i
  using that by (simp add: coin_in_def replicate_32_coinbase [symmetric])

lemma length_twiceSHA256: "length m < 2 ^ 32 \<Longrightarrow> length (twiceSHA256 m) = 32"
  using length_computeSHA256 [of m] length_computeSHA256 [of "computeSHA256 m"] by (simp add: twiceSHA256_def)

lemma sample_source:
  "\<exists>t. source [stamp bn tn tc ts sample_base, coinbase_tx] (hd (tx_ins sample_spend)) = Some t \<and>
     out_address t = replicate 20 7 \<and> out_val t = 5000000000"
  by (simp add: source_def stamp_def sample_defs coinbase_tx_def)

lemma sample_lengths: "length (ser_tx sample_base) = 87" "length (ser_tx sample_spend) = 85"
  by (simp_all add: sample_defs ser_tx_def ser_txin_def ser_txout_def ser_varlen_def)

lemma sample_valid:
  "valid_chain [coinbase_tx] [stamp 1 0 2 ts sample_base, stamp 1 1 3 ts sample_spend]"
proof -
  have hash: "length (tx_curhash (stamp bn tn tc ts sample_base)) = 32"
    "length (tx_curhash (stamp bn tn tc ts sample_spend)) = 32" for bn tn tc
    using length_twiceSHA256 sample_lengths by (simp_all add: stamp_def)
  have "valid_tx [coinbase_tx] (stamp 1 0 2 ts sample_base)"
    using coin_in_replicate [of "hd (tx_ins sample_base)"]
    by (simp add: valid_tx_def tx_shape_def hash) (simp add: stamp_def sample_base_def)
  moreover have "\<not> coin_in (hd (tx_ins sample_spend))"
    by (simp add: coin_in_def sample_defs flip: replicate_32_coinbase)
  then have "valid_tx [stamp 1 0 2 ts sample_base, coinbase_tx] (stamp 1 1 3 ts sample_spend)"
    using sample_source [of 1 0 2 ts]
    by (simp add: valid_tx_def tx_shape_def hash) (auto simp: stamp_def sample_spend_def sample_base_def)
  ultimately show ?thesis by simp
qed


definition sample_disk :: "string \<Rightarrow> bytes option" where
  "sample_disk name = Some (concat (map ser_block [sample_block]))"

definition sample_files :: files where
  "sample_files = [path ''H:/para/1.unzip_0.txt'' \<mapsto> write_checkpoint 218 5 300002 9 7,
     path ''H:/para/1.unzip_1.txt'' \<mapsto> decimal_int 2013 @ newline @ decimal_int 6 @ newline @ decimal_int 30 @ newline]"

lemma sample_block_length: "length (concat (map ser_block [sample_block])) = 261"
  using sample_lengths length_ser_head [of "fst sample_block"]
  by (simp add: sample_block_def ser_block_def ser_body_def ser_varlen_def wf_head_def)

lemma sample_stop:
  "file_loop sql level_store (\<lambda>bits. 1) 0 sample_disk 0 0 [0..<218] 218 0 1 2 empty_state = Some (0, 0, 2, 2, empty_state)"
proof -
  have "block_loop sql level_store (\<lambda>bits. 1) 0 (concat (map ser_block [sample_block])) 0 1 2 empty_state =
      Some (True, 0, 2, 2, empty_state)"
    using block_loop_run [OF sample_wf, of _ "[]" 0 sql level_store "\<lambda>bits. 1" 0 1 2 empty_state] sample_block_length
    by (simp add: sample_block_def)
  then have "file_step sql level_store (\<lambda>bits. 1) 0 sample_disk 0 0 1 2 empty_state = Some (True, 0, 2, 2, empty_state)"
    by (simp add: file_step_def sample_disk_def at_def blkname_def)
  moreover have "[0..<218] = 0 # [1..<218]"
    by (simp add: upt_conv_Cons)
  ultimately show ?thesis
    by (simp only: file_loop_Cons) simp
qed

lemma sample_files_read:
  "sample_files (path ''H:/para/1.unzip_0.txt'') = Some (write_checkpoint 218 5 300002 9 7)"
  "read_checkpoint (write_checkpoint 218 5 300002 9 7) = Some (218, 5, 300000, 8, 7)"
  "sample_files (path ''H:/para/1.unzip_1.txt'') =
     Some (decimal_int 2013 @ newline @ decimal_int 6 @ newline @ decimal_int 30 @ newline)"
  "read_stop (decimal_int 2013 @ newline @ decimal_int 6 @ newline @ decimal_int 30 @ newline) = Some (2013, 6, 30)"
  using checkpoint_read_back [of 218 5 300002 9 7] scan_nat(1) [of 2013] scan_nat(2) [of 6] scan_nat(2) [of 30 "[]"]
  by (simp_all add: sample_files_def path_def read_stop_def del: append.simps)


section \<open>Properties\<close>

text \<open>
  C1. A file of well-formed blocks is worked off completely: on the encoding of a chain in which every
  transaction creates coins or spends outputs of transactions before it, the loop over the blocks
  returns, whatever is in the file before its start. It stops before the first block later than the
  stop time and leaves the position, the block number and the transaction counter there. Afterwards
  every account has received exactly what the outputs of the chain pay to its address and spent
  exactly the outputs of its address that the inputs name, the balances are the differences, and
  all outputs of the chain can be read back and their addresses have accounts, so that the next
  file continues from there.
\<close>

theorem chain_booked:
  assumes tables: "chain_tables my ent ids acct dflt" and new: "inval dflt = 0"
    and blocks: "list_all wf_block bs" and small: "length (pre @ concat (map ser_block bs)) < 2 ^ 31"
    and valid: "valid_chain past (chain_of (due stop bs) bn tc)"
    and known: "knows ent past (length (chain_of (due stop bs) bn tc)) st"
  shows "\<exists>st'. block_loop my level_store difficulty stop (pre @ concat (map ser_block bs)) (word_of_nat (length pre)) bn tc st =
      Some (due stop bs \<noteq> bs, word_of_nat (length (pre @ concat (map ser_block (due stop bs)))),
        bn + word_of_nat (length (due stop bs)) + (if due stop bs \<noteq> bs then 1 else 0),
        tc + word_of_nat (\<Sum>b\<leftarrow>due stop bs. length (snd b)), st') \<and>
    (\<forall>a. a \<noteq> coinbase_h \<longrightarrow>
      total_in (acct (conn st')) a = total_in (acct (conn st)) a + spent past (chain_of (due stop bs) bn tc) a \<and>
      total_out (acct (conn st')) a = total_out (acct (conn st)) a + received (chain_of (due stop bs) bn tc) a) \<and>
    (ledger_inv (acct (conn st)) \<longrightarrow> ledger_inv (acct (conn st'))) \<and>
    knows ent (rev (chain_of (due stop bs) bn tc) @ past) 0 st'"
proof -
  have pos: "unat (word_of_nat (length pre) :: unit32) = length pre"
    using small by (simp add: unat_of_nat)
  show ?thesis
    using run_blocks_due [OF tables new valid, of 0 st difficulty "word_of_nat (length pre)"] known
    by (auto simp: block_loop_run [OF blocks refl small pos] advanced_def booked_def)
qed

theorem chain_booked_witness:
  "\<exists>st st'. TransactionProcess sql level_store coinbase_tx empty_state = Some st \<and>
     block_loop sql level_store (\<lambda>bits. 1) 1231804799 ([] @ concat (map ser_block [sample_block])) (word_of_nat (length ([] :: bytes))) 1 2 st =
       Some (False, 261, 2, 4, st') \<and>
     total_in (sql_acct (conn st')) (replicate 20 7) = total_in (sql_acct (conn st)) (replicate 20 7) + 5000000000 \<and>
     total_out (sql_acct (conn st')) (replicate 20 3) = total_out (sql_acct (conn st)) (replicate 20 3) + 4999990000"
proof -
  let ?chain = "chain_of (due 1231804799 [sample_block]) 1 2"
  have valid: "valid_tx [] coinbase_tx"
    using coinbase_example(1) coin_in_replicate [of "hd (tx_ins coinbase_tx)"] by (simp add: valid_tx_def) (simp add: coinbase_tx_def)
  have "readable [] (tx_db empty_state)" "paid_known [] (sql_ent (conn empty_state))" "0 < kv_room (tx_db empty_state)"
    using kv_room_fresh by (simp_all add: readable_def source_def paid_known_def empty_state_def)
  then obtain st where st: "TransactionProcess sql level_store coinbase_tx empty_state = Some st"
    "readable [coinbase_tx] (tx_db st)" "paid_known [coinbase_tx] (sql_ent (conn st))"
    "kv_room (tx_db st) = kv_room (tx_db empty_state) - 1"
    using process_valid_tx [OF server.ledger_tables_axioms _ valid, of empty_state] by (auto simp: default_account_def)
  have due: "due 1231804799 [sample_block] = [sample_block]"
    by (simp add: due_def sample_block_def)
  have chain: "?chain = [stamp 1 0 2 1231731025 sample_base, stamp 1 1 3 1231731025 sample_spend]"
    unfolding due by (simp add: sample_block_def)
  have known: "knows sql_ent [coinbase_tx] (length ?chain) st"
    using st kv_room_fresh by (simp add: knows_def chain empty_state_def)
  have valid2: "valid_chain [coinbase_tx] ?chain"
    unfolding chain by (rule sample_valid)
  have "\<not> coin_in (hd (tx_ins sample_spend))"
    by (simp add: coin_in_def sample_defs flip: replicate_32_coinbase)
  then have "entry [stamp 1 0 2 1231731025 sample_base, coinbase_tx] (hd (tx_ins sample_spend)) =
      replicate 20 7 @ le_bytes 8 (5000000000 :: unit64)"
    using sample_source [of 1 0 2 1231731025] by (auto simp: entry_def out_entry_def)
  moreover have "entry [coinbase_tx] (hd (tx_ins sample_base)) = coin"
    using coin_in_replicate [of "hd (tx_ins sample_base)"] by (simp add: entry_def) (simp add: sample_base_def)
  moreover have "take 20 coin = coinbase_h" "replicate 20 7 \<noteq> coinbase_h" "replicate 20 3 \<noteq> coinbase_h"
    by (simp_all add: coin_def flip: replicate_20_coinbase)
  ultimately have sums: "spent [coinbase_tx] ?chain (replicate 20 7) = 5000000000"
    "received ?chain (replicate 20 3) = 4999990000"
    unfolding chain
    by (simp_all add: stamp_def received_def paid_from_def paid_to_def preout_value_def)
      (simp_all add: sample_spend_def sample_base_def preout_value_def le_word_le_bytes)
  note len = sample_block_length
  have new: "inval default_account = 0"
    by (simp add: default_account_def)
  have small: "length ([] @ concat (map ser_block [sample_block])) < 2 ^ 31"
    unfolding append_Nil len by simp
  obtain st' where run: "block_loop sql level_store (\<lambda>bits. 1) 1231804799 ([] @ concat (map ser_block [sample_block]))
      (word_of_nat (length ([] :: bytes))) 1 2 st =
      Some (due 1231804799 [sample_block] \<noteq> [sample_block],
        word_of_nat (length ([] @ concat (map ser_block (due 1231804799 [sample_block])))),
        1 + word_of_nat (length (due 1231804799 [sample_block])) +
          (if due 1231804799 [sample_block] \<noteq> [sample_block] then 1 else 0),
        2 + word_of_nat (\<Sum>b\<leftarrow>due 1231804799 [sample_block]. length (snd b)), st')"
    and totals: "\<forall>a. a \<noteq> coinbase_h \<longrightarrow>
      total_in (sql_acct (conn st')) a = total_in (sql_acct (conn st)) a + spent [coinbase_tx] ?chain a \<and>
      total_out (sql_acct (conn st')) a = total_out (sql_acct (conn st)) a + received ?chain a"
    using chain_booked [OF chain.chain_tables_axioms new sample_wf small valid2 known, of "\<lambda>bits. 1"]
    by (elim exE conjE) (rule that)
  have "(\<Sum>b\<leftarrow>[sample_block]. length (snd b)) = 2"
    by (simp add: sample_block_def)
  then have "block_loop sql level_store (\<lambda>bits. 1) 1231804799 ([] @ concat (map ser_block [sample_block]))
      (word_of_nat (length ([] :: bytes))) 1 2 st = Some (False, 261, 2, 4, st')"
    using run unfolding due append_Nil len by simp
  then show ?thesis
    using st(1) spec [OF totals, of "replicate 20 7"] spec [OF totals, of "replicate 20 3"] sums
    by (auto simp flip: replicate_20_coinbase)
qed



text \<open>
  C35. A call with nothing left to read still moves the checkpoint: when the files are used up, the block
  number that is written back is one smaller than the one that was read, the position is reset, and
  everything else stays. Every further call lowers the number of the last block by one.
\<close>

theorem unzip_end_checkpoint:
  assumes "files (path ''H:/para/1.unzip_0.txt'') = Some c0" "read_checkpoint c0 = Some (218, p, b, t, cnt)"
    and "files (path ''H:/para/1.unzip_1.txt'') = Some c1" "read_stop c1 = Some (y, m, d)"
  shows "\<exists>st' c. unzipBlocks my ld difficulty tz disk st files =
      Some (st', files(path ''H:/para/1.unzip_0.txt'' \<mapsto> c)) \<and>
    read_checkpoint c = Some (218, 0, b - 1, t, cnt)"
proof (intro exI conjI)
  show "unzipBlocks my ld difficulty tz disk st files = Some (update_entity_mysql my (st\<lparr>entitycnt := cnt\<rparr>),
      files(path ''H:/para/1.unzip_0.txt'' \<mapsto> write_checkpoint 218 0 (b + 1) (t + 1) cnt))"
    using assms by (simp add: unzipBlocks_def Let_def entitycnt_update sint_small)
  show "read_checkpoint (write_checkpoint 218 0 (b + 1) (t + 1) cnt) = Some (218, 0, b - 1, t, cnt)"
    using checkpoint_read_back [of 218 0 "b + 1" "t + 1" cnt] by simp
qed

theorem unzip_end_checkpoint_witness:
  "\<exists>st' c. unzipBlocks sql level_store (\<lambda>bits. 1) 0 (\<lambda>name. None) empty_state sample_files =
      Some (st', sample_files(path ''H:/para/1.unzip_0.txt'' \<mapsto> c)) \<and>
    read_checkpoint c = Some (218, 0, 299999, 8, 7)"
  using unzip_end_checkpoint [of sample_files, OF sample_files_read, of sql level_store "\<lambda>bits. 1" 0 "\<lambda>name. None" empty_state]
  by simp

end
