(* ===== verification/Statistical.thy ===== *)
theory Statistical
  imports Time_Range Sql_Model
begin

text \<open>
  \<open>Statistical.h\<close>: the report of one month. The queries are built as the code builds them, literal by
  literal; MySQL is the parameter \<open>my\<close>, the text of the current time the parameter \<open>now\<close>, and \<open>can\<close> tells which
  files can be opened for appending. The text files are the map \<open>files\<close>, as text streams see them. What is
  written to the console is left out, and so are the parts of the function that are commented out.
  \<open>None\<close> is undefined behaviour: \<open>strcpy\<close> from a null pointer or beyond the buffer of 500 characters.
\<close>

section \<open>The parameters\<close>

text \<open>
  \<open>istream::getline\<close> with a buffer of \<open>n\<close> characters, on the rest of a good stream or on a stream that has
  failed (\<open>None\<close>). A line that does not fit and the end of the file leave the stream failed.
\<close>

definition getline :: "nat \<Rightarrow> string option \<Rightarrow> string \<times> string option" where
  "getline n stream =
    (case stream of
       None \<Rightarrow> ([], None)
     | Some s \<Rightarrow>
         let line = takeWhile (\<lambda>c. c \<noteq> CHR 0x0A) s
         in if n \<le> length line then (take (n - 1) line, None)
            else (line, if length line < length s then Some (drop (length line + 1) s) else None))"

definition read_range :: "files \<Rightarrow> string \<times> string \<times> string" where
  "read_range files =
    (let (timerange, timefile) = getline 8 (files (path ''H:/para/5.statistic.txt''));
         (before, timefile) = getline 20 timefile;
         (after, timefile) = getline 20 timefile
     in (timerange, before, after))"


section \<open>The output stream\<close>

record 'db report =
  rp_conn :: 'db
  rp_stream :: "string option"
  rp_good :: bool
  rp_files :: files

definition rp_open :: "(string \<Rightarrow> bool) \<Rightarrow> string \<Rightarrow> 'db report \<Rightarrow> 'db report" where
  "rp_open can name r =
    (if rp_stream r = None \<and> can name
     then r\<lparr>rp_stream := Some name, rp_good := True,
       rp_files := (rp_files r)(name \<mapsto> (case rp_files r name of None \<Rightarrow> [] | Some s \<Rightarrow> s))\<rparr>
     else r\<lparr>rp_good := False\<rparr>)"

definition rp_put :: "string \<Rightarrow> 'db report \<Rightarrow> 'db report" where
  "rp_put s r =
    (case rp_stream r of
       None \<Rightarrow> r
     | Some name \<Rightarrow>
         if rp_good r then r\<lparr>rp_files := (rp_files r)(name \<mapsto> the (rp_files r name) @ s)\<rparr> else r)"

definition rp_close :: "'db report \<Rightarrow> 'db report" where
  "rp_close r = r\<lparr>rp_stream := None, rp_good := rp_good r \<and> rp_stream r \<noteq> None\<rparr>"


section \<open>Queries\<close>

definition tab :: string where
  "tab = [CHR 0x09]"

definition emit :: "'db mysql \<Rightarrow> string \<Rightarrow> 'db report \<Rightarrow> 'db report option" where
  "emit my query r =
    (let r' = r\<lparr>rp_conn := my_exec my query (rp_conn r)\<rparr>
     in case my_rows my query (rp_conn r) of
          [] \<Rightarrow> Some r'
        | row # _ \<Rightarrow> do {
            cell \<leftarrow> at row 0;
            content \<leftarrow> cell;
            let result_s = map (\<lambda>b. char_of (unat b)) (takeWhile (\<lambda>b. b \<noteq> 0) content);
            if length result_s < 500 then Some (rp_put tab (rp_put result_s r')) else None
          })"

fun emit_all :: "'db mysql \<Rightarrow> string list \<Rightarrow> 'db report \<Rightarrow> 'db report option" where
  "emit_all my [] r = Some r"
| "emit_all my (query # queries) r = Option.bind (emit my query r) (emit_all my queries)"

definition emit_row :: "'db mysql \<Rightarrow> string list \<Rightarrow> 'db report \<Rightarrow> 'db report option" where
  "emit_row my queries r = map_option (rp_put newline) (emit_all my queries r)"

text \<open>The pieces the texts of the queries are made of.\<close>

definition count_from :: "string \<Rightarrow> string" where
  "count_from rest = ''SELECT count('' @ ''*) FROM '' @ rest"

definition timestamp :: "string \<Rightarrow> string" where
  "timestamp s = ''unix_timestamp('' @ quoted s @ '')''"

definition four :: "string \<Rightarrow> string \<Rightarrow> string list" where
  "four column table = map (\<lambda>f. ''SELECT '' @ f @ ''('' @ column @ '') FROM test1.'' @ table) [''avg'', ''stddev_pop'', ''max'', ''min'']"

definition lifetime :: string where
  "lifetime = ''(unix_timestamp(lasttm) - unix_timestamp(firsttm))/86400''"

definition ranges :: "string \<Rightarrow> string \<Rightarrow> string list \<Rightarrow> string list" where
  "ranges column factor bounds =
     map2 (\<lambda>lo hi. column @ ''>='' @ lo @ factor @ '' AND '' @ column @ ''<'' @ hi @ factor @ '';'') (butlast bounds) (tl bounds) @
     [column @ ''>='' @ last bounds @ factor @ '';'']"


section \<open>The tables of queries\<close>

definition address :: "string \<Rightarrow> string \<Rightarrow> string list" where
  "address before after =
     [count_from ''test1.addressinfo;'',
      count_from ''test1.addressinfo WHERE unix_timestamp(lasttm) < '' @ timestamp before @ '';'',
      count_from ''test1.addressinfo WHERE unix_timestamp(lasttm) > '' @ timestamp after @ '';''] @
     four ''outval'' ''addressinfo;'' @ four ''inval'' ''addressinfo;'' @ four ''bal'' ''addressinfo;'' @
     four ''maxbal'' ''addressinfo;'' @ four lifetime ''addressinfo;'' @ four ''incnt + outcnt'' ''addressinfo;'' @
     [''SELECT IFNULL(sum(bal),0) FROM test1.addressinfo WHERE unix_timestamp(lasttm) < '' @ timestamp before @ '';'']"

definition new_add :: "string list" where
  "new_add = [count_from ''test1.addressinfo ''] @
     four ''outval'' ''addressinfo '' @ four ''inval'' ''addressinfo '' @ four ''bal'' ''addressinfo '' @
     four ''maxbal'' ''addressinfo '' @ four ''incnt + outcnt'' ''addressinfo ''"

definition new_add_time :: "string \<Rightarrow> string" where
  "new_add_time after = ''WHERE unix_timestamp(firsttm) > '' @ timestamp after @ '';''"

definition unstop_add :: "string list" where
  "unstop_add = [count_from ''test1.addressinfo ''] @
     four ''outval'' ''addressinfo '' @ four ''inval'' ''addressinfo '' @ four ''bal'' ''addressinfo '' @
     four ''maxbal'' ''addressinfo '' @ four lifetime ''addressinfo '' @ four ''incnt + outcnt'' ''addressinfo ''"

definition unstop_add_time :: "string \<Rightarrow> string" where
  "unstop_add_time before = ''WHERE unix_timestamp(lasttm) > '' @ timestamp before @ '';''"

definition entity :: "string \<Rightarrow> string \<Rightarrow> string list" where
  "entity before after =
     [count_from ''test1.entityinfo;'',
      count_from ''test1.entityinfo WHERE unix_timestamp(lasttm) < '' @ timestamp before @ '';'',
      count_from ''test1.entityinfo WHERE unix_timestamp(lasttm) > '' @ timestamp after @ '';''] @
     four ''addcnt'' ''entityinfo;'' @ four ''outval'' ''entityinfo;'' @ four ''inval'' ''entityinfo;'' @
     four ''bal'' ''entityinfo;'' @ four ''maxbal'' ''entityinfo;'' @
     four ''(unix_timestamp(lasttm)-unix_timestamp(firsttm))/86400'' ''entityinfo;'' @ four ''incnt + outcnt'' ''entityinfo;''"

definition new_entity :: "string list" where
  "new_entity = [count_from ''test1.entityinfo ''] @
     four ''addcnt'' ''entityinfo '' @ four ''outval'' ''entityinfo '' @ four ''inval'' ''entityinfo '' @
     four ''bal'' ''entityinfo '' @ four ''maxbal'' ''entityinfo '' @ four ''incnt + outcnt'' ''entityinfo ''"

definition new_entity_time :: "string \<Rightarrow> string" where
  "new_entity_time after = ''WHERE unix_timestamp(firsttm) > '' @ timestamp after @ '';''"

definition unstop_entity :: "string list" where
  "unstop_entity = [count_from ''test1.entityinfo ''] @
     four ''addcnt'' ''entityinfo '' @ four ''outval'' ''entityinfo '' @ four ''inval'' ''entityinfo '' @
     four ''bal'' ''entityinfo '' @ four ''maxbal'' ''entityinfo '' @ four lifetime ''entityinfo '' @
     four ''incnt + outcnt'' ''entityinfo ''"

definition unstop_entity_time :: "string \<Rightarrow> string" where
  "unstop_entity_time before = ''WHERE unix_timestamp(lasttm) > '' @ timestamp before @ '';''"

definition transaction :: "string list" where
  "transaction = [count_from ''test1.txinfo;'', count_from ''test1.txinfo ''] @
     four ''outvalue'' ''txinfo '' @ four ''txsize'' ''txinfo '' @ four ''txfee'' ''txinfo '' @
     four ''incnt'' ''txinfo '' @ four ''outcnt'' ''txinfo ''"

definition transaction_time :: "string \<Rightarrow> string" where
  "transaction_time after = ''WHERE unix_timestamp(txtime) > '' @ timestamp after @ '';''"

definition block :: "string list" where
  "block = [count_from ''test1.blkinfo;'', count_from ''test1.blkinfo ''] @
     four ''txcnt'' ''blkinfo '' @ four ''diff'' ''blkinfo '' @ four ''blksize'' ''blkinfo '' @ four ''reward'' ''blkinfo ''"

definition block_time :: "string \<Rightarrow> string" where
  "block_time after = ''WHERE unix_timestamp(blktime) > '' @ timestamp after @ '';''"

text \<open>The distributions; \<open>BTC\<close> is the factor that turns bitcoins into the unit of the tables.\<close>

definition BTC :: string where
  "BTC = ''*100000000''"

definition addcnt_bounds :: "string list" where
  "addcnt_bounds = [
    ''1'', ''2'', ''3'', ''4'', ''5'', ''6'', ''7'', ''8'', ''9'', ''10'', ''20'', ''30'', ''40'', ''50'', ''60'',
    ''70'', ''80'', ''90'', ''100'', ''200'', ''300'', ''400'', ''500'', ''1000'', ''2000'', ''3000'', ''4000'',
    ''5000'', ''10000'', ''50000'', ''100000'']"

definition outval_bounds :: "string list" where
  "outval_bounds = [
    ''0'', ''1'', ''2'', ''3'', ''4'', ''5'', ''6'', ''7'', ''8'', ''9'', ''10'', ''20'', ''30'', ''40'', ''50'',
    ''60'', ''70'', ''80'', ''90'', ''100'', ''1000'', ''2000'', ''3000'', ''4000'', ''5000'', ''6000'', ''7000'',
    ''8000'', ''9000'', ''10000'', ''20000'', ''30000'', ''40000'', ''50000'', ''60000'', ''70000'', ''80000'',
    ''90000'', ''100000'', ''200000'', ''300000'', ''400000'', ''500000'', ''600000'', ''700000'', ''800000'',
    ''900000'', ''1000000'']"

definition bal_bounds :: "string list" where
  "bal_bounds = [
    ''0'', ''0.01'', ''0.1'', ''0.2'', ''0.3'', ''0.4'', ''0.5'', ''0.6'', ''0.7'', ''0.8'', ''0.9'', ''1'', ''2'',
    ''3'', ''4'', ''5'', ''6'', ''7'', ''8'', ''9'', ''10'', ''20'', ''30'', ''40'', ''50'', ''60'', ''70'', ''80'',
    ''90'', ''100'', ''1000'', ''2000'', ''3000'', ''4000'', ''5000'', ''6000'', ''7000'', ''8000'', ''9000'',
    ''10000'', ''20000'', ''30000'', ''40000'', ''50000'', ''60000'', ''70000'', ''80000'', ''90000'', ''100000'',
    ''200000'', ''300000'', ''400000'', ''500000'', ''600000'', ''700000'', ''800000'', ''900000'', ''1000000'']"

definition txcnt_bounds :: "string list" where
  "txcnt_bounds = [
    ''1'', ''2'', ''3'', ''4'', ''5'', ''6'', ''7'', ''8'', ''9'', ''10'', ''100'', ''200'', ''300'', ''400'',
    ''500'', ''600'', ''700'', ''800'', ''900'', ''1000'', ''5000'', ''10000'', ''50000'', ''100000'', ''500000'']"

definition NumOfAddOfEntity :: "string list" where
  "NumOfAddOfEntity = map (\<lambda>r. count_from (''entityinfo WHERE '' @ r)) (ranges ''addcnt'' [] addcnt_bounds)"

definition OutvalOfAdd :: "string list" where
  "OutvalOfAdd = map (\<lambda>r. count_from (''addressinfo WHERE '' @ r)) (ranges ''outval'' BTC outval_bounds)"

definition OutvalOfEntity :: "string list" where
  "OutvalOfEntity = map (\<lambda>r. count_from (''entityinfo WHERE '' @ r)) (ranges ''outval'' BTC outval_bounds)"

definition BalOfAdd :: "string list" where
  "BalOfAdd = map (\<lambda>r. count_from (''addressinfo WHERE '' @ r)) (ranges ''bal'' BTC bal_bounds)"

definition BalOfEntity :: "string list" where
  "BalOfEntity = map (\<lambda>r. count_from (''entityinfo WHERE '' @ r)) (ranges ''bal'' BTC bal_bounds)"

definition MaxbalOfAdd :: "string list" where
  "MaxbalOfAdd = map (\<lambda>r. count_from (''addressinfo WHERE '' @ r)) (ranges ''maxbal'' BTC bal_bounds)"

definition MaxbalOfEntity :: "string list" where
  "MaxbalOfEntity = map (\<lambda>r. count_from (''entityinfo WHERE '' @ r)) (ranges ''maxbal'' BTC bal_bounds)"

definition TxcntOfAdd :: "string list" where
  "TxcntOfAdd = map (\<lambda>r. count_from (''addressinfo WHERE '' @ r)) (ranges ''(incnt+outcnt)'' [] txcnt_bounds)"

definition TxcntOfEntity :: "string list" where
  "TxcntOfEntity = map (\<lambda>r. count_from (''entityinfo WHERE '' @ r)) (ranges ''(incnt+outcnt)'' [] txcnt_bounds)"

definition OutvalOfTx :: "string \<Rightarrow> string list" where
  "OutvalOfTx after =
     map (\<lambda>r. count_from (''txinfo WHERE unix_timestamp(txtime) > '' @ timestamp after @ '' AND '' @ r))
       (ranges ''outvalue'' BTC outval_bounds)"

definition TxfeeOfTX :: "string list" where
  "TxfeeOfTX = map (\<lambda>r. count_from (''txinfo WHERE '' @ r)) (ranges ''maxbal'' BTC bal_bounds)"

definition tx_amount :: "string list" where
  "tx_amount = map (\<lambda>r. ''AND '' @ r)
     (ranges ''outvalue'' BTC [
        ''0'', ''10'', ''20'', ''30'', ''40'', ''50'', ''60'', ''70'', ''80'', ''90'', ''100'', ''120'', ''140'',
        ''160'', ''180'', ''200'', ''220'', ''240'', ''260'', ''280'', ''300'', ''320''] @
      butlast (ranges ''outvalue'' BTC [
        ''320'', ''340'', ''360'', ''380'', ''400'']) @
      ranges ''outvalue'' BTC [
        ''420'', ''440'', ''460'', ''480'', ''500'', ''520'', ''540'', ''560'', ''580'', ''600''])"

definition txsize_bounds :: "string list" where
  "txsize_bounds = [
    ''0'', ''128'', ''256'', ''384'', ''512'', ''640'', ''768'', ''896'', ''1024'', ''1152'', ''1280'', ''1408'',
    ''1536'', ''1664'', ''1792'', ''1920'', ''2048'', ''2176'', ''2304'', ''2432'', ''2560'', ''2688'', ''2816'',
    ''2944'', ''3072'', ''3200'', ''3328'', ''3456'', ''3584'', ''3712'', ''3840'', ''3968'', ''4096'']"

definition tx_size :: "string list" where
  "tx_size = map (\<lambda>r. ''AND '' @ r) (ranges ''txsize'' [] txsize_bounds)"

definition tx_time :: "string \<Rightarrow> string \<Rightarrow> string" where
  "tx_time before after = count_from (''test1.txinfo WHERE unix_timestamp(txtime) >= '' @ timestamp after @
     '' AND unix_timestamp(txtime) < '' @ timestamp before @ '' '')"


section \<open>The report\<close>

definition gbk :: "nat list \<Rightarrow> string" where
  "gbk bs = map char_of bs"

definition waves :: string where
  "waves = ''~~~~~~~~~~~~~~~~~~'' @ newline"

definition heading :: "string \<Rightarrow> string" where
  "heading s = waves @ s @ newline @ waves"

definition subheading :: "string \<Rightarrow> string" where
  "subheading s = ''~~~~~~~~'' @ newline @ s @ newline"

definition report_section :: "'db mysql \<Rightarrow> string \<Rightarrow> string list \<Rightarrow> 'db report \<Rightarrow> 'db report option" where
  "report_section my title queries r = emit_row my queries (rp_put title r)"

text \<open>The rows of \<open>tx_amount\<close> and \<open>tx_size\<close>: \<open>n\<close> times the same row.\<close>

primrec repeat_row :: "'db mysql \<Rightarrow> nat \<Rightarrow> string list \<Rightarrow> 'db report \<Rightarrow> 'db report option" where
  "repeat_row my 0 queries r = Some r"
| "repeat_row my (Suc n) queries r = Option.bind (emit_row my queries r) (repeat_row my n queries)"

definition stat_address :: "'db mysql \<Rightarrow> string \<Rightarrow> string \<Rightarrow> 'db report \<Rightarrow> 'db report option" where
  "stat_address my before after = report_section my (heading ''1. address'')
     (address before after)"

definition stat_new_add :: "'db mysql \<Rightarrow> string \<Rightarrow> 'db report \<Rightarrow> 'db report option" where
  "stat_new_add my after = report_section my (heading ''2. new address'')
     (map (\<lambda>q. q @ new_add_time after) new_add)"

definition stat_unstop_add :: "'db mysql \<Rightarrow> string \<Rightarrow> 'db report \<Rightarrow> 'db report option" where
  "stat_unstop_add my before = report_section my (heading ''3. no stop address'')
     (map (\<lambda>q. q @ unstop_add_time before) unstop_add)"

definition stat_entity :: "'db mysql \<Rightarrow> string \<Rightarrow> string \<Rightarrow> 'db report \<Rightarrow> 'db report option" where
  "stat_entity my before after = report_section my (heading ''4. entity'')
     (entity before after)"

definition stat_new_entity :: "'db mysql \<Rightarrow> string \<Rightarrow> 'db report \<Rightarrow> 'db report option" where
  "stat_new_entity my after = report_section my (heading ''5. new entity'')
     (map (\<lambda>q. q @ new_entity_time after) new_entity)"

definition stat_unstop_entity :: "'db mysql \<Rightarrow> string \<Rightarrow> 'db report \<Rightarrow> 'db report option" where
  "stat_unstop_entity my before = report_section my (heading ''6. no stop entity'')
     (map (\<lambda>q. q @ unstop_entity_time before) unstop_entity)"

definition stat_transaction :: "'db mysql \<Rightarrow> string \<Rightarrow> 'db report \<Rightarrow> 'db report option" where
  "stat_transaction my after = report_section my (heading ''7. transaction'')
     (hd transaction # map (\<lambda>q. q @ transaction_time after) (tl transaction))"

definition stat_block :: "'db mysql \<Rightarrow> string \<Rightarrow> 'db report \<Rightarrow> 'db report option" where
  "stat_block my after = report_section my (heading ''8. block'')
     (hd block # map (\<lambda>q. q @ block_time after) (tl block))"

definition stat_NumOfAddOfEntity :: "'db mysql \<Rightarrow> 'db report \<Rightarrow> 'db report option" where
  "stat_NumOfAddOfEntity my = report_section my (heading ''9. other'' @ subheading (''9.2 entity'' @ gbk [0xb5, 0xd8, 0xd6, 0xb7, 0xca, 0xfd, 0xc1, 0xbf, 0xb5, 0xc4, 0xb7, 0xd6, 0xb2, 0xbc]))
     NumOfAddOfEntity"

definition stat_OutvalOfAdd :: "'db mysql \<Rightarrow> 'db report \<Rightarrow> 'db report option" where
  "stat_OutvalOfAdd my = report_section my (subheading (''9.3 address'' @ gbk [0xca, 0xd5, 0xc8, 0xeb, 0xb7, 0xd6, 0xb2, 0xbc]))
     OutvalOfAdd"

definition stat_OutvalOfEntity :: "'db mysql \<Rightarrow> 'db report \<Rightarrow> 'db report option" where
  "stat_OutvalOfEntity my = report_section my (subheading (''9.4 entity'' @ gbk [0xca, 0xd5, 0xc8, 0xeb, 0xb7, 0xd6, 0xb2, 0xbc]))
     OutvalOfEntity"

definition stat_BalOfAdd :: "'db mysql \<Rightarrow> 'db report \<Rightarrow> 'db report option" where
  "stat_BalOfAdd my = report_section my (subheading (''9.5 address'' @ gbk [0xb5, 0xb1, 0xc7, 0xb0, 0xd3, 0xe0, 0xb6, 0xee, 0xb7, 0xd6, 0xb2, 0xbc]))
     BalOfAdd"

definition stat_BalOfEntity :: "'db mysql \<Rightarrow> 'db report \<Rightarrow> 'db report option" where
  "stat_BalOfEntity my = report_section my (subheading (''9.6 entity'' @ gbk [0xb5, 0xb1, 0xc7, 0xb0, 0xd3, 0xe0, 0xb6, 0xee, 0xb7, 0xd6, 0xb2, 0xbc]))
     BalOfEntity"

definition stat_MaxbalOfAdd :: "'db mysql \<Rightarrow> 'db report \<Rightarrow> 'db report option" where
  "stat_MaxbalOfAdd my = report_section my (subheading (''9.7 address'' @ gbk [0xc0, 0xfa, 0xca, 0xb7, 0xd7, 0xee, 0xb4, 0xf3, 0xd3, 0xe0, 0xb6, 0xee, 0xb7, 0xd6, 0xb2, 0xbc]))
     MaxbalOfAdd"

definition stat_MaxbalOfEntity :: "'db mysql \<Rightarrow> 'db report \<Rightarrow> 'db report option" where
  "stat_MaxbalOfEntity my = report_section my (subheading (''9.8 entity'' @ gbk [0xc0, 0xfa, 0xca, 0xb7, 0xd7, 0xee, 0xb4, 0xf3, 0xd3, 0xe0, 0xb6, 0xee, 0xb7, 0xd6, 0xb2, 0xbc]))
     MaxbalOfEntity"

definition stat_TxcntOfAdd :: "'db mysql \<Rightarrow> 'db report \<Rightarrow> 'db report option" where
  "stat_TxcntOfAdd my = report_section my (subheading (''9.9 address'' @ gbk [0xb2, 0xce, 0xd3, 0xeb, 0xbd, 0xbb, 0xd2, 0xd7, 0xca, 0xfd]))
     TxcntOfAdd"

definition stat_TxcntOfEntity :: "'db mysql \<Rightarrow> 'db report \<Rightarrow> 'db report option" where
  "stat_TxcntOfEntity my = report_section my (subheading (''9.10 entity'' @ gbk [0xb2, 0xce, 0xd3, 0xeb, 0xbd, 0xbb, 0xd2, 0xd7, 0xca, 0xfd]))
     TxcntOfEntity"

definition stat_OutvalOfTx :: "'db mysql \<Rightarrow> string \<Rightarrow> 'db report \<Rightarrow> 'db report option" where
  "stat_OutvalOfTx my after = report_section my (subheading (gbk [0xbd, 0xbb, 0xd2, 0xd7, 0xbd, 0xf0, 0xb6, 0xee, 0xb7, 0xd6, 0xb2, 0xbc]))
     (OutvalOfTx after)"

definition stat_TxfeeOfTX :: "'db mysql \<Rightarrow> 'db report \<Rightarrow> 'db report option" where
  "stat_TxfeeOfTX my = report_section my (subheading (''9.7 address'' @ gbk [0xc0, 0xfa, 0xca, 0xb7, 0xd7, 0xee, 0xb4, 0xf3, 0xd3, 0xe0, 0xb6, 0xee, 0xb7, 0xd6, 0xb2, 0xbc]))
     MaxbalOfAdd"

definition stat_tx_amount :: "'db mysql \<Rightarrow> (string \<Rightarrow> bool) \<Rightarrow> string \<Rightarrow> string \<Rightarrow> 'db report \<Rightarrow> 'db report option" where
  "stat_tx_amount my can before after r = map_option rp_close
     (repeat_row my 71 (map (\<lambda>q. tx_time before after @ q) (drop 22 tx_amount))
       (rp_open can (path ''I:/Statistic2/tx-amount-2.txt'') r))"

definition stat_tx_size :: "'db mysql \<Rightarrow> (string \<Rightarrow> bool) \<Rightarrow> string \<Rightarrow> string \<Rightarrow> 'db report \<Rightarrow> 'db report option" where
  "stat_tx_size my can before after r = map_option rp_close
     (repeat_row my 71 (map (\<lambda>q. tx_time before after @ q) tx_size)
       (rp_open can (path ''I:/Statistic2/tx-size-2.txt'') r))"

definition statistical ::
  "'db mysql \<Rightarrow> (string \<Rightarrow> bool) \<Rightarrow> string \<Rightarrow> 'db \<Rightarrow> files \<Rightarrow> ('db \<times> files) option" where
  "statistical my can now database files = do {
     let (timerange, before, after) = read_range files;
     let r = rp_open can (path ''G:/Statistic/'' @ timerange @ ''.txt'')
       \<lparr>rp_conn = database, rp_stream = None, rp_good = True, rp_files = files\<rparr>;
     let r = rp_put (''-------------'' @ now @ ''-------------'' @ newline) r;
     let r = rp_put (''***'' @ gbk [0xcd, 0xb3, 0xbc, 0xc6, 0xca, 0xb1, 0xbc, 0xe4, 0xb6, 0xce, 0xa3, 0xba] @ timerange @ ''***'' @ newline) r;
     r \<leftarrow> stat_address my before after r;
     r \<leftarrow> stat_new_add my after r;
     r \<leftarrow> stat_unstop_add my before r;
     r \<leftarrow> stat_entity my before after r;
     r \<leftarrow> stat_new_entity my after r;
     r \<leftarrow> stat_unstop_entity my before r;
     r \<leftarrow> stat_transaction my after r;
     r \<leftarrow> stat_block my after r;
     r \<leftarrow> stat_NumOfAddOfEntity my r;
     r \<leftarrow> stat_OutvalOfAdd my r;
     r \<leftarrow> stat_OutvalOfEntity my r;
     r \<leftarrow> stat_BalOfAdd my r;
     r \<leftarrow> stat_BalOfEntity my r;
     r \<leftarrow> stat_MaxbalOfAdd my r;
     r \<leftarrow> stat_MaxbalOfEntity my r;
     r \<leftarrow> stat_TxcntOfAdd my r;
     r \<leftarrow> stat_TxcntOfEntity my r;
     r \<leftarrow> stat_OutvalOfTx my after r;
     r \<leftarrow> stat_TxfeeOfTX my r;
     r \<leftarrow> stat_tx_amount my can before after r;
     r \<leftarrow> stat_tx_size my can before after r;
     Some (rp_conn r, rp_files r)
   }"


section \<open>What a condition selects\<close>

text \<open>
  The conditions on one column, taken apart as the server does. A bound is a number with up to two
  decimals and an optional factor; it is read in hundredths.
\<close>

definition fraction :: "string \<Rightarrow> (nat \<times> string) option" where
  "fraction s =
    (case strip ''.'' s of
       None \<Rightarrow> Some (0, s)
     | Some t \<Rightarrow> do {
         (k, u) \<leftarrow> scan_digits t;
         if length t = length u + 1 then Some (10 * k, u) else if length t = length u + 2 then Some (k, u) else None
       })"

definition multiplier :: "string \<Rightarrow> (nat \<times> string) option" where
  "multiplier s = (case strip ''*'' s of None \<Rightarrow> Some (1, s) | Some t \<Rightarrow> scan_digits t)"

definition amount :: "string \<Rightarrow> (int \<times> string) option" where
  "amount s = do {
     (n, s) \<leftarrow> scan_digits s;
     (f, s) \<leftarrow> fraction s;
     (m, s) \<leftarrow> multiplier s;
     Some (int ((100 * n + f) * m), s)
   }"

definition condition :: "string \<Rightarrow> string \<Rightarrow> (int \<times> int option) option" where
  "condition column text = do {
     s \<leftarrow> strip (column @ ''>='') text;
     (lo, s) \<leftarrow> amount s;
     case strip ('' AND '' @ column @ ''<'') s of
       None \<Rightarrow> if s = '';'' then Some (lo, None) else None
     | Some s \<Rightarrow> do { (hi, s) \<leftarrow> amount s; if s = '';'' then Some (lo, Some hi) else None }
   }"

definition selects :: "string \<Rightarrow> string \<Rightarrow> string \<Rightarrow> int \<Rightarrow> bool" where
  "selects prefix column query v =
    (case Option.bind (strip prefix query) (condition column) of
       None \<Rightarrow> False
     | Some (lo, hi) \<Rightarrow> lo \<le> 100 * v \<and> (case hi of None \<Rightarrow> True | Some h \<Rightarrow> 100 * v < h))"

text \<open>The texts of the bounds and their values.\<close>

definition reads_bounds :: "string \<Rightarrow> string list \<Rightarrow> int list \<Rightarrow> bool" where
  "reads_bounds factor bounds ns \<longleftrightarrow> bounds \<noteq> [] \<and> sorted_wrt (<) ns \<and>
     list_all2 (\<lambda>b n. \<forall>c r. c \<in> {CHR '' '', CHR '';''} \<longrightarrow> amount (b @ factor @ c # r) = Some (n, c # r)) bounds ns"

lemma length_ranges: "bounds \<noteq> [] \<Longrightarrow> length (ranges column factor bounds) = length bounds"
  by (simp add: ranges_def)

lemma condition_ranges:
  assumes "reads_bounds factor bounds ns" "i < length bounds"
  shows "condition column (ranges column factor bounds ! i) =
    Some (ns ! i, if i + 1 < length bounds then Some (ns ! (i + 1)) else None)"
proof -
  have amt: "amount (bounds ! j @ factor @ c # r) = Some (ns ! j, c # r)" if "j < length bounds" "c = CHR '' '' \<or> c = CHR '';''" for j c r
    using assms(1) that by (auto simp: reads_bounds_def list_all2_conv_all_nth)
  show ?thesis
  proof (cases "i + 1 < length bounds")
    case True
    then have "ranges column factor bounds ! i = column @ ''>='' @ bounds ! i @ factor @ '' AND '' @ column @ ''<'' @
        bounds ! (i + 1) @ factor @ '';''"
      using less_diff_conv [THEN iffD2, OF True] by (simp add: ranges_def nth_append nth_butlast nth_tl)
    then show ?thesis
      using True amt [of i "CHR '' ''" "''AND '' @ column @ ''<'' @ bounds ! (i + 1) @ factor @ '';''"] amt [of "i + 1" "CHR '';''" "[]"]
        strip_append [of "column @ ''>=''"] strip_append [of "'' AND '' @ column @ ''<''"]
      by (simp add: condition_def)
  next
    case False
    then have i: "i = length bounds - 1" and ne: "bounds \<noteq> []"
      using assms(2) by auto
    then have "ranges column factor bounds ! i = column @ ''>='' @ bounds ! i @ factor @ '';''"
      by (simp add: ranges_def nth_append last_conv_nth)
    then show ?thesis
      using False amt [of i "CHR '';''" "[]"] assms(2) strip_append [of "column @ ''>=''"] by (simp add: condition_def)
  qed
qed

lemma bounds_partition:
  assumes "sorted_wrt (<) ns" "ns \<noteq> []" "hd ns \<le> (x :: int)"
  shows "\<exists>!i. i < length ns \<and> ns ! i \<le> x \<and> (i + 1 < length ns \<longrightarrow> x < ns ! (i + 1))"
proof -
  define S where "S = {i. i < length ns \<and> ns ! i \<le> x}"
  have fin: "finite S" and ne: "0 \<in> S"
    using assms(2,3) by (simp_all add: S_def hd_conv_nth)
  then have "Max S \<in> S"
    by (intro Max_in) auto
  then have m: "Max S < length ns" "ns ! Max S \<le> x"
    unfolding S_def by blast+
  have after: "x < ns ! (Max S + 1)" if "Max S + 1 < length ns"
  proof (rule ccontr)
    assume "\<not> x < ns ! (Max S + 1)"
    then have "Max S + 1 \<in> S"
      using that by (simp add: S_def)
    then show False
      using Max_ge [OF fin] by fastforce
  qed
  have less: "\<not> i < j" if "i + 1 < length ns \<longrightarrow> x < ns ! (i + 1)" "j < length ns" "ns ! j \<le> x" for i j
  proof
    assume ij: "i < j"
    then have "ns ! (i + 1) \<le> ns ! j"
      using that(2) assms(1) sorted_wrt_nth_less [of "(<)" ns "i + 1" j] by (cases "i + 1 = j") (auto intro: less_imp_le)
    then show False
      using that ij by auto
  qed
  show ?thesis
  proof (rule ex1I [of _ "Max S"])
    fix i
    assume i: "i < length ns \<and> ns ! i \<le> x \<and> (i + 1 < length ns \<longrightarrow> x < ns ! (i + 1))"
    then show "i = Max S"
      using less [of i "Max S"] less [of "Max S" i] m after by linarith
  qed (use m after in blast)
qed

lemma ranges_partition:
  assumes "reads_bounds factor bounds ns" "hd ns \<le> 100 * v"
  shows "\<exists>!i. i < length bounds \<and> selects prefix column (prefix @ ranges column factor bounds ! i) v"
proof -
  have len: "length ns = length bounds" "ns \<noteq> []" "sorted_wrt (<) ns"
    using assms(1) by (auto simp: reads_bounds_def list_all2_lengthD)
  have "selects prefix column (prefix @ ranges column factor bounds ! i) v \<longleftrightarrow>
      ns ! i \<le> 100 * v \<and> (i + 1 < length ns \<longrightarrow> 100 * v < ns ! (i + 1))" if "i < length bounds" for i
    using condition_ranges [OF assms(1) that] by (simp add: selects_def len(1))
  then show ?thesis
    using bounds_partition [OF len(3,2) assms(2)] by (simp add: len(1) conj_commute cong: conj_cong)
qed


lemma scan_digits_append:
  assumes "scan_digits s = Some (k, t)" "\<not> is_digit c"
  shows "scan_digits (s @ c # r) = Some (k, t @ c # r)"
proof (cases "dropWhile is_digit s")
  case Nil
  then have all: "\<forall>x \<in> set s. is_digit x"
    by (simp add: dropWhile_eq_Nil_conv)
  then show ?thesis
    using assms by (auto simp: takeWhile_eq_all_conv [THEN iffD2, OF all] scan_digits_def Let_def takeWhile_append2 dropWhile_append2 split: if_splits)
next
  case (Cons x t')
  then have "\<exists>y \<in> set s. \<not> is_digit y"
    by (metis dropWhile_eq_Nil_conv list.distinct(1))
  then show ?thesis
    using assms by (auto simp: scan_digits_def Let_def takeWhile_append1 dropWhile_append1 split: if_splits)
qed

lemma strip_one_append: "d \<noteq> c \<Longrightarrow> strip [d] (t @ c # r) = map_option (\<lambda>u. u @ c # r) (strip [d] t)"
  by (cases t) simp_all

lemma fraction_append:
  assumes ft: "fraction t = Some (f, u)" and c: "\<not> is_digit c" "CHR ''.'' \<noteq> c"
  shows "fraction (t @ c # r) = Some (f, u @ c # r)"
proof (cases "strip ''.'' t")
  case (Some x)
  then obtain k v where "scan_digits x = Some (k, v)"
    using ft by (auto simp: fraction_def bind_eq_Some_conv)
  then show ?thesis
    using ft Some by (auto simp: fraction_def scan_digits_append [OF _ c(1)] strip_one_append [OF c(2)] split: if_splits)
qed (use ft in \<open>auto simp: fraction_def strip_one_append [OF c(2)]\<close>)

text \<open>The value of a bound and the value of the factor are read independently.\<close>

definition hundredths :: "string \<Rightarrow> int option" where
  "hundredths b = do { (k, t) \<leftarrow> scan_digits b; (f, u) \<leftarrow> fraction t; if u = [] then Some (int (100 * k + f)) else None }"

definition factor_value :: "string \<Rightarrow> nat \<Rightarrow> bool" where
  "factor_value factor m \<longleftrightarrow>
     (\<forall>c r. c = CHR '' '' \<or> c = CHR '';'' \<longrightarrow> multiplier (factor @ c # r) = Some (m, c # r)) \<and>
     (factor = [] \<or> hd factor = CHR ''*'')"

lemma factor_values: "factor_value [] 1" "factor_value BTC 100000000"
  by (auto simp: factor_value_def multiplier_def BTC_def scan_digits_def undecimal_def is_digit_def digit_value_def)

lemma amount_append:
  assumes h: "hundredths b = Some n" and m: "factor_value factor m" and c: "c = CHR '' '' \<or> c = CHR '';''"
  shows "amount (b @ factor @ c # r) = Some (n * int m, c # r)"
proof -
  obtain k t f where b: "scan_digits b = Some (k, t)" "fraction t = Some (f, [])" "n = int (100 * k + f)"
    using h by (auto simp: hundredths_def bind_eq_Some_conv split: if_splits)
  obtain d r' where d1: "factor @ c # r = d # r'"
    by (cases factor) simp_all
  have "d = CHR ''*'' \<or> d = c"
    using m d1 unfolding factor_value_def by (cases factor) simp_all
  then have d: "\<not> is_digit d" "CHR ''.'' \<noteq> d"
    using c by (auto simp: is_digit_def)
  have "multiplier (d # r') = Some (m, c # r)"
    using m c unfolding factor_value_def d1 [symmetric] by blast
  then show ?thesis
    unfolding d1 using b scan_digits_append [OF b(1) d(1)] fraction_append [OF b(2) d]
    by (simp add: amount_def)
qed

fun ascending :: "int list \<Rightarrow> bool" where
  "ascending (x # y # zs) \<longleftrightarrow> x < y \<and> ascending (y # zs)"
| "ascending zs \<longleftrightarrow> True"

lemma ascending_sorted: "ascending xs \<Longrightarrow> sorted_wrt (<) xs"
  by (induction xs rule: ascending.induct) (auto simp: less_trans)

lemma reads_boundsI:
  assumes "bounds \<noteq> []" "ascending hs" "map hundredths bounds = map Some hs" "factor_value factor m" "0 < m"
  shows "reads_bounds factor bounds (map (\<lambda>h. h * int m) hs)"
proof -
  have len: "length bounds = length hs"
    using assms(3) map_eq_imp_length_eq by blast
  have "hundredths (bounds ! i) = Some (hs ! i)" if "i < length hs" for i
    using arg_cong [OF assms(3), of "\<lambda>l. l ! i"] that len by simp
  then have "amount (bounds ! i @ factor @ c # r) = Some (hs ! i * int m, c # r)"
    if "i < length hs" "c = CHR '' '' \<or> c = CHR '';''" for i c r
    using that by (intro amount_append [OF _ assms(4)]) simp_all
  moreover have "sorted_wrt (<) (map (\<lambda>h. h * int m) hs)"
    using ascending_sorted [OF assms(2)] assms(5) by (simp add: sorted_wrt_map)
  ultimately show ?thesis
    using assms(1) len by (auto simp: reads_bounds_def list_all2_conv_all_nth)
qed

lemma is_digit_eval:
  "is_digit (CHR ''0'')" "is_digit (CHR ''1'')" "is_digit (CHR ''2'')" "is_digit (CHR ''3'')" "is_digit (CHR ''4'')" "is_digit (CHR ''5'')" "is_digit (CHR ''6'')" "is_digit (CHR ''7'')" "is_digit (CHR ''8'')" "is_digit (CHR ''9'')"
  "\<not> is_digit (CHR ''.'')" "\<not> is_digit (CHR ''*'')"
  by (simp_all add: is_digit_def)

lemma digit_value_eval:
  "digit_value (CHR ''0'') = 0" "digit_value (CHR ''1'') = 1" "digit_value (CHR ''2'') = 2" "digit_value (CHR ''3'') = 3" "digit_value (CHR ''4'') = 4" "digit_value (CHR ''5'') = 5" "digit_value (CHR ''6'') = 6" "digit_value (CHR ''7'') = 7" "digit_value (CHR ''8'') = 8" "digit_value (CHR ''9'') = 9"
  by (simp_all add: digit_value_def)

lemmas bound_eval = hundredths_def fraction_def scan_digits_def undecimal_def is_digit_eval digit_value_eval

lemma addcnt_bounds_read: "reads_bounds [] addcnt_bounds (map (\<lambda>h. h * int 1)
    [100, 200, 300, 400, 500, 600, 700, 800, 900, 1000, 2000, 3000, 4000, 5000, 6000, 7000, 8000, 9000, 10000,
    20000, 30000, 40000, 50000, 100000, 200000, 300000, 400000, 500000, 1000000, 5000000, 10000000])"
  by (rule reads_boundsI [OF _ _ _ factor_values(1)]) (simp_all add: addcnt_bounds_def bound_eval)

lemma outval_bounds_read: "reads_bounds BTC outval_bounds (map (\<lambda>h. h * int 100000000)
    [0, 100, 200, 300, 400, 500, 600, 700, 800, 900, 1000, 2000, 3000, 4000, 5000, 6000, 7000, 8000, 9000, 10000,
    100000, 200000, 300000, 400000, 500000, 600000, 700000, 800000, 900000, 1000000, 2000000, 3000000, 4000000,
    5000000, 6000000, 7000000, 8000000, 9000000, 10000000, 20000000, 30000000, 40000000, 50000000, 60000000,
    70000000, 80000000, 90000000, 100000000])"
  by (rule reads_boundsI [OF _ _ _ factor_values(2)]) (simp_all add: outval_bounds_def bound_eval)

lemma bal_bounds_read: "reads_bounds BTC bal_bounds (map (\<lambda>h. h * int 100000000)
    [0, 1, 10, 20, 30, 40, 50, 60, 70, 80, 90, 100, 200, 300, 400, 500, 600, 700, 800, 900, 1000, 2000, 3000, 4000,
    5000, 6000, 7000, 8000, 9000, 10000, 100000, 200000, 300000, 400000, 500000, 600000, 700000, 800000, 900000,
    1000000, 2000000, 3000000, 4000000, 5000000, 6000000, 7000000, 8000000, 9000000, 10000000, 20000000, 30000000,
    40000000, 50000000, 60000000, 70000000, 80000000, 90000000, 100000000])"
  by (rule reads_boundsI [OF _ _ _ factor_values(2)]) (simp_all add: bal_bounds_def bound_eval)

lemma txcnt_bounds_read: "reads_bounds [] txcnt_bounds (map (\<lambda>h. h * int 1)
    [100, 200, 300, 400, 500, 600, 700, 800, 900, 1000, 10000, 20000, 30000, 40000, 50000, 60000, 70000, 80000,
    90000, 100000, 500000, 1000000, 5000000, 10000000, 50000000])"
  by (rule reads_boundsI [OF _ _ _ factor_values(1)]) (simp_all add: txcnt_bounds_def bound_eval)

lemma txsize_bounds_read: "reads_bounds [] txsize_bounds (map (\<lambda>h. h * int 1)
    [0, 12800, 25600, 38400, 51200, 64000, 76800, 89600, 102400, 115200, 128000, 140800, 153600, 166400, 179200,
    192000, 204800, 217600, 230400, 243200, 256000, 268800, 281600, 294400, 307200, 320000, 332800, 345600, 358400,
    371200, 384000, 396800, 409600])"
  by (rule reads_boundsI [OF _ _ _ factor_values(1)]) (simp_all add: txsize_bounds_def bound_eval)

lemma distribution:
  assumes "reads_bounds factor bounds ns" "hd ns \<le> 100 * v"
  shows "\<exists>!i. i < length bounds \<and>
    selects (count_from t) column (map (\<lambda>r. count_from (t @ r)) (ranges column factor bounds) ! i) v"
proof -
  have ne: "bounds \<noteq> []"
    using assms(1) by (simp add: reads_bounds_def)
  have "map (\<lambda>r. count_from (t @ r)) (ranges column factor bounds) ! i = count_from t @ ranges column factor bounds ! i"
    if "i < length bounds" for i
    using that length_ranges [OF ne] by (simp add: count_from_def)
  then show ?thesis
    using ranges_partition [OF assms, of "count_from t" column] by (metis (no_types, lifting))
qed

lemma bounds_lengths:
  "length addcnt_bounds = 31" "length outval_bounds = 48" "length bal_bounds = 58" "length txcnt_bounds = 25"
  "length txsize_bounds = 33"
  by (simp_all add: addcnt_bounds_def outval_bounds_def bal_bounds_def txcnt_bounds_def txsize_bounds_def)


section \<open>What the report contains\<close>

text \<open>A server that answers every query with one row and one cell that is not \<open>NULL\<close>.\<close>

definition answers :: "'db mysql \<Rightarrow> 'db \<Rightarrow> (string \<Rightarrow> bytes) \<Rightarrow> bool" where
  "answers my database cell \<longleftrightarrow>
     (\<forall>q. take 6 q = ''SELECT'' \<longrightarrow> my_exec my q database = database \<and> my_rows my q database = [[Some (cell q)]] \<and>
       0 \<notin> set (cell q) \<and> length (cell q) < 500)"

definition row_text :: "(string \<Rightarrow> bytes) \<Rightarrow> string list \<Rightarrow> string" where
  "row_text cell queries = concat (map (\<lambda>q. map (\<lambda>b. char_of (unat b)) (cell q) @ tab) queries) @ newline"

definition rp_ok :: "'db \<Rightarrow> 'db report \<Rightarrow> bool" where
  "rp_ok database r \<longleftrightarrow> rp_conn r = database \<and> (\<forall>name. rp_stream r = Some name \<longrightarrow> rp_files r name \<noteq> None)"

lemma rp_put_put: "rp_put t (rp_put s r) = rp_put (s @ t) r"
  by (auto simp: rp_put_def split: option.splits)

lemma rp_put_ok [intro]: "rp_ok database r \<Longrightarrow> rp_ok database (rp_put s r)"
  by (auto simp: rp_ok_def rp_put_def split: option.splits)

lemma rp_put_Nil: "rp_ok database r \<Longrightarrow> rp_put [] r = r"
  by (auto simp: rp_ok_def rp_put_def fun_upd_idem split: option.splits)

lemma rp_put_bad: "\<not> rp_good r \<Longrightarrow> rp_put s r = r"
  by (simp add: rp_put_def split: option.splits)

lemma emit_answers:
  assumes "answers my database cell" "take 6 q = ''SELECT''" "rp_ok database r"
  shows "emit my q r = Some (rp_put (map (\<lambda>b. char_of (unat b)) (cell q) @ tab) r)"
proof -
  have a: "my_exec my q database = database" "my_rows my q database = [[Some (cell q)]]" "0 \<notin> set (cell q)" "length (cell q) < 500"
    using assms(1,2) by (simp_all add: answers_def)
  have tw: "takeWhile (\<lambda>b. b \<noteq> 0) (cell q) = cell q"
    using a(3) by (auto simp: takeWhile_eq_all_conv)
  have r: "r\<lparr>rp_conn := database\<rparr> = r" "rp_conn r = database"
    using assms(3) by (auto simp: rp_ok_def)
  show ?thesis
    using a by (simp add: emit_def Let_def at_def rp_put_put tw r)
qed

lemma emit_all_answers:
  assumes "answers my database cell" "list_all (\<lambda>q. take 6 q = ''SELECT'') qs" "rp_ok database r"
  shows "emit_all my qs r = Some (rp_put (concat (map (\<lambda>q. map (\<lambda>b. char_of (unat b)) (cell q) @ tab) qs)) r)"
  using assms(2,3)
proof (induction qs arbitrary: r)
  case (Cons q qs)
  let ?r = "rp_put (map (\<lambda>b. char_of (unat b)) (cell q) @ tab) r"
  have "emit my q r = Some ?r"
    using Cons.prems by (intro emit_answers [OF assms(1)]) simp_all
  moreover have "rp_ok database ?r"
    using Cons.prems(2) by blast
  ultimately show ?case
    using Cons by (simp add: rp_put_put)
qed (simp add: rp_put_Nil)

lemma emit_row_answers:
  assumes "answers my database cell" "list_all (\<lambda>q. take 6 q = ''SELECT'') qs" "rp_ok database r"
  shows "emit_row my qs r = Some (rp_put (row_text cell qs) r)"
  by (simp add: emit_row_def emit_all_answers [OF assms] rp_put_put row_text_def)

lemma section_answers:
  assumes "answers my database cell" "list_all (\<lambda>q. take 6 q = ''SELECT'') qs" "rp_ok database r"
  shows "report_section my title qs r = Some (rp_put (title @ row_text cell qs) r)"
  using emit_row_answers [OF assms(1,2) rp_put_ok [OF assms(3)]] by (simp add: report_section_def rp_put_put)

lemma repeat_row_answers:
  assumes "answers my database cell" "list_all (\<lambda>q. take 6 q = ''SELECT'') qs" "rp_ok database r"
  shows "repeat_row my n qs r = Some (rp_put (concat (replicate n (row_text cell qs))) r)"
  using assms(3)
proof (induction n arbitrary: r)
  case (Suc n)
  then show ?case
    using emit_row_answers [OF assms(1,2) Suc.prems] Suc.IH [OF rp_put_ok [OF Suc.prems]] by (simp add: rp_put_put)
qed (simp add: rp_put_Nil)

lemma selects_all:
  "list_all (\<lambda>q. take 6 q = ''SELECT'') (address before after)"
  "list_all (\<lambda>q. take 6 q = ''SELECT'') (map (\<lambda>q. q @ new_add_time after) new_add)"
  "list_all (\<lambda>q. take 6 q = ''SELECT'') (map (\<lambda>q. q @ unstop_add_time before) unstop_add)"
  "list_all (\<lambda>q. take 6 q = ''SELECT'') (entity before after)"
  "list_all (\<lambda>q. take 6 q = ''SELECT'') (map (\<lambda>q. q @ new_entity_time after) new_entity)"
  "list_all (\<lambda>q. take 6 q = ''SELECT'') (map (\<lambda>q. q @ unstop_entity_time before) unstop_entity)"
  "list_all (\<lambda>q. take 6 q = ''SELECT'') (hd transaction # map (\<lambda>q. q @ transaction_time after) (tl transaction))"
  "list_all (\<lambda>q. take 6 q = ''SELECT'') (hd block # map (\<lambda>q. q @ block_time after) (tl block))"
  by (simp_all add: address_def new_add_def unstop_add_def entity_def new_entity_def unstop_entity_def transaction_def
      block_def four_def count_from_def)

lemma selects_counts:
  "list_all (\<lambda>q. take 6 q = ''SELECT'') (map (\<lambda>r. count_from (f r)) rs)"
  "list_all (\<lambda>q. take 6 q = ''SELECT'') (map (\<lambda>q. tx_time before after @ q) qs)"
  by (simp_all add: list_all_iff count_from_def tx_time_def)


text \<open>The rows of the report and their titles.\<close>

definition report_rows :: "string \<Rightarrow> string \<Rightarrow> string list list" where
  "report_rows before after =
    [(address before after),
     (map (\<lambda>q. q @ new_add_time after) new_add),
     (map (\<lambda>q. q @ unstop_add_time before) unstop_add),
     (entity before after),
     (map (\<lambda>q. q @ new_entity_time after) new_entity),
     (map (\<lambda>q. q @ unstop_entity_time before) unstop_entity),
     (hd transaction # map (\<lambda>q. q @ transaction_time after) (tl transaction)),
     (hd block # map (\<lambda>q. q @ block_time after) (tl block)),
     NumOfAddOfEntity,
     OutvalOfAdd,
     OutvalOfEntity,
     BalOfAdd,
     BalOfEntity,
     MaxbalOfAdd,
     MaxbalOfEntity,
     TxcntOfAdd,
     TxcntOfEntity,
     (OutvalOfTx after),
     MaxbalOfAdd]"

definition report_titles :: "string list" where
  "report_titles =
    [heading ''1. address'',
     heading ''2. new address'',
     heading ''3. no stop address'',
     heading ''4. entity'',
     heading ''5. new entity'',
     heading ''6. no stop entity'',
     heading ''7. transaction'',
     heading ''8. block'',
     heading ''9. other'' @ subheading (''9.2 entity'' @ gbk [0xb5, 0xd8, 0xd6, 0xb7, 0xca, 0xfd, 0xc1, 0xbf, 0xb5, 0xc4, 0xb7, 0xd6, 0xb2, 0xbc]),
     subheading (''9.3 address'' @ gbk [0xca, 0xd5, 0xc8, 0xeb, 0xb7, 0xd6, 0xb2, 0xbc]),
     subheading (''9.4 entity'' @ gbk [0xca, 0xd5, 0xc8, 0xeb, 0xb7, 0xd6, 0xb2, 0xbc]),
     subheading (''9.5 address'' @ gbk [0xb5, 0xb1, 0xc7, 0xb0, 0xd3, 0xe0, 0xb6, 0xee, 0xb7, 0xd6, 0xb2, 0xbc]),
     subheading (''9.6 entity'' @ gbk [0xb5, 0xb1, 0xc7, 0xb0, 0xd3, 0xe0, 0xb6, 0xee, 0xb7, 0xd6, 0xb2, 0xbc]),
     subheading (''9.7 address'' @ gbk [0xc0, 0xfa, 0xca, 0xb7, 0xd7, 0xee, 0xb4, 0xf3, 0xd3, 0xe0, 0xb6, 0xee, 0xb7, 0xd6, 0xb2, 0xbc]),
     subheading (''9.8 entity'' @ gbk [0xc0, 0xfa, 0xca, 0xb7, 0xd7, 0xee, 0xb4, 0xf3, 0xd3, 0xe0, 0xb6, 0xee, 0xb7, 0xd6, 0xb2, 0xbc]),
     subheading (''9.9 address'' @ gbk [0xb2, 0xce, 0xd3, 0xeb, 0xbd, 0xbb, 0xd2, 0xd7, 0xca, 0xfd]),
     subheading (''9.10 entity'' @ gbk [0xb2, 0xce, 0xd3, 0xeb, 0xbd, 0xbb, 0xd2, 0xd7, 0xca, 0xfd]),
     subheading (gbk [0xbd, 0xbb, 0xd2, 0xd7, 0xbd, 0xf0, 0xb6, 0xee, 0xb7, 0xd6, 0xb2, 0xbc]),
     subheading (''9.7 address'' @ gbk [0xc0, 0xfa, 0xca, 0xb7, 0xd7, 0xee, 0xb4, 0xf3, 0xd3, 0xe0, 0xb6, 0xee, 0xb7, 0xd6, 0xb2, 0xbc])]"

definition report_text :: "(string \<Rightarrow> bytes) \<Rightarrow> string \<Rightarrow> string \<Rightarrow> string \<Rightarrow> string \<Rightarrow> string" where
  "report_text cell now timerange before after =
     ''-------------'' @ now @ ''-------------'' @ newline @
     ''***'' @ gbk [0xcd, 0xb3, 0xbc, 0xc6, 0xca, 0xb1, 0xbc, 0xe4, 0xb6, 0xce, 0xa3, 0xba] @ timerange @ ''***'' @ newline @
     concat (map2 (\<lambda>title queries. title @ row_text cell queries) report_titles (report_rows before after))"

lemmas stat_defs = stat_address_def stat_new_add_def stat_unstop_add_def stat_entity_def stat_new_entity_def stat_unstop_entity_def stat_transaction_def stat_block_def stat_NumOfAddOfEntity_def stat_OutvalOfAdd_def stat_OutvalOfEntity_def stat_BalOfAdd_def stat_BalOfEntity_def stat_MaxbalOfAdd_def stat_MaxbalOfEntity_def stat_TxcntOfAdd_def stat_TxcntOfEntity_def stat_OutvalOfTx_def stat_TxfeeOfTX_def

lemma sections_answer:
  assumes a: "answers my database cell" and r: "rp_ok database r"
  shows "do {
     r \<leftarrow> stat_address my before after r;
     r \<leftarrow> stat_new_add my after r;
     r \<leftarrow> stat_unstop_add my before r;
     r \<leftarrow> stat_entity my before after r;
     r \<leftarrow> stat_new_entity my after r;
     r \<leftarrow> stat_unstop_entity my before r;
     r \<leftarrow> stat_transaction my after r;
     r \<leftarrow> stat_block my after r;
     r \<leftarrow> stat_NumOfAddOfEntity my r;
     r \<leftarrow> stat_OutvalOfAdd my r;
     r \<leftarrow> stat_OutvalOfEntity my r;
     r \<leftarrow> stat_BalOfAdd my r;
     r \<leftarrow> stat_BalOfEntity my r;
     r \<leftarrow> stat_MaxbalOfAdd my r;
     r \<leftarrow> stat_MaxbalOfEntity my r;
     r \<leftarrow> stat_TxcntOfAdd my r;
     r \<leftarrow> stat_TxcntOfEntity my r;
     r \<leftarrow> stat_OutvalOfTx my after r;
     r \<leftarrow> stat_TxfeeOfTX my r;
     f r
   } = f (rp_put (concat (map2 (\<lambda>title queries. title @ row_text cell queries) report_titles (report_rows before after))) r)"
proof -
  note counts = NumOfAddOfEntity_def OutvalOfAdd_def OutvalOfEntity_def BalOfAdd_def BalOfEntity_def MaxbalOfAdd_def
    MaxbalOfEntity_def TxcntOfAdd_def TxcntOfEntity_def OutvalOfTx_def
  have q: "list_all (\<lambda>q. take 6 q = ''SELECT'') NumOfAddOfEntity" "list_all (\<lambda>q. take 6 q = ''SELECT'') OutvalOfAdd"
    "list_all (\<lambda>q. take 6 q = ''SELECT'') OutvalOfEntity" "list_all (\<lambda>q. take 6 q = ''SELECT'') BalOfAdd"
    "list_all (\<lambda>q. take 6 q = ''SELECT'') BalOfEntity" "list_all (\<lambda>q. take 6 q = ''SELECT'') MaxbalOfAdd"
    "list_all (\<lambda>q. take 6 q = ''SELECT'') MaxbalOfEntity" "list_all (\<lambda>q. take 6 q = ''SELECT'') TxcntOfAdd"
    "list_all (\<lambda>q. take 6 q = ''SELECT'') TxcntOfEntity" "list_all (\<lambda>q. take 6 q = ''SELECT'') (OutvalOfTx after)"
    unfolding counts by (rule selects_counts)+
  show ?thesis
    by (simp only: stat_defs section_answers [OF a] selects_all q rp_put_ok r bind.simps rp_put_put)
      (simp only: report_titles_def report_rows_def zip_Cons_Cons zip_Nil list.map prod.case concat.simps append_assoc append_Nil2)
qed


lemma tx_amount_stage:
  assumes "answers my database cell" "rp_ok database r" "rp_stream r = Some name"
  shows "stat_tx_amount my can before after r = Some (r\<lparr>rp_stream := None, rp_good := False\<rparr>)"
proof -
  have "rp_open can (path ''I:/Statistic2/tx-amount-2.txt'') r = r\<lparr>rp_good := False\<rparr>"
    using assms(3) by (simp add: rp_open_def)
  moreover have "rp_ok database (r\<lparr>rp_good := False\<rparr>)"
    using assms(2) by (simp add: rp_ok_def)
  ultimately show ?thesis
    by (simp add: stat_tx_amount_def repeat_row_answers [OF assms(1) selects_counts(2)] rp_put_bad rp_close_def)
qed

lemma tx_size_stage:
  assumes "answers my database cell" "rp_conn r = database" "rp_stream r = None" "can (path ''I:/Statistic2/tx-size-2.txt'')"
  shows "stat_tx_size my can before after r = Some (r\<lparr>rp_good := True, rp_files := (rp_files r)
    (path ''I:/Statistic2/tx-size-2.txt'' \<mapsto>
      (case rp_files r (path ''I:/Statistic2/tx-size-2.txt'') of None \<Rightarrow> [] | Some s \<Rightarrow> s) @
      concat (replicate 71 (row_text cell (map (\<lambda>q. tx_time before after @ q) tx_size))))\<rparr>)"
proof -
  have "rp_ok database (rp_open can (path ''I:/Statistic2/tx-size-2.txt'') r)"
    using assms(2-4) by (simp add: rp_open_def rp_ok_def)
  then show ?thesis
    using assms(3,4)
    by (simp add: stat_tx_size_def repeat_row_answers [OF assms(1) selects_counts(2)] rp_open_def rp_put_def rp_close_def)
qed

lemma rp_conn_simps [simp]: "rp_conn (rp_put s r) = rp_conn r" "rp_conn (rp_open can name r) = rp_conn r"
  by (simp_all add: rp_put_def rp_open_def split: option.splits)

lemma emit_conn:
  assumes "my_exec my q (rp_conn r) = rp_conn r" "emit my q r = Some r'"
  shows "rp_conn r' = rp_conn r"
proof (cases "my_rows my q (rp_conn r)")
  case (Cons row rows)
  then show ?thesis
    using assms by (auto simp: emit_def Let_def bind_eq_Some_conv split: if_splits)
qed (use assms in \<open>auto simp: emit_def\<close>)

lemma emit_null: "my_rows my q (rp_conn r) = [[None]] \<Longrightarrow> emit my q r = None"
  by (simp add: emit_def at_def)

lemma emit_all_null:
  assumes "\<And>q. my_exec my q database = database" "my_rows my q0 database = [[None]]" "q0 \<in> set qs" "rp_conn r = database"
  shows "emit_all my qs r = None"
  using assms(3,4)
proof (induction qs arbitrary: r)
  case (Cons q qs)
  show ?case
  proof (cases "emit my q r")
    case (Some r')
    then have "q \<noteq> q0" "rp_conn r' = database"
      using emit_null [of my q r] emit_conn [of my q r] Cons.prems(2) assms(1,2) by auto
    with Some Cons show ?thesis by simp
  qed simp
qed simp

lemma emit_all_conn:
  assumes "\<And>q. my_exec my q database = database" "emit_all my qs r = Some r'" "rp_conn r = database"
  shows "rp_conn r' = database"
  using assms(2,3)
proof (induction qs arbitrary: r)
  case (Cons q qs)
  then obtain r1 where r1: "emit my q r = Some r1" "emit_all my qs r1 = Some r'"
    by (auto simp: bind_eq_Some_conv)
  then have "rp_conn r1 = database"
    using emit_conn [of my q r r1] Cons.prems(2) assms(1) by simp
  with r1 Cons.IH show ?case by blast
qed simp

text \<open>
  A month in which no new address appeared: the average over no rows is \<open>NULL\<close>, and \<open>strcpy\<close> reads from a null
  pointer.
\<close>

lemma statistical_null:
  assumes db: "\<And>q. my_exec my q database = database" and range: "read_range files = (timerange, before, after)"
    and null: "my_rows my (''SELECT avg(outval) FROM test1.addressinfo '' @ new_add_time after) database = [[None]]"
  shows "statistical my can now database files = None"
proof -
  let ?qs = "map (\<lambda>q. q @ new_add_time after) new_add"
  have mem: "''SELECT avg(outval) FROM test1.addressinfo '' @ new_add_time after \<in> set ?qs"
    by (simp add: new_add_def four_def)
  have new: "stat_new_add my after r = None" if "rp_conn r = database" for r
    using emit_all_null [OF db null mem, of "rp_put (heading ''2. new address'') r"] that
    by (simp add: stat_new_add_def report_section_def emit_row_def)
  have address: "rp_conn r' = database" if "stat_address my before after r = Some r'" "rp_conn r = database" for r r'
    using that emit_all_conn [OF db, of "address before after" "rp_put (heading ''1. address'') r"]
    by (auto simp: stat_address_def report_section_def emit_row_def)
  define r0 where "r0 = rp_put (''***'' @ gbk [0xcd, 0xb3, 0xbc, 0xc6, 0xca, 0xb1, 0xbc, 0xe4, 0xb6, 0xce, 0xa3, 0xba] @ timerange @ ''***'' @ newline)
    (rp_put (''-------------'' @ now @ ''-------------'' @ newline)
      (rp_open can (path ''G:/Statistic/'' @ timerange @ ''.txt'')
        \<lparr>rp_conn = database, rp_stream = None, rp_good = True, rp_files = files\<rparr>))"
  have r0: "rp_conn r0 = database"
    by (simp add: r0_def)
  show ?thesis
  proof (cases "stat_address my before after r0")
    case None
    then show ?thesis
      unfolding statistical_def range Let_def prod.case r0_def [symmetric] by simp
  next
    case (Some r1)
    then show ?thesis
      using new [OF address [OF Some r0]]
      unfolding statistical_def range Let_def prod.case r0_def [symmetric] by simp
  qed
qed


text \<open>An amount of 410 bitcoins is in none of the classes 22 to 35 of \<open>tx_amount\<close>.\<close>

lemma tx_amount_gap: "list_all (\<lambda>q. \<not> selects ''AND '' ''outvalue'' q 41000000000) (drop 22 tx_amount)"
  by (simp add: tx_amount_def ranges_def selects_def condition_def amount_def multiplier_def BTC_def fraction_def
      scan_digits_def undecimal_def is_digit_eval digit_value_eval is_digit_def)


section \<open>Properties\<close>

text \<open>
  C36. The distributions of the report lose nothing and count nothing twice: every amount from 0 on falls
  into exactly one class of the distributions of income, balance and largest balance of addresses
  and entities and of the transaction amounts, and every number from 1 on into exactly one class of
  the distributions of the numbers of addresses and of transactions. The classes are read from the
  texts of the queries.
\<close>

theorem distributions_partition:
  assumes "0 \<le> v" and "1 \<le> n"
  shows "(\<exists>!i. i < 31 \<and> selects (count_from ''entityinfo WHERE '') ''addcnt'' (NumOfAddOfEntity ! i) n) \<and>
    (\<exists>!i. i < 48 \<and> selects (count_from ''addressinfo WHERE '') ''outval'' (OutvalOfAdd ! i) v) \<and>
    (\<exists>!i. i < 48 \<and> selects (count_from ''entityinfo WHERE '') ''outval'' (OutvalOfEntity ! i) v) \<and>
    (\<exists>!i. i < 58 \<and> selects (count_from ''addressinfo WHERE '') ''bal'' (BalOfAdd ! i) v) \<and>
    (\<exists>!i. i < 58 \<and> selects (count_from ''entityinfo WHERE '') ''bal'' (BalOfEntity ! i) v) \<and>
    (\<exists>!i. i < 58 \<and> selects (count_from ''addressinfo WHERE '') ''maxbal'' (MaxbalOfAdd ! i) v) \<and>
    (\<exists>!i. i < 58 \<and> selects (count_from ''entityinfo WHERE '') ''maxbal'' (MaxbalOfEntity ! i) v) \<and>
    (\<exists>!i. i < 25 \<and> selects (count_from ''addressinfo WHERE '') ''(incnt+outcnt)'' (TxcntOfAdd ! i) n) \<and>
    (\<exists>!i. i < 25 \<and> selects (count_from ''entityinfo WHERE '') ''(incnt+outcnt)'' (TxcntOfEntity ! i) n) \<and>
    (\<exists>!i. i < 48 \<and> selects (count_from (''txinfo WHERE unix_timestamp(txtime) > '' @ timestamp after @ '' AND ''))
      ''outvalue'' (OutvalOfTx after ! i) v)"
proof -
  have hd: "hd (map (\<lambda>h. h * int 1) (100 # hs)) \<le> 100 * n" "hd (map (\<lambda>h. h * int 100000000) (0 # hs)) \<le> 100 * v" for hs
    using assms by simp_all
  note d = distribution [OF addcnt_bounds_read hd(1)] distribution [OF outval_bounds_read hd(2)]
    distribution [OF bal_bounds_read hd(2)] distribution [OF txcnt_bounds_read hd(1)]
  show ?thesis
    using d(1) [of "''entityinfo WHERE ''" "''addcnt''"] d(2) [of "''addressinfo WHERE ''" "''outval''"]
      d(2) [of "''entityinfo WHERE ''" "''outval''"] d(3) [of "''addressinfo WHERE ''" "''bal''"]
      d(3) [of "''entityinfo WHERE ''" "''bal''"] d(3) [of "''addressinfo WHERE ''" "''maxbal''"]
      d(3) [of "''entityinfo WHERE ''" "''maxbal''"] d(4) [of "''addressinfo WHERE ''" "''(incnt+outcnt)''"]
      d(4) [of "''entityinfo WHERE ''" "''(incnt+outcnt)''"]
      d(2) [of "''txinfo WHERE unix_timestamp(txtime) > '' @ timestamp after @ '' AND ''" "''outvalue''"]
    unfolding bounds_lengths NumOfAddOfEntity_def OutvalOfAdd_def OutvalOfEntity_def BalOfAdd_def BalOfEntity_def
      MaxbalOfAdd_def MaxbalOfEntity_def TxcntOfAdd_def TxcntOfEntity_def OutvalOfTx_def append_assoc
    by (intro conjI)
qed

theorem distributions_partition_witness:
  "\<exists>!i. i < 58 \<and> selects (count_from ''addressinfo WHERE '') ''bal'' (BalOfAdd ! i) 5000000000"
  using distributions_partition [of 5000000000 1] by simp


definition sample_range :: files where
  "sample_range = [path ''H:/para/5.statistic.txt'' \<mapsto>
     ''2010-09'' @ newline @ ''2010-06-30-00-00-00'' @ newline @ ''2010-09-01-00-00-00'' @ newline]"


end
