(* ===== verification/Console.thy ===== *)
theory Console
  imports Chain Statistical
begin

text \<open>
  \<open>console.cpp\<close>: the ten months the program works on. For every month it writes the parameter files, runs the
  main loop and writes the report. \<open>start_database\<close>, which opens the two stores, gives the first state; the
  entries of the log file are left out.
\<close>

section \<open>The rounds\<close>

definition main_round ::
  "'db mysql \<Rightarrow> 'kv leveldb \<Rightarrow> (unit32 \<Rightarrow> unit64) \<Rightarrow> int \<Rightarrow> (string \<Rightarrow> bytes option) \<Rightarrow> (string \<Rightarrow> bool) \<Rightarrow> (int \<Rightarrow> string) \<Rightarrow>
     int \<Rightarrow> ('db, 'kv) tstate \<times> files \<Rightarrow> (('db, 'kv) tstate \<times> files) option" where
  "main_round my ld difficulty tz disk can now para = (\<lambda>(st, files). do {
     files \<leftarrow> set_parameter para files;
     (st, files) \<leftarrow> unzipBlocks my ld difficulty tz disk st files;
     (database, files) \<leftarrow> statistical my can (now para) (conn st) files;
     Some (st\<lparr>conn := database\<rparr>, files)
   })"

fun main_loop ::
  "'db mysql \<Rightarrow> 'kv leveldb \<Rightarrow> (unit32 \<Rightarrow> unit64) \<Rightarrow> int \<Rightarrow> (string \<Rightarrow> bytes option) \<Rightarrow> (string \<Rightarrow> bool) \<Rightarrow> (int \<Rightarrow> string) \<Rightarrow>
     int list \<Rightarrow> ('db, 'kv) tstate \<times> files \<Rightarrow> (('db, 'kv) tstate \<times> files) option" where
  "main_loop my ld difficulty tz disk can now [] s = Some s"
| "main_loop my ld difficulty tz disk can now (para # paras) s =
     Option.bind (main_round my ld difficulty tz disk can now para s) (main_loop my ld difficulty tz disk can now paras)"

definition main ::
  "'db mysql \<Rightarrow> 'kv leveldb \<Rightarrow> (unit32 \<Rightarrow> unit64) \<Rightarrow> int \<Rightarrow> (string \<Rightarrow> bytes option) \<Rightarrow> (string \<Rightarrow> bool) \<Rightarrow> (int \<Rightarrow> string) \<Rightarrow>
     ('db, 'kv) tstate \<times> files \<Rightarrow> (('db, 'kv) tstate \<times> files) option" where
  "main my ld difficulty tz disk can now = main_loop my ld difficulty tz disk can now [20, 21, 22, 23, 24, 25, 26, 27, 28, 29]"


section \<open>The parameters of a month\<close>

text \<open>The first second of the month that follows the month number \<open>i\<close>.\<close>

definition next_month :: "nat \<Rightarrow> tm" where
  "next_month i = \<lparr>tm_year = int (2009 + (i + 1) div 12) - 1900, tm_mon = (i + 1) mod 12, tm_mday = 1,
     tm_hour = 0, tm_min = 0, tm_sec = 0\<rparr>"

lemma tables_nth:
  assumes "i < 72"
  shows "YEAR ! i = int (2009 + i div 12)" "MONTH ! i = int (i mod 12 + 1)"
    "DAY ! i = int (month_lengths (2009 + i div 12) ! (i mod 12))"
    "RANGE ! i = decimal (2009 + i div 12) @ ''-'' @ dec2 (i mod 12 + 1)" "BEFORE ! i = month_end (i + 9)"
    "AFTER ! i = decimal (2009 + i div 12) @ ''-'' @ dec2 (i mod 12 + 1) @ ''-01-00-00-00''"
proof -
  note t = tables_calendar [THEN conjunct1] tables_calendar [THEN conjunct2, THEN conjunct1]
    tables_calendar [THEN conjunct2, THEN conjunct2, THEN conjunct1]
    tables_calendar [THEN conjunct2, THEN conjunct2, THEN conjunct2, THEN conjunct1]
    tables_calendar [THEN conjunct2, THEN conjunct2, THEN conjunct2, THEN conjunct2, THEN conjunct1]
    tables_calendar [THEN conjunct2, THEN conjunct2, THEN conjunct2, THEN conjunct2, THEN conjunct2]
  have n: "map f [0..<72] ! i = f i" for f :: "nat \<Rightarrow> int"
    using assms by simp
  have n': "map f [0..<72] ! i = f i" for f :: "nat \<Rightarrow> string"
    using assms by simp
  show "YEAR ! i = int (2009 + i div 12)" "MONTH ! i = int (i mod 12 + 1)"
    "DAY ! i = int (month_lengths (2009 + i div 12) ! (i mod 12))"
    "RANGE ! i = decimal (2009 + i div 12) @ ''-'' @ dec2 (i mod 12 + 1)" "BEFORE ! i = month_end (i + 9)"
    "AFTER ! i = decimal (2009 + i div 12) @ ''-'' @ dec2 (i mod 12 + 1) @ ''-01-00-00-00''"
    unfolding t n n' by (rule refl)+
qed

lemma month_length_bounds: "m < 12 \<Longrightarrow> 0 < month_lengths y ! m \<and> month_lengths y ! m \<le> 31"
  by (auto simp: month_lengths_def nth_Cons split: nat.splits)

lemma mktime_next_day:
  assumes "m < 12" "1970 \<le> y"
  shows "mktime tz \<lparr>tm_year = int y - 1900, tm_mon = m, tm_mday = month_lengths y ! m, tm_hour = 23, tm_min = 59, tm_sec = 59\<rparr> + 1 =
    mktime tz \<lparr>tm_year = int (if m = 11 then y + 1 else y) - 1900, tm_mon = (m + 1) mod 12, tm_mday = 1,
      tm_hour = 0, tm_min = 0, tm_sec = 0\<rparr>"
proof (cases "m = 11")
  case True
  have "sum_list (take 11 (month_lengths y)) + month_lengths y ! 11 = year_days y"
    using sum_month_lengths [of y] by (simp add: month_lengths_def)
  then have "int (sum_list (map year_days [1970..<y + 1])) =
      int (sum_list (map year_days [1970..<y])) + int (sum_list (take 11 (month_lengths y))) + int (month_lengths y ! 11)"
    using assms(2) by simp
  moreover have "0 < month_lengths y ! 11" "nat (1 + int y) = y + 1"
    using month_length_bounds [of 11 y] by simp_all
  ultimately show ?thesis
    using True by (simp add: mktime_def Let_def del: upt_Suc)
next
  case False
  then have m: "(m + 1) mod 12 = m + 1" "m < length (month_lengths y)"
    using assms by (simp_all add: month_lengths_def)
  have "sum_list (take (m + 1) (month_lengths y)) = sum_list (take m (month_lengths y)) + month_lengths y ! m"
    using m(2) by (simp add: take_Suc_conv_app_nth)
  then show ?thesis
    using False m(1) month_length_bounds [OF assms(1), of y] by (simp add: mktime_def Let_def)
qed


lemma stop_time_month:
  assumes "i < 72"
  shows "stop_time tz (word_of_nat (2009 + i div 12)) (word_of_nat (i mod 12 + 1))
      (word_of_nat (month_lengths (2009 + i div 12) ! (i mod 12))) + 1 = mktime tz (next_month i)"
proof -
  define y m where "y = 2009 + i div 12" and "m = i mod 12"
  have m: "m < 12" and y: "1970 \<le> y" "y < 2 ^ 31" "1900 \<le> y"
    using assms by (simp_all add: m_def y_def)
  have d: "unat (word_of_nat (month_lengths y ! m) :: unit32) = month_lengths y ! m"
    using month_length_bounds [OF m, of y] by (simp add: unat_of_nat)
  have "(word_of_nat y :: unit32) - 1900 = word_of_nat (y - 1900)"
    using y(3) by (simp add: of_nat_diff)
  moreover have "unat (word_of_nat (y - 1900) :: unit32) = y - 1900"
    using y(2) by (simp add: unat_of_nat)
  ultimately have year: "sint ((word_of_nat y :: unit32) - 1900) = int y - 1900"
    using y sint_small [of "word_of_nat (y - 1900)"] by simp
  have mon: "unat ((word_of_nat (m + 1) :: unit32) - 1) = m"
    using m by (simp add: unat_of_nat)
  have "next_month i = \<lparr>tm_year = int (if m = 11 then y + 1 else y) - 1900, tm_mon = (m + 1) mod 12, tm_mday = 1,
      tm_hour = 0, tm_min = 0, tm_sec = 0\<rparr>"
  proof -
    have "(i + 1) div 12 = (if m = 11 then i div 12 + 1 else i div 12)" "(i + 1) mod 12 = (m + 1) mod 12"
      unfolding m_def by presburger+
    then show ?thesis
      by (simp add: next_month_def y_def)
  qed
  then show ?thesis
    using mktime_next_day [OF m y(1), of tz] unfolding stop_time_def y_def [symmetric] m_def [symmetric] d year mon
    by simp
qed

lemma no_newline: "CHR 0x0A \<notin> set (decimal n)" "CHR 0x0A \<notin> set (dec2 n)"
proof -
  have "\<not> is_digit (CHR 0x0A)"
    by (simp add: is_digit_def)
  then show "CHR 0x0A \<notin> set (decimal n)"
    using decimal_digits [of n] by (auto simp: list_all_iff)
  have "is_digit (digit (n div 10 mod 10))" "is_digit (digit (n mod 10))"
    by simp_all
  with \<open>\<not> is_digit (CHR 0x0A)\<close> show "CHR 0x0A \<notin> set (dec2 n)"
    by (auto simp: dec2_def)
qed

lemma getline_line: "CHR 0x0A \<notin> set l \<Longrightarrow> length l < n \<Longrightarrow> getline n (Some (l @ newline @ r)) = (l, Some r)"
proof -
  assume l: "CHR 0x0A \<notin> set l" "length l < n"
  have "takeWhile (\<lambda>c. c \<noteq> CHR 0x0A) (l @ newline @ r) = l"
    using l(1) by (subst takeWhile_append2) auto
  then show ?thesis
    using l(2) by (simp add: getline_def Let_def)
qed

lemma read_range_set:
  assumes "i < 72" "files (path ''H:/para/5.statistic.txt'') =
    Some (RANGE ! i @ newline @ BEFORE ! i @ newline @ AFTER ! i @ newline)"
  shows "read_range files = (RANGE ! i, BEFORE ! i, AFTER ! i)"
proof -
  have "length (decimal (2009 + i div 12)) = 4" "length (decimal (2008 + (i + 9) div 12)) = 4"
    using assms(1) by (intro length_decimal_4; simp)+
  then have "length (RANGE ! i) = 7" "length (BEFORE ! i) = 19" "length (AFTER ! i) = 19"
    by (simp_all add: tables_nth [OF assms(1)] month_end_def dec2_def Let_def)
  moreover have "CHR 0x0A \<notin> set (RANGE ! i)" "CHR 0x0A \<notin> set (BEFORE ! i)" "CHR 0x0A \<notin> set (AFTER ! i)"
    using no_newline by (simp_all add: tables_nth [OF assms(1)] month_end_def Let_def)
  ultimately show ?thesis
    using getline_line [of "RANGE ! i" 8] getline_line [of "BEFORE ! i" 20] getline_line [of "AFTER ! i" 20 "[]"]
    by (simp add: read_range_def assms(2) Let_def del: append.simps)
qed


lemma unzipBlocks_files:
  assumes "unzipBlocks my ld difficulty tz disk st files = Some (st', files')" "name \<noteq> path ''H:/para/1.unzip_0.txt''"
  shows "files' name = files name"
  using assms by (auto simp: unzipBlocks_def bind_eq_Some_conv Let_def split: if_splits)

lemma read_stop_month:
  assumes "y < 2 ^ 32" "m < 2 ^ 32" "d < 2 ^ 32"
  shows "read_stop (decimal_int (int y) @ newline @ decimal_int (int m) @ newline @ decimal_int (int d) @ newline) =
    Some (word_of_nat y, word_of_nat m, word_of_nat d)"
  using scan_nat(1) [OF assms(1)] scan_nat(2) [OF assms(2)] scan_nat(2) [OF assms(3), of "[]"]
  by (simp add: read_stop_def del: append.simps)


section \<open>Properties\<close>

text \<open>
  C38. The three steps of a round work on the same month: for each of the 72 months \<open>set_parameter\<close> writes
  the files, keeps the checkpoint, and the main loop reads from them a stop time that is the last
  second of the month, one second before the next month begins; whatever the main loop does, the
  report reads back the name of the month and the two dates of the tables, each of which just fits
  its buffer.
\<close>

theorem round_month:
  assumes "0 \<le> para" "para < 72"
  shows "\<exists>files1 c y m d. set_parameter para files = Some files1 \<and>
    files1 (path ''H:/para/1.unzip_0.txt'') = files (path ''H:/para/1.unzip_0.txt'') \<and>
    files1 (path ''H:/para/1.unzip_1.txt'') = Some c \<and> read_stop c = Some (y, m, d) \<and>
    stop_time tz y m d + 1 = mktime tz (next_month (nat para)) \<and>
    (\<forall>st st' files2. unzipBlocks my ld difficulty tz disk st files1 = Some (st', files2) \<longrightarrow>
      read_range files2 = (RANGE ! nat para, BEFORE ! nat para, AFTER ! nat para))"
proof -
  define i where "i = nat para"
  have i: "i < 72" using assms by (simp add: i_def)
  let ?y = "2009 + i div 12" and ?m = "i mod 12 + 1" and ?d = "month_lengths (2009 + i div 12) ! (i mod 12)"
  let ?c = "decimal_int (int ?y) @ newline @ decimal_int (int ?m) @ newline @ decimal_int (int ?d) @ newline"
  let ?s = "RANGE ! i @ newline @ BEFORE ! i @ newline @ AFTER ! i @ newline"
  define files1 where "files1 = files(path ''H:/para/1.unzip_1.txt'' \<mapsto> ?c, path ''H:/para/5.statistic.txt'' \<mapsto> ?s)"
  have set: "set_parameter para files = Some files1"
    using assms unfolding set_parameter_def files1_def i_def [symmetric] Let_def tables_nth(1-3) [OF i] by simp
  have files1: "files1 (path ''H:/para/1.unzip_0.txt'') = files (path ''H:/para/1.unzip_0.txt'')"
    "files1 (path ''H:/para/1.unzip_1.txt'') = Some ?c" "files1 (path ''H:/para/5.statistic.txt'') = Some ?s"
    by (simp_all add: files1_def path_def)
  have "?d < 2 ^ 32"
    using month_length_bounds [of "i mod 12" ?y] by simp
  then have stop: "read_stop ?c = Some (word_of_nat ?y, word_of_nat ?m, word_of_nat ?d)"
    using i by (intro read_stop_month) simp_all
  have "read_range files2 = (RANGE ! i, BEFORE ! i, AFTER ! i)"
    if "unzipBlocks my ld difficulty tz disk st files1 = Some (st', files2)" for st st' files2
    using unzipBlocks_files [OF that, of "path ''H:/para/5.statistic.txt''"] files1(3)
    by (intro read_range_set [OF i]) (simp add: path_def)
  then show ?thesis
    using set files1 stop stop_time_month [OF i, of tz] unfolding i_def [symmetric] by blast
qed

theorem round_month_witness:
  "\<exists>files1. set_parameter 20 Map.empty = Some files1 \<and>
     (\<forall>st st' files2. unzipBlocks sql level_store (\<lambda>bits. 1) 0 sample_disk st files1 = Some (st', files2) \<longrightarrow>
       read_range files2 = (RANGE ! nat 20, BEFORE ! nat 20, AFTER ! nat 20))"
proof -
  have "(0 :: int) \<le> 20" "(20 :: int) < 72" by simp_all
  from round_month [OF this, of Map.empty 0 sql level_store "\<lambda>bits. 1" sample_disk] show ?thesis
    by blast
qed

end
