(* ===== verification/Leveldb_Env.thy ===== *)
theory Leveldb_Env
  imports Leveldb_Status "HOL-Library.Char_ord" "HOL-Library.List_Lexorder"
begin

text \<open>
  \<open>helpers/memenv/memenv.cc\<close>: files in memory, and the interfaces \<open>WritableFile\<close> and \<open>SequentialFile\<close> of
  \<open>include/leveldb/env.h\<close> that the log is written to and read from. A \<open>FileState\<close> is a list of blocks of
  8192 bytes and a size; the bytes of a block beyond the size are what \<open>new\<close> left there and are never
  read, so a new block is modelled with zeros. \<open>None\<close> is an access outside a block or the vector of blocks.
\<close>

section \<open>Files in memory\<close>

record FileState =
  refs :: int
  fs_blocks :: "bytes list"
  fs_size :: unit64

definition kFileBlock :: nat where
  "kFileBlock = 8192"

definition new_FileState :: FileState where
  "new_FileState = \<lparr>refs = 0, fs_blocks = [], fs_size = 0\<rparr>"

function read_blocks :: "bytes list \<Rightarrow> nat \<Rightarrow> nat \<Rightarrow> nat \<Rightarrow> bytes option" where
  "read_blocks bs block block_offset bytes_to_copy =
    (if bytes_to_copy > 0 then do {
       let avail = min (kFileBlock - block_offset) bytes_to_copy;
       b \<leftarrow> at bs block;
       dst \<leftarrow> slice b block_offset avail;
       rest \<leftarrow> read_blocks bs (block + 1) 0 (bytes_to_copy - avail);
       Some (dst @ rest)
     } else Some [])"
  by pat_completeness auto
termination
  by (relation "measure (\<lambda>(bs, block, off, n). 2 * n + (if off = 0 then 0 else 1))")
    (auto simp: kFileBlock_def)

declare read_blocks.simps [simp del]

definition FileState_Read :: "unit64 \<Rightarrow> nat \<Rightarrow> FileState \<Rightarrow> (Status \<times> bytes) option" where
  "FileState_Read offset n fs =
    (if offset > fs_size fs then Some (IOError ''Offset greater than file size.'', [])
     else
       let available = fs_size fs - offset;
           n = (if n > unat available then unat available else n)
       in if n = 0 then Some (OK, [])
          else
            let block = unat offset div kFileBlock;
                block_offset = unat offset mod kFileBlock
            in if n \<le> kFileBlock - block_offset then do {
                 b \<leftarrow> at (fs_blocks fs) block;
                 r \<leftarrow> slice b block_offset n;
                 Some (OK, r)
               }
               else do {
                 r \<leftarrow> read_blocks (fs_blocks fs) block block_offset n;
                 Some (OK, r)
               })"

definition store_last :: "nat \<Rightarrow> bytes \<Rightarrow> bytes list \<Rightarrow> bytes list option" where
  "store_last offset src bs =
    (if bs = [] then None else do { b \<leftarrow> blit (last bs) offset src; Some (butlast bs @ [b]) })"

function append_loop :: "bytes \<Rightarrow> FileState \<Rightarrow> FileState option" where
  "append_loop src fs =
    (if src \<noteq> [] then
       let offset = unat (fs_size fs) mod kFileBlock;
           fs = (if offset \<noteq> 0 then fs else fs\<lparr>fs_blocks := fs_blocks fs @ [replicate kFileBlock 0]\<rparr>);
           avail = min (kFileBlock - offset) (length src)
       in case store_last offset (take avail src) (fs_blocks fs) of
            None \<Rightarrow> None
          | Some bs \<Rightarrow> append_loop (drop avail src) (fs\<lparr>fs_blocks := bs, fs_size := fs_size fs + word_of_nat avail\<rparr>)
     else Some fs)"
  by pat_completeness auto
termination
  by (relation "measure (\<lambda>(src, fs). length src)") (auto simp: kFileBlock_def)

declare append_loop.simps [simp del]

definition FileState_Append :: "bytes \<Rightarrow> FileState \<Rightarrow> (Status \<times> FileState) option" where
  "FileState_Append data fs = do { fs \<leftarrow> append_loop data fs; Some (OK, fs) }"


section \<open>The environment\<close>

text \<open>
  The objects on the heap are addressed by their position; a deleted object is \<open>None\<close> and address 0, the
  null pointer, never holds one. Following a pointer to a deleted object is \<open>None\<close>. \<open>file_map_\<close> is the list of
  its entries in the order of the names.
\<close>

record mem_env =
  heap :: "FileState option list"
  file_map :: "(string \<times> nat) list"

definition NewMemEnv :: mem_env where
  "NewMemEnv = \<lparr>heap = [None], file_map = []\<rparr>"

definition deref :: "nat \<Rightarrow> mem_env \<Rightarrow> FileState option" where
  "deref p env = (case at (heap env) p of Some (Some fs) \<Rightarrow> Some fs | _ \<Rightarrow> None)"

definition set_object :: "nat \<Rightarrow> FileState option \<Rightarrow> mem_env \<Rightarrow> mem_env" where
  "set_object p x env = env\<lparr>heap := (heap env)[p := x]\<rparr>"

definition Ref :: "nat \<Rightarrow> mem_env \<Rightarrow> mem_env option" where
  "Ref p env = do { fs \<leftarrow> deref p env; Some (set_object p (Some (fs\<lparr>refs := refs fs + 1\<rparr>)) env) }"

definition Unref :: "nat \<Rightarrow> mem_env \<Rightarrow> mem_env option" where
  "Unref p env = do {
     fs \<leftarrow> deref p env;
     let n = refs fs - 1;
     if n < 0 then None
     else if n \<le> 0 then Some (set_object p None env)
     else Some (set_object p (Some (fs\<lparr>refs := n\<rparr>)) env)
   }"

fun map_put :: "string \<Rightarrow> nat \<Rightarrow> (string \<times> nat) list \<Rightarrow> (string \<times> nat) list" where
  "map_put k v [] = [(k, v)]"
| "map_put k v ((k', v') # m) =
    (if k < k' then (k, v) # (k', v') # m
     else if k = k' then (k, v) # m
     else (k', v') # map_put k v m)"

definition map_erase :: "string \<Rightarrow> (string \<times> nat) list \<Rightarrow> (string \<times> nat) list" where
  "map_erase k m = filter (\<lambda>(k', v). k' \<noteq> k) m"

text \<open>\<open>file_map_[k]\<close> enters a null pointer for a name it does not have.\<close>

definition map_index :: "string \<Rightarrow> (string \<times> nat) list \<Rightarrow> nat \<times> (string \<times> nat) list" where
  "map_index k m = (case map_of m k of Some v \<Rightarrow> (v, m) | None \<Rightarrow> (0, map_put k 0 m))"

record seq_file =
  sf_file :: nat
  sf_pos :: unit64

definition new_SequentialFile :: "nat \<Rightarrow> mem_env \<Rightarrow> (seq_file \<times> mem_env) option" where
  "new_SequentialFile p env = do { env \<leftarrow> Ref p env; Some (\<lparr>sf_file = p, sf_pos = 0\<rparr>, env) }"

definition SequentialFile_Read :: "nat \<Rightarrow> seq_file \<Rightarrow> mem_env \<Rightarrow> (Status \<times> bytes \<times> seq_file) option" where
  "SequentialFile_Read n s env = do {
     fs \<leftarrow> deref (sf_file s) env;
     (st, result) \<leftarrow> FileState_Read (sf_pos s) n fs;
     Some (st, result, if st = OK then s\<lparr>sf_pos := sf_pos s + word_of_nat (length result)\<rparr> else s)
   }"

definition SequentialFile_Skip :: "unit64 \<Rightarrow> seq_file \<Rightarrow> mem_env \<Rightarrow> (Status \<times> seq_file) option" where
  "SequentialFile_Skip n s env = do {
     fs \<leftarrow> deref (sf_file s) env;
     if sf_pos s > fs_size fs then Some (IOError ''pos_ > file_->Size()'', s)
     else
       let available = fs_size fs - sf_pos s;
           n = (if n > available then available else n)
       in Some (OK, s\<lparr>sf_pos := sf_pos s + n\<rparr>)
   }"

text \<open>A \<open>WritableFileImpl\<close> and a \<open>RandomAccessFileImpl\<close> are the address of their file.\<close>

definition WritableFile_Append :: "bytes \<Rightarrow> nat \<Rightarrow> mem_env \<Rightarrow> (Status \<times> mem_env) option" where
  "WritableFile_Append data p env = do {
     fs \<leftarrow> deref p env;
     (st, fs) \<leftarrow> FileState_Append data fs;
     Some (st, set_object p (Some fs) env)
   }"

definition RandomAccessFile_Read :: "unit64 \<Rightarrow> nat \<Rightarrow> nat \<Rightarrow> mem_env \<Rightarrow> (Status \<times> bytes) option" where
  "RandomAccessFile_Read offset n p env = do { fs \<leftarrow> deref p env; FileState_Read offset n fs }"

definition not_found :: "string \<Rightarrow> Status" where
  "not_found fname = IOError (two_texts fname ''File not found'')"

definition NewSequentialFile :: "string \<Rightarrow> mem_env \<Rightarrow> (Status \<times> seq_file option \<times> mem_env) option" where
  "NewSequentialFile fname env =
    (case map_of (file_map env) fname of
       None \<Rightarrow> Some (not_found fname, None, env)
     | Some p \<Rightarrow> do { (s, env) \<leftarrow> new_SequentialFile p env; Some (OK, Some s, env) })"

definition NewRandomAccessFile :: "string \<Rightarrow> mem_env \<Rightarrow> (Status \<times> nat option \<times> mem_env) option" where
  "NewRandomAccessFile fname env =
    (case map_of (file_map env) fname of
       None \<Rightarrow> Some (not_found fname, None, env)
     | Some p \<Rightarrow> do { env \<leftarrow> Ref p env; Some (OK, Some p, env) })"

definition DeleteFileInternal :: "string \<Rightarrow> mem_env \<Rightarrow> mem_env option" where
  "DeleteFileInternal fname env =
    (case map_of (file_map env) fname of
       None \<Rightarrow> Some env
     | Some p \<Rightarrow> do { env \<leftarrow> Unref p env; Some (env\<lparr>file_map := map_erase fname (file_map env)\<rparr>) })"

definition NewWritableFile :: "string \<Rightarrow> mem_env \<Rightarrow> (Status \<times> nat \<times> mem_env) option" where
  "NewWritableFile fname env = do {
     env \<leftarrow> (if map_of (file_map env) fname \<noteq> None then DeleteFileInternal fname env else Some env);
     let file = length (heap env);
     let env = env\<lparr>heap := heap env @ [Some new_FileState]\<rparr>;
     env \<leftarrow> Ref file env;
     let env = env\<lparr>file_map := map_put fname file (file_map env)\<rparr>;
     env \<leftarrow> Ref file env;
     Some (OK, file, env)
   }"

definition FileExists :: "string \<Rightarrow> mem_env \<Rightarrow> bool" where
  "FileExists fname env \<longleftrightarrow> map_of (file_map env) fname \<noteq> None"

definition GetChildren :: "string \<Rightarrow> mem_env \<Rightarrow> string list" where
  "GetChildren dir env =
    map (\<lambda>filename. drop (length dir + 1) filename)
      (filter (\<lambda>filename. length filename \<ge> length dir + 1 \<and> filename ! length dir = CHR ''/'' \<and>
         take (length dir) filename = dir)
      (map fst (file_map env)))"

definition DeleteFile :: "string \<Rightarrow> mem_env \<Rightarrow> (Status \<times> mem_env) option" where
  "DeleteFile fname env =
    (if map_of (file_map env) fname = None then Some (not_found fname, env)
     else do { env \<leftarrow> DeleteFileInternal fname env; Some (OK, env) })"

definition GetFileSize :: "string \<Rightarrow> mem_env \<Rightarrow> (Status \<times> unit64 option) option" where
  "GetFileSize fname env =
    (case map_of (file_map env) fname of
       None \<Rightarrow> Some (not_found fname, None)
     | Some p \<Rightarrow> do { fs \<leftarrow> deref p env; Some (OK, Some (fs_size fs)) })"

definition RenameFile :: "string \<Rightarrow> string \<Rightarrow> mem_env \<Rightarrow> (Status \<times> mem_env) option" where
  "RenameFile src target env =
    (if map_of (file_map env) src = None then Some (not_found src, env)
     else do {
       env \<leftarrow> DeleteFileInternal target env;
       let (p, m) = map_index src (file_map env);
       let m = map_put target p m;
       let m = map_erase src m;
       Some (OK, env\<lparr>file_map := m\<rparr>)
     })"


section \<open>What a file holds\<close>

definition file_holds :: "FileState \<Rightarrow> bytes \<Rightarrow> bool" where
  "file_holds fs C \<longleftrightarrow> length C < 2 ^ 64 \<and> fs_size fs = word_of_nat (length C) \<and>
     (\<forall>b \<in> set (fs_blocks fs). length b = kFileBlock) \<and>
     length (fs_blocks fs) = length C div kFileBlock + (if length C mod kFileBlock = 0 then 0 else 1) \<and>
     take (length C) (concat (fs_blocks fs)) = C"

lemma file_holds_new: "file_holds new_FileState []"
  by (simp add: file_holds_def new_FileState_def kFileBlock_def)

lemma length_blocks: "\<forall>b \<in> set bs. length b = n \<Longrightarrow> length (concat bs) = n * length bs"
  by (induction bs) simp_all

lemma nth_block:
  "\<forall>b \<in> set bs. length b = n \<Longrightarrow> i < length bs \<Longrightarrow> bs ! i = take n (drop (n * i) (concat bs))"
proof (induction bs arbitrary: i)
  case (Cons b bs)
  then show ?case by (cases i) simp_all
qed simp

lemma drop_blocks:
  "\<forall>b \<in> set bs. length b = n \<Longrightarrow> drop (n * i) (concat bs) = concat (drop i bs)"
proof (induction bs arbitrary: i)
  case (Cons b bs)
  then show ?case by (cases i) simp_all
qed simp

lemma file_holds_size: "file_holds fs C \<Longrightarrow> unat (fs_size fs) = length C"
  by (simp add: file_holds_def unat_of_nat)

text \<open>Reading across blocks copies the bytes in order.\<close>

lemma read_blocks_run:
  "\<forall>b \<in> set bs. length b = kFileBlock \<Longrightarrow> off < kFileBlock \<Longrightarrow>
     kFileBlock * i + off + n \<le> kFileBlock * length bs \<Longrightarrow>
     read_blocks bs i off n = Some (take n (drop (kFileBlock * i + off) (concat bs)))"
proof (induction bs i off n rule: read_blocks.induct)
  case (1 bs i off n)
  show ?case
  proof (cases "n > 0")
    case True
    define avail where "avail = min (kFileBlock - off) n"
    let ?p = "kFileBlock * i + off" and ?C = "concat bs"
    have K: "0 < kFileBlock"
      by (simp add: kFileBlock_def)
    have i: "i < length bs"
    proof (rule ccontr)
      assume "\<not> i < length bs"
      then have "kFileBlock * length bs \<le> kFileBlock * i" by simp
      with "1.prems"(3) True show False by linarith
    qed
    then have Ki: "kFileBlock * i + kFileBlock \<le> kFileBlock * length bs"
      by (metis Suc_leI mult_Suc_right mult_le_mono2 add.commute)
    have slice: "slice (bs ! i) off avail = Some (take avail (drop ?p ?C))"
    proof -
      have "length (bs ! i) = kFileBlock" "off + avail \<le> kFileBlock"
        using "1.prems"(1,2) i by (auto simp: avail_def)
      moreover from this have "take avail (drop off (bs ! i)) = take avail (drop ?p ?C)"
        by (simp add: nth_block [OF "1.prems"(1) i] drop_take add.commute)
      ultimately show ?thesis
        by (simp add: slice_def)
    qed
    have avail: "?p + avail = kFileBlock * (i + 1) \<or> n - avail = 0"
      using "1.prems"(2) by (auto simp: avail_def min_def)
    have "read_blocks bs (i + 1) 0 (n - avail) = Some (take (n - avail) (drop (kFileBlock * (i + 1)) ?C))"
    proof -
      have "kFileBlock * (i + 1) + 0 + (n - avail) \<le> kFileBlock * length bs"
        using avail Ki "1.prems"(3) by (auto simp: algebra_simps)
      then show ?thesis
        using "1.IH" [OF True refl _ _ "1.prems"(1) K] i slice by (simp add: at_def avail_def)
    qed
    also have "\<dots> = Some (take (n - avail) (drop (?p + avail) ?C))"
      using avail by (elim disjE) (simp only:, simp)
    finally have "read_blocks bs i off n = Some (take avail (drop ?p ?C) @ take (n - avail) (drop (?p + avail) ?C))"
      using True i slice by (subst read_blocks.simps) (simp add: at_def Let_def flip: avail_def)
    moreover have "avail + (n - avail) = n"
      by (simp add: avail_def)
    ultimately show ?thesis
      using take_add [of avail "n - avail" "drop ?p ?C"] by (simp add: add.commute)
  next
    case False
    then show ?thesis by (simp add: read_blocks.simps)
  qed
qed

lemma FileState_Read_holds:
  assumes fs: "file_holds fs C" and off: "off \<le> length C"
  shows "FileState_Read (word_of_nat off) n fs = Some (OK, take n (drop off C))"
proof -
  define m where "m = min n (length C - off)"
  have C: "length C < 2 ^ 64" "fs_size fs = word_of_nat (length C)" "\<forall>b \<in> set (fs_blocks fs). length b = kFileBlock"
    "take (length C) (concat (fs_blocks fs)) = C"
    using fs by (simp_all add: file_holds_def)
  have u: "unat (word_of_nat off :: unit64) = off" "unat (fs_size fs) = length C"
    using off C(1,2) by (simp_all add: unat_of_nat)
  then have le: "\<not> word_of_nat off > fs_size fs" and avail: "unat (fs_size fs - word_of_nat off) = length C - off"
    using off by (simp_all add: word_less_nat_alt word_le_nat_alt unat_sub)
  have m: "(if n > unat (fs_size fs - word_of_nat off) then unat (fs_size fs - word_of_nat off) else n) = m"
    by (simp add: avail m_def)
  have K: "0 < kFileBlock"
    by (simp add: kFileBlock_def)
  have "length C \<le> length (concat (fs_blocks fs))"
    using arg_cong [OF C(4), of length] by simp
  then have len: "length C \<le> kFileBlock * length (fs_blocks fs)"
    by (simp add: length_blocks [OF C(3)])
  have pos: "kFileBlock * (off div kFileBlock) + off mod kFileBlock = off"
    by simp
  have bytes: "take m (drop off (concat (fs_blocks fs))) = take n (drop off C)"
  proof -
    have "take m (drop off (concat (fs_blocks fs))) = take m (drop off (take (length C) (concat (fs_blocks fs))))"
      by (simp add: drop_take m_def)
    also have "\<dots> = take n (drop off C)"
      unfolding C(4) by (simp add: m_def min_def)
    finally show ?thesis .
  qed
  have run: "read_blocks (fs_blocks fs) (off div kFileBlock) (off mod kFileBlock) m = Some (take n (drop off C))"
    using read_blocks_run [OF C(3), of "off mod kFileBlock" "off div kFileBlock" m] K len off bytes
    unfolding pos by (simp add: m_def)
  have short: "do { b \<leftarrow> at (fs_blocks fs) (off div kFileBlock); slice b (off mod kFileBlock) m } = Some (take n (drop off C))"
    if "0 < m" "m \<le> kFileBlock - off mod kFileBlock"
  proof -
    have "min (kFileBlock - off mod kFileBlock) m = m"
      using that(2) by simp
    with run that(1) show ?thesis
      by (subst (asm) read_blocks.simps)
        (auto simp: Let_def read_blocks.simps [of _ _ _ 0] split: Option.bind_splits)
  qed
  show ?thesis
  proof (cases "m = 0")
    case True
    then have "take n (drop off C) = []"
      using off by (auto simp: m_def min_def split: if_splits)
    with True show ?thesis
      by (simp add: FileState_Read_def Let_def le m)
  next
    case False
    then show ?thesis
      using run short by (auto simp: FileState_Read_def Let_def le m u split: Option.bind_splits)
  qed
qed

lemma store_last_holds:
  assumes blocks: "\<forall>b \<in> set bs. length b = kFileBlock" and ne: "bs \<noteq> []"
    and C: "take (length C) (concat bs) = C" "length C = kFileBlock * (length bs - 1) + off"
    and fits: "off + length s \<le> kFileBlock"
  shows "\<exists>bs'. store_last off s bs = Some bs' \<and> length bs' = length bs \<and>
    (\<forall>b \<in> set bs'. length b = kFileBlock) \<and> take (length C + length s) (concat bs') = C @ s"
proof -
  obtain ps l where bs: "bs = ps @ [l]"
    using ne by (metis append_butlast_last_id)
  have l: "length l = kFileBlock" and ps: "length (concat ps) = kFileBlock * length ps"
    using blocks by (simp_all add: bs length_blocks)
  have "C = concat ps @ take off l"
    using C ps by (simp add: bs)
  then show ?thesis
    using blocks l ps fits by (simp add: store_last_def bs blit_def)
qed

lemma append_loop_holds:
  "file_holds fs C \<Longrightarrow> length C + length src < 2 ^ 64 \<Longrightarrow>
     \<exists>fs'. append_loop src fs = Some fs' \<and> file_holds fs' (C @ src) \<and> refs fs' = refs fs"
proof (induction src fs arbitrary: C rule: append_loop.induct)
  case (1 src fs)
  show ?case
  proof (cases "src = []")
    case True
    with 1 show ?thesis by (simp add: append_loop.simps)
  next
    case False
    define off where "off = unat (fs_size fs) mod kFileBlock"
    define avail where "avail = min (kFileBlock - off) (length src)"
    define fs1 where "fs1 = (if off \<noteq> 0 then fs else fs\<lparr>fs_blocks := fs_blocks fs @ [replicate kFileBlock 0]\<rparr>)"
    have fs: "unat (fs_size fs) = length C" "fs_size fs = word_of_nat (length C)"
      "\<forall>b \<in> set (fs_blocks fs). length b = kFileBlock"
      "length (fs_blocks fs) = length C div kFileBlock + (if length C mod kFileBlock = 0 then 0 else 1)"
      "take (length C) (concat (fs_blocks fs)) = C"
      using "1.prems"(1) file_holds_size by (simp_all add: file_holds_def)
    have off: "off < kFileBlock" and C: "length C = kFileBlock * (length C div kFileBlock) + off"
      by (simp_all add: off_def fs(1) kFileBlock_def)
    have avail: "0 < avail" "avail \<le> length src" "off + avail \<le> kFileBlock"
      using False off by (auto simp: avail_def)
    have fs1: "length (fs_blocks fs1) = length C div kFileBlock + 1" "\<forall>b \<in> set (fs_blocks fs1). length b = kFileBlock"
      "take (length C) (concat (fs_blocks fs1)) = C" "fs_size fs1 = fs_size fs" "refs fs1 = refs fs"
      using fs(3-5) length_blocks [OF fs(3)] C by (auto simp: fs1_def off_def fs(1))
    have ne: "fs_blocks fs1 \<noteq> []"
      using fs1(1) by auto
    obtain bs where bs: "store_last off (take avail src) (fs_blocks fs1) = Some bs"
      "length bs = length (fs_blocks fs1)" "\<forall>b \<in> set bs. length b = kFileBlock"
      "take (length C + avail) (concat bs) = C @ take avail src"
      using store_last_holds [OF fs1(2) ne fs1(3), of off "take avail src"] fs1(1) C avail by auto
    let ?fs = "fs1\<lparr>fs_blocks := bs, fs_size := fs_size fs1 + word_of_nat avail\<rparr>"
    have "file_holds ?fs (C @ take avail src)"
    proof -
      have "length C div kFileBlock + 1 =
          (length C + avail) div kFileBlock + (if (length C + avail) mod kFileBlock = 0 then 0 else 1)"
      proof -
        have "length C + avail = kFileBlock * (length C div kFileBlock) + (off + avail)"
          using C by linarith
        moreover have "(kFileBlock * q + r) div kFileBlock + (if (kFileBlock * q + r) mod kFileBlock = 0 then 0 else 1) = q + 1"
          if "0 < r" "r \<le> kFileBlock" for q r
          using that by (cases "r = kFileBlock") (simp_all add: kFileBlock_def)
        ultimately show ?thesis
          using avail by (metis add_gr_0)
      qed
      then show ?thesis
        using "1.prems"(2) fs(2) fs1(1,4) bs(2-4) avail(2) by (simp add: file_holds_def min_absorb2)
    qed
    moreover have "length (C @ take avail src) + length (drop avail src) < 2 ^ 64"
      using "1.prems"(2) avail(2) by simp
    ultimately have "\<exists>fs'. append_loop (drop avail src) ?fs = Some fs' \<and>
        file_holds fs' ((C @ take avail src) @ drop avail src) \<and> refs fs' = refs ?fs"
      by (rule "1.IH" [OF False off_def fs1_def avail_def bs(1)])
    moreover have "append_loop src fs = append_loop (drop avail src) ?fs"
      by (subst append_loop.simps)
        (simp only: Let_def off_def [symmetric] fs1_def [symmetric] avail_def [symmetric], simp add: False bs(1))
    ultimately show ?thesis
      using fs1(5) by simp
  qed
qed

lemma FileState_Append_holds:
  assumes "file_holds fs C" "length C + length d < 2 ^ 64"
  shows "\<exists>fs'. FileState_Append d fs = Some (OK, fs') \<and> file_holds fs' (C @ d) \<and> refs fs' = refs fs"
  using append_loop_holds [OF assms] by (auto simp: FileState_Append_def)


section \<open>References\<close>

text \<open>How often a name refers to an object, and the bytes an object holds.\<close>

definition named :: "(string \<times> nat) list \<Rightarrow> nat \<Rightarrow> nat" where
  "named m p = count_list (map snd m) p"

definition file_bytes :: "nat \<Rightarrow> mem_env \<Rightarrow> bytes" where
  "file_bytes p env =
    (case deref p env of None \<Rightarrow> [] | Some fs \<Rightarrow> take (unat (fs_size fs)) (concat (fs_blocks fs)))"

definition file_wf :: "FileState \<Rightarrow> bool" where
  "file_wf fs \<longleftrightarrow> (\<exists>C. file_holds fs C)"

definition heap_counts :: "mem_env \<Rightarrow> (nat \<Rightarrow> nat) \<Rightarrow> bool" where
  "heap_counts env n \<longleftrightarrow> (\<forall>p fs. deref p env = Some fs \<longrightarrow> refs fs = int (n p) \<and> file_wf fs) \<and>
     (\<forall>p. deref p env = None \<longrightarrow> n p = 0)"

lemma deref_set_object:
  "deref q (set_object p x env) = (if q = p \<and> p < length (heap env) then x else deref q env)"
  by (auto simp: deref_def set_object_def at_def split: option.split)

lemma deref_file_map [simp]: "deref p (env\<lparr>file_map := m\<rparr>) = deref p env"
  by (simp add: deref_def)

lemma file_map_set_object [simp]: "file_map (set_object p x env) = file_map env"
  by (simp add: set_object_def)

lemma length_heap_set_object [simp]: "length (heap (set_object p x env)) = length (heap env)"
  by (simp add: set_object_def)

lemma deref_bound: "deref p env = Some fs \<Longrightarrow> p < length (heap env)"
  by (auto simp: deref_def at_def split: option.splits if_splits)

lemma file_bytes_holds: "deref p env = Some fs \<Longrightarrow> file_holds fs C \<Longrightarrow> file_bytes p env = C"
  by (simp add: file_bytes_def file_holds_size) (simp add: file_holds_def)

lemma file_wf_refs [simp]: "file_wf (fs\<lparr>refs := n\<rparr>) = file_wf fs"
  by (simp add: file_wf_def file_holds_def)

lemma heap_counts_live: "heap_counts env n \<Longrightarrow> 0 < n p \<Longrightarrow> \<exists>fs. deref p env = Some fs"
  unfolding heap_counts_def by (metis less_irrefl option.exhaust)

lemma Ref_counts:
  assumes n: "heap_counts env n" and fs: "deref p env = Some fs"
  shows "\<exists>env'. Ref p env = Some env' \<and> heap_counts env' (n(p := n p + 1)) \<and> file_map env' = file_map env \<and>
    (\<forall>q. (deref q env' = None) = (deref q env = None)) \<and> (\<forall>q. file_bytes q env' = file_bytes q env)"
proof -
  define e where "e = set_object p (Some (fs\<lparr>refs := refs fs + 1\<rparr>)) env"
  have d: "deref q e = (if q = p then Some (fs\<lparr>refs := refs fs + 1\<rparr>) else deref q env)" for q
    using deref_bound [OF fs] by (simp add: e_def deref_set_object)
  have "heap_counts e (n(p := n p + 1))"
    using n fs by (auto simp: heap_counts_def d)
  moreover have "file_bytes q e = file_bytes q env" for q
    using fs by (simp add: file_bytes_def d)
  ultimately show ?thesis
    using fs by (intro exI [of _ e]) (simp add: Ref_def d, simp add: e_def)
qed

lemma Unref_counts:
  assumes n: "heap_counts env n" and pos: "0 < n p"
  shows "\<exists>env'. Unref p env = Some env' \<and> heap_counts env' (n(p := n p - 1)) \<and> file_map env' = file_map env \<and>
    length (heap env') = length (heap env) \<and>
    (\<forall>q. (deref q env' = None) = (deref q env = None \<or> q = p \<and> n p = 1)) \<and>
    (\<forall>q. (q = p \<longrightarrow> n p > 1) \<longrightarrow> file_bytes q env' = file_bytes q env)"
proof -
  obtain fs where fs: "deref p env = Some fs"
    using heap_counts_live [of env n p, OF assms] by blast
  have refs: "refs fs = int (n p)" "file_wf fs"
    using n fs by (simp_all add: heap_counts_def)
  define x where "x = (if n p = 1 then None else Some (fs\<lparr>refs := refs fs - 1\<rparr>))"
  define e where "e = set_object p x env"
  have run: "Unref p env = Some e"
    using pos by (simp add: Unref_def fs refs Let_def x_def e_def)
  have d: "deref q e = (if q = p then x else deref q env)" for q
    using deref_bound [OF fs] by (simp add: e_def deref_set_object)
  have "heap_counts e (n(p := n p - 1))"
    using n pos refs by (auto simp: heap_counts_def d x_def)
  moreover have "file_bytes q e = file_bytes q env" if "q = p \<longrightarrow> n p > 1" for q
    using that fs by (auto simp: file_bytes_def d x_def)
  ultimately show ?thesis
    using run fs by (intro exI [of _ e]) (auto simp: d x_def, simp_all add: e_def)
qed

text \<open>The map of the names.\<close>

lemma map_of_put: "sorted_wrt (<) (map fst m) \<Longrightarrow> map_of (map_put k v m) = (map_of m)(k \<mapsto> v)"
  by (induction m) (auto simp: fun_eq_iff map_of_eq_None_iff [THEN iffD2] fst_eq_Domain Domain_iff)

lemma keys_put: "fst ` set (map_put k v m) = insert k (fst ` set m)"
  by (induction k v m rule: map_put.induct) auto

lemma sorted_put: "sorted_wrt (<) (map fst m) \<Longrightarrow> sorted_wrt (<) (map fst (map_put k v m))"
proof (induction m)
  case (Cons e m)
  obtain k' v' where e: "e = (k', v')" by (cases e)
  have "\<forall>x \<in> fst ` set (map_put k v m). k' < x" if "k' < k"
    using Cons.prems that by (auto simp: keys_put e)
  with Cons e show ?case
    by (auto dest: less_trans)
qed simp

lemma named_put: "k \<notin> fst ` set m \<Longrightarrow> named (map_put k v m) = (named m)(v := named m v + 1)"
  by (induction m) (auto simp: named_def fun_eq_iff)

lemma map_of_erase: "map_of (map_erase k m) = (map_of m)(k := None)"
  by (induction m) (auto simp: map_erase_def fun_eq_iff)

lemma sorted_erase: "sorted_wrt (<) (map fst m) \<Longrightarrow> sorted_wrt (<) (map fst (map_erase k m))"
  by (induction m) (auto simp: map_erase_def)

lemma erase_absent: "k \<notin> fst ` set m \<Longrightarrow> map_erase k m = m"
  by (induction m) (auto simp: map_erase_def)

lemma named_erase:
  "sorted_wrt (<) (map fst m) \<Longrightarrow> map_of m k = Some v \<Longrightarrow>
     0 < named m v \<and> named (map_erase k m) = (named m)(v := named m v - 1)"
proof (induction m)
  case (Cons e m)
  obtain k' v' where e: "e = (k', v')" by (cases e)
  show ?case
  proof (cases "k' = k")
    case True
    have "map_erase k m = m"
      using Cons.prems(1) e True by (intro erase_absent) auto
    moreover have "map_erase k (e # m) = map_erase k m" "v' = v"
      using Cons.prems(2) e True by (simp_all add: map_erase_def)
    ultimately show ?thesis
      using e by (auto simp: named_def fun_eq_iff)
  next
    case False
    then have "map_erase k (e # m) = e # map_erase k m" "map_of m k = Some v"
      using Cons.prems(2) e by (simp_all add: map_erase_def)
    moreover have "0 < named m v \<and> named (map_erase k m) = (named m)(v := named m v - 1)"
      using Cons.prems(1) by (intro Cons.IH \<open>map_of m k = Some v\<close>) simp
    ultimately show ?thesis
      using e by (auto simp: named_def fun_eq_iff)
  qed
qed simp


section \<open>Runs of the environment\<close>

text \<open>
  What the clients of the environment do, with the addresses of the objects that open files hold. Closing
  a file is its destructor.
\<close>

datatype env_op =
    New_writable string
  | New_sequential string
  | New_random string
  | Append_to nat bytes
  | Close nat
  | Delete string
  | Rename string string

fun env_step :: "env_op \<Rightarrow> mem_env \<Rightarrow> nat list \<Rightarrow> (mem_env \<times> nat list) option" where
  "env_step (New_writable f) env H = do { (st, p, env) \<leftarrow> NewWritableFile f env; Some (env, p # H) }"
| "env_step (New_sequential f) env H = do {
     (st, s, env) \<leftarrow> NewSequentialFile f env;
     Some (env, case s of None \<Rightarrow> H | Some s \<Rightarrow> sf_file s # H)
   }"
| "env_step (New_random f) env H = do {
     (st, r, env) \<leftarrow> NewRandomAccessFile f env;
     Some (env, case r of None \<Rightarrow> H | Some p \<Rightarrow> p # H)
   }"
| "env_step (Append_to p d) env H = do { (st, env) \<leftarrow> WritableFile_Append d p env; Some (env, H) }"
| "env_step (Close p) env H = do { env \<leftarrow> Unref p env; Some (env, remove1 p H) }"
| "env_step (Delete f) env H = do { (st, env) \<leftarrow> DeleteFile f env; Some (env, H) }"
| "env_step (Rename f g) env H = do { (st, env) \<leftarrow> RenameFile f g env; Some (env, H) }"

fun allowed :: "env_op \<Rightarrow> mem_env \<Rightarrow> nat list \<Rightarrow> bool" where
  "allowed (Append_to p d) env H \<longleftrightarrow> p \<in> set H \<and> length (file_bytes p env) + length d < 2 ^ 64"
| "allowed (Close p) env H \<longleftrightarrow> p \<in> set H"
| "allowed op env H \<longleftrightarrow> True"

inductive env_reachable :: "mem_env \<Rightarrow> nat list \<Rightarrow> bool" where
  start: "env_reachable NewMemEnv []"
| step: "env_reachable env H \<Longrightarrow> allowed op env H \<Longrightarrow> env_step op env H = Some (env', H') \<Longrightarrow> env_reachable env' H'"

definition env_inv :: "mem_env \<Rightarrow> nat list \<Rightarrow> bool" where
  "env_inv env H \<longleftrightarrow> heap env \<noteq> [] \<and> sorted_wrt (<) (map fst (file_map env)) \<and>
     heap_counts env (\<lambda>p. named (file_map env) p + count_list H p) \<and>
     (\<forall>p. deref p env \<noteq> None \<longrightarrow> 0 < named (file_map env) p + count_list H p)"

text \<open>The abstract file system: the contents under each name, and what the operations make of it.\<close>

definition directory :: "mem_env \<Rightarrow> string \<Rightarrow> bytes option" where
  "directory env f = map_option (\<lambda>p. file_bytes p env) (map_of (file_map env) f)"

fun op_directory :: "env_op \<Rightarrow> mem_env \<Rightarrow> string \<Rightarrow> bytes option" where
  "op_directory (New_writable f) env = (directory env)(f \<mapsto> [])"
| "op_directory (Append_to p d) env =
    (\<lambda>f. if map_of (file_map env) f = Some p then Some (file_bytes p env @ d) else directory env f)"
| "op_directory (Delete f) env = (directory env)(f := None)"
| "op_directory (Rename f g) env =
    (if directory env f = None then directory env
     else (directory env)(g := directory env f, f := None))"
| "op_directory op env = directory env"

fun op_bytes :: "env_op \<Rightarrow> nat \<Rightarrow> bytes" where
  "op_bytes (Append_to q d) p = (if q = p then d else [])"
| "op_bytes op p = []"

definition step_ok :: "env_op \<Rightarrow> mem_env \<Rightarrow> nat list \<Rightarrow> bool" where
  "step_ok op env H \<longleftrightarrow> (\<exists>env' H'. env_step op env H = Some (env', H') \<and> env_inv env' H' \<and>
     directory env' = op_directory op env \<and>
     (\<forall>p \<in> set H \<inter> set H'. file_bytes p env' = file_bytes p env @ op_bytes op p))"

lemma count_pos: "p \<in> set H \<Longrightarrow> 0 < count_list H p"
  by (induction H) auto

lemma count_remove1: "p \<in> set H \<Longrightarrow> count_list (remove1 p H) = (count_list H)(p := count_list H p - 1)"
  by (induction H) (auto simp: fun_eq_iff count_pos)

lemma named_pos: "map_of m k = Some p \<Longrightarrow> 0 < named m p"
  by (induction m) (auto simp: named_def split: if_splits)

lemma env_invD:
  assumes "env_inv env H"
  shows "heap env \<noteq> []" "sorted_wrt (<) (map fst (file_map env))"
    "heap_counts env (\<lambda>p. named (file_map env) p + count_list H p)"
    "\<And>p. deref p env \<noteq> None \<Longrightarrow> 0 < named (file_map env) p + count_list H p"
  using assms by (simp_all add: env_inv_def)

lemma heap_Ref: "Ref p env = Some env' \<Longrightarrow> length (heap env') = length (heap env)"
  by (auto simp: Ref_def split: Option.bind_splits)

text \<open>A further reference to an object that has one.\<close>

lemma open_ok:
  assumes inv: "env_inv env H" and name: "map_of (file_map env) f = Some p"
  shows "\<exists>env'. Ref p env = Some env' \<and> env_inv env' (p # H) \<and> file_map env' = file_map env \<and>
    (\<forall>q. file_bytes q env' = file_bytes q env)"
proof -
  let ?n = "\<lambda>q. named (file_map env) q + count_list H q"
  note n = env_invD(3) [OF inv]
  then obtain fs where "deref p env = Some fs"
    using heap_counts_live [of env ?n p] named_pos [OF name] by auto
  from Ref_counts [OF n this] obtain env' where env': "Ref p env = Some env'"
    "heap_counts env' (?n(p := ?n p + 1))" "file_map env' = file_map env"
    "\<And>q. (deref q env' = None) = (deref q env = None)" "\<And>q. file_bytes q env' = file_bytes q env"
    by blast
  have "(\<lambda>q. named (file_map env) q + count_list (p # H) q) = ?n(p := ?n p + 1)"
    by (auto simp: fun_eq_iff)
  moreover have "heap env' \<noteq> []"
    using heap_Ref [OF env'(1)] env_invD(1) [OF inv] by auto
  ultimately have "env_inv env' (p # H)"
    using inv env'(2-4) by (auto simp: env_inv_def)
  with env'(1,3,5) show ?thesis by blast
qed

text \<open>Giving up a reference, to a name or to an open file.\<close>

lemma release_ok:
  assumes inv: "env_inv env H" and pos: "0 < named (file_map env) p + count_list H p"
    and m: "sorted_wrt (<) (map fst m)"
    and less: "(\<lambda>q. named m q + count_list H' q) =
      (\<lambda>q. named (file_map env) q + count_list H q)(p := named (file_map env) p + count_list H p - 1)"
  shows "\<exists>env'. Unref p env = Some env' \<and> file_map env' = file_map env \<and> env_inv (env'\<lparr>file_map := m\<rparr>) H' \<and>
    (\<forall>q. 0 < named m q + count_list H' q \<longrightarrow> file_bytes q env' = file_bytes q env)"
proof -
  let ?n = "\<lambda>q. named (file_map env) q + count_list H q" and ?n' = "\<lambda>q. named m q + count_list H' q"
  obtain env' where env': "Unref p env = Some env'" "heap_counts env' (?n(p := ?n p - 1))"
    "file_map env' = file_map env" "length (heap env') = length (heap env)"
    "\<And>q. (deref q env' = None) = (deref q env = None \<or> q = p \<and> ?n p = 1)"
    "\<And>q. q = p \<longrightarrow> ?n p > 1 \<Longrightarrow> file_bytes q env' = file_bytes q env"
    using Unref_counts [OF env_invD(3) [OF inv] pos] by blast
  have less': "?n' q = (if q = p then ?n p - 1 else ?n q)" for q
    using fun_cong [OF less, of q] by simp
  have "env_inv (env'\<lparr>file_map := m\<rparr>) H'"
    unfolding env_inv_def
  proof (intro conjI allI impI)
    show "heap (env'\<lparr>file_map := m\<rparr>) \<noteq> []"
      using env'(4) env_invD(1) [OF inv] by auto
    show "heap_counts (env'\<lparr>file_map := m\<rparr>) (\<lambda>q. named (file_map (env'\<lparr>file_map := m\<rparr>)) q + count_list H' q)"
      using env'(2) less by (simp add: heap_counts_def)
    show "0 < named (file_map (env'\<lparr>file_map := m\<rparr>)) q + count_list H' q" if "deref q (env'\<lparr>file_map := m\<rparr>) \<noteq> None" for q
      using that env'(5) [of q] env_invD(4) [OF inv, of q] less' [of q] pos by (cases "q = p") auto
  qed (simp add: m)
  moreover have "file_bytes q env' = file_bytes q env" if "0 < ?n' q" for q
    using that less' [of q] by (intro env'(6)) auto
  ultimately show ?thesis
    using env'(1,3) by blast
qed

lemma file_bytes_map [simp]: "file_bytes p (env\<lparr>file_map := m\<rparr>) = file_bytes p env"
  by (simp add: file_bytes_def)

lemma delete_ok:
  assumes inv: "env_inv env H"
  shows "\<exists>env'. DeleteFileInternal f env = Some env' \<and> env_inv env' H \<and>
    file_map env' = map_erase f (file_map env) \<and>
    (\<forall>q. 0 < named (file_map env') q + count_list H q \<longrightarrow> file_bytes q env' = file_bytes q env)"
proof (cases "map_of (file_map env) f")
  case None
  then have "map_erase f (file_map env) = file_map env"
    by (intro erase_absent) (simp add: map_of_eq_None_iff)
  with None inv show ?thesis
    by (simp add: DeleteFileInternal_def)
next
  case (Some p)
  let ?m = "map_erase f (file_map env)"
  note sorted = env_invD(2) [OF inv]
  have named: "0 < named (file_map env) p" "named ?m = (named (file_map env))(p := named (file_map env) p - 1)"
    using named_erase [OF sorted Some] by auto
  have "(\<lambda>q. named ?m q + count_list H q) = (\<lambda>q. named (file_map env) q + count_list H q)
      (p := named (file_map env) p + count_list H p - 1)"
    using named by (auto simp: fun_eq_iff)
  from release_ok [OF inv _ sorted_erase [OF sorted] this] named(1) obtain env'
    where env': "Unref p env = Some env'" "file_map env' = file_map env" "env_inv (env'\<lparr>file_map := ?m\<rparr>) H"
      "\<And>q. 0 < named ?m q + count_list H q \<Longrightarrow> file_bytes q env' = file_bytes q env"
    by auto
  then show ?thesis
    by (intro exI [of _ "env'\<lparr>file_map := ?m\<rparr>"]) (simp add: DeleteFileInternal_def Some)
qed

lemma live_bytes: "p \<in> set H \<Longrightarrow> 0 < named m p + count_list H p"
  using count_pos [of p H] by simp

lemma directory_names:
  assumes "\<And>f p. map_of (file_map env') f = Some p \<Longrightarrow> file_bytes p env' = file_bytes p env"
  shows "directory env' f = map_option (\<lambda>p. file_bytes p env) (map_of (file_map env') f)"
  using assms by (cases "map_of (file_map env') f") (simp_all add: directory_def)

lemma delete_step: "env_inv env H \<Longrightarrow> step_ok (Delete f) env H"
proof -
  assume inv: "env_inv env H"
  obtain env' where env': "DeleteFileInternal f env = Some env'" "env_inv env' H"
    "file_map env' = map_erase f (file_map env)"
    "\<And>q. 0 < named (file_map env') q + count_list H q \<Longrightarrow> file_bytes q env' = file_bytes q env"
    using delete_ok [OF inv] by blast
  have "directory env' = (directory env)(f := None)"
  proof
    fix g
    show "directory env' g = ((directory env)(f := None)) g"
      using env'(4) named_pos [of "file_map env'"]
      by (subst directory_names [of env' env]) (auto simp: env'(3) map_of_erase directory_def)
  qed
  moreover have "\<exists>st. env_step (Delete f) env H = Some (env', H)"
  proof (cases "map_of (file_map env) f")
    case None
    then have "env' = env"
      using env'(1) by (simp add: DeleteFileInternal_def)
    with None show ?thesis by (simp add: DeleteFile_def)
  next
    case (Some p)
    with env'(1) show ?thesis by (simp add: DeleteFile_def)
  qed
  ultimately show ?thesis
    using env'(2,4) live_bytes by (auto simp: step_ok_def)
qed

lemma close_step: "env_inv env H \<Longrightarrow> p \<in> set H \<Longrightarrow> step_ok (Close p) env H"
proof -
  assume inv: "env_inv env H" and p: "p \<in> set H"
  have "(\<lambda>q. named (file_map env) q + count_list (remove1 p H) q) =
      (\<lambda>q. named (file_map env) q + count_list H q)(p := named (file_map env) p + count_list H p - 1)"
    using count_pos [OF p] by (auto simp: fun_eq_iff count_remove1 [OF p])
  from release_ok [OF inv live_bytes [OF p] env_invD(2) [OF inv] this] obtain env'
    where env': "Unref p env = Some env'" "file_map env' = file_map env"
      "env_inv (env'\<lparr>file_map := file_map env\<rparr>) (remove1 p H)"
      "\<And>q. 0 < named (file_map env) q + count_list (remove1 p H) q \<Longrightarrow> file_bytes q env' = file_bytes q env"
    by blast
  have same: "env'\<lparr>file_map := file_map env\<rparr> = env'"
    using env'(2) by simp
  have "directory env' g = directory env g" for g
    using env'(4) named_pos [of "file_map env"]
    by (subst directory_names [of env' env]) (auto simp: env'(2) directory_def)
  then have "directory env' = directory env" ..
  moreover have "file_bytes q env' = file_bytes q env" if "q \<in> set (remove1 p H)" for q
    using that by (intro env'(4) live_bytes)
  ultimately show ?thesis
    using env'(1,3) by (auto simp: step_ok_def same)
qed

lemma new_step:
  assumes inv: "env_inv env H" and new: "f \<notin> fst ` set (file_map env)"
    and e: "e = env\<lparr>heap := heap env @ [Some new_FileState]\<rparr>" and p: "p = length (heap env)"
  shows "\<exists>env1 env2. Ref p e = Some env1 \<and> Ref p (env1\<lparr>file_map := map_put f p (file_map env1)\<rparr>) = Some env2 \<and>
    env_inv env2 (p # H) \<and> file_map env2 = map_put f p (file_map env) \<and>
    (\<forall>q. file_bytes q env2 = file_bytes q env)"
proof -
  let ?n = "\<lambda>q. named (file_map env) q + count_list H q"
  have none: "deref p env = None"
    by (simp add: deref_def at_def p)
  then have n0: "?n p = 0"
    using env_invD(3) [OF inv] by (simp add: heap_counts_def)
  have d: "deref q e = (if q = p then Some new_FileState else deref q env)" for q
    by (auto simp: deref_def at_def e p nth_append)
  have bytes: "file_bytes q e = file_bytes q env" for q
    using none by (simp add: file_bytes_def d new_FileState_def)
  have "heap_counts e ?n"
    using env_invD(3) [OF inv] n0 file_holds_new
    by (auto simp: heap_counts_def d file_wf_def) (auto simp: new_FileState_def)
  from Ref_counts [OF this, of p new_FileState] d [of p] have "\<exists>env1. Ref p e = Some env1 \<and>
      heap_counts env1 (?n(p := ?n p + 1)) \<and> file_map env1 = file_map e \<and>
      (\<forall>q. (deref q env1 = None) = (deref q e = None)) \<and> (\<forall>q. file_bytes q env1 = file_bytes q e)"
    by simp
  then obtain env1
    where env1: "Ref p e = Some env1" "heap_counts env1 (?n(p := 1))" "file_map env1 = file_map env"
      "\<And>q. (deref q env1 = None) = (deref q e = None)" "\<And>q. file_bytes q env1 = file_bytes q e"
    unfolding n0 by (auto simp: e)
  let ?e = "env1\<lparr>file_map := map_put f p (file_map env1)\<rparr>"
  have "heap_counts ?e (?n(p := 1))"
    using env1(2) by (simp add: heap_counts_def)
  moreover obtain fs where "deref p ?e = Some fs"
    using env1(4) [of p] by (cases "deref p env1") (simp_all add: d)
  ultimately obtain env2 where env2: "Ref p ?e = Some env2" "heap_counts env2 (?n(p := 2))"
      "file_map env2 = map_put f p (file_map env)"
      "\<And>q. (deref q env2 = None) = (deref q env1 = None)" "\<And>q. file_bytes q env2 = file_bytes q env1"
    using Ref_counts [of ?e "?n(p := 1)" p fs] by (auto simp: env1(3) numeral_2_eq_2)
  have cnt: "(\<lambda>q. named (map_put f p (file_map env)) q + count_list (p # H) q) = ?n(p := 2)"
    using n0 by (auto simp: fun_eq_iff named_put [OF new])
  have "env_inv env2 (p # H)"
    unfolding env_inv_def
  proof (intro conjI allI impI)
    show "heap env2 \<noteq> []"
      using heap_Ref [OF env2(1)] heap_Ref [OF env1(1)] by (auto simp: e)
    show "sorted_wrt (<) (map fst (file_map env2))"
      using sorted_put [OF env_invD(2) [OF inv]] by (simp add: env2(3))
    show "heap_counts env2 (\<lambda>q. named (file_map env2) q + count_list (p # H) q)"
      using env2(2) cnt by (simp add: env2(3))
    show "0 < named (file_map env2) q + count_list (p # H) q" if "deref q env2 \<noteq> None" for q
      using that env2(4) [of q] env1(4) [of q] env_invD(4) [OF inv, of q] fun_cong [OF cnt, of q]
      by (auto simp: env2(3) d split: if_splits)
  qed
  then show ?thesis
    using env1 env2 bytes by auto
qed

lemma create_step: "env_inv env H \<Longrightarrow> step_ok (New_writable f) env H"
proof -
  assume inv: "env_inv env H"
  obtain env0 where env0: "DeleteFileInternal f env = Some env0" "env_inv env0 H"
    "file_map env0 = map_erase f (file_map env)"
    "\<And>q. 0 < named (file_map env0) q + count_list H q \<Longrightarrow> file_bytes q env0 = file_bytes q env"
    using delete_ok [OF inv] by blast
  have guard: "(if map_of (file_map env) f \<noteq> None then DeleteFileInternal f env else Some env) = Some env0"
    using env0(1) by (auto simp: DeleteFileInternal_def)
  have new: "f \<notin> fst ` set (file_map env0)"
    by (auto simp: env0(3) map_erase_def)
  let ?p = "length (heap env0)"
  obtain env1 env2 where ref: "Ref ?p (env0\<lparr>heap := heap env0 @ [Some new_FileState]\<rparr>) = Some env1"
    "Ref ?p (env1\<lparr>file_map := map_put f ?p (file_map env1)\<rparr>) = Some env2" "env_inv env2 (?p # H)"
    "file_map env2 = map_put f ?p (file_map env0)" "\<And>q. file_bytes q env2 = file_bytes q env0"
    using new_step [OF env0(2) new refl refl] by blast
  have none: "file_bytes ?p env0 = []"
    by (simp add: file_bytes_def deref_def at_def)
  have "directory env2 g = ((directory env)(f \<mapsto> [])) g" for g
  proof -
    have "map_of (file_map env2) = (map_of (file_map env0))(f \<mapsto> ?p)"
      using map_of_put [OF env_invD(2) [OF env0(2)]] by (simp add: ref(4))
    moreover have "file_bytes q env0 = file_bytes q env" if "map_of (file_map env0) g = Some q" for q
      using named_pos [OF that] by (intro env0(4)) simp
    ultimately show ?thesis
      using none by (cases "map_of (file_map env0) g")
        (auto simp: directory_def ref(5) env0(3) map_of_erase split: if_splits)
  qed
  then have dir: "directory env2 = (directory env)(f \<mapsto> [])" ..
  have bytes: "file_bytes q env2 = file_bytes q env" if "q \<in> set H" for q
    using env0(4) [OF live_bytes [OF that]] by (simp add: ref(5))
  have "env_step (New_writable f) env H = Some (env2, ?p # H)"
    unfolding env_step.simps NewWritableFile_def guard by (simp add: ref(1,2) Let_def)
  with ref(3) dir bytes show ?thesis
    by (auto simp: step_ok_def)
qed

lemma open_step:
  assumes inv: "env_inv env H"
  shows "step_ok (New_sequential f) env H" "step_ok (New_random f) env H"
proof -
  have "step_ok (New_sequential f) env H \<and> step_ok (New_random f) env H"
  proof (cases "map_of (file_map env) f")
    case None
    with inv show ?thesis
      by (simp add: step_ok_def NewSequentialFile_def NewRandomAccessFile_def)
  next
    case (Some p)
    obtain env' where env': "Ref p env = Some env'" "env_inv env' (p # H)" "file_map env' = file_map env"
      "\<And>q. file_bytes q env' = file_bytes q env"
      using open_ok [OF inv Some] by blast
    then have "directory env' = directory env"
      by (simp add: directory_def fun_eq_iff)
    with Some env' show ?thesis
      by (simp add: step_ok_def NewSequentialFile_def NewRandomAccessFile_def new_SequentialFile_def)
  qed
  then show "step_ok (New_sequential f) env H" "step_ok (New_random f) env H" by auto
qed

lemma append_step:
  assumes inv: "env_inv env H" and p: "p \<in> set H" and room: "length (file_bytes p env) + length d < 2 ^ 64"
  shows "step_ok (Append_to p d) env H"
proof -
  let ?n = "\<lambda>q. named (file_map env) q + count_list H q"
  obtain fs where fs: "deref p env = Some fs"
    using heap_counts_live [OF env_invD(3) [OF inv] live_bytes [OF p]] by blast
  have refs: "refs fs = int (?n p)" and "file_wf fs"
    using env_invD(3) [OF inv] fs unfolding heap_counts_def by blast+
  then obtain C where C: "file_holds fs C"
    by (auto simp: file_wf_def)
  have bytes: "file_bytes p env = C"
    by (rule file_bytes_holds [OF fs C])
  obtain fs' where fs': "FileState_Append d fs = Some (OK, fs')" "file_holds fs' (C @ d)" "refs fs' = refs fs"
    using FileState_Append_holds [OF C] room bytes by auto
  define e where "e = set_object p (Some fs') env"
  have de: "deref q e = (if q = p then Some fs' else deref q env)" for q
    using deref_bound [OF fs] by (simp add: e_def deref_set_object)
  have map: "file_map e = file_map env"
    by (simp add: e_def)
  have be: "file_bytes q e = (if q = p then C @ d else file_bytes q env)" for q
    using file_bytes_holds [OF _ fs'(2), of p e] by (auto simp: de) (simp add: file_bytes_def de)
  have "env_inv e H"
    unfolding env_inv_def map
  proof (intro conjI allI impI)
    show "heap e \<noteq> []"
      using env_invD(1) [OF inv] by (simp add: e_def set_object_def)
    show "heap_counts e ?n"
      using env_invD(3) [OF inv] fs' refs fs by (auto simp: heap_counts_def de file_wf_def)
    show "0 < ?n q" if "deref q e \<noteq> None" for q
      using that env_invD(4) [OF inv, of q] fs by (auto simp: de split: if_splits)
  qed (rule env_invD(2) [OF inv])
  moreover have "directory e = op_directory (Append_to p d) env"
  proof
    fix f
    show "directory e f = op_directory (Append_to p d) env f"
      by (cases "map_of (file_map env) f") (auto simp: directory_def map be bytes)
  qed
  moreover have "env_step (Append_to p d) env H = Some (e, H)"
    by (simp add: WritableFile_Append_def fs fs'(1) e_def)
  ultimately show ?thesis
    using bytes by (auto simp: step_ok_def be)
qed

lemma erase_put: "map_erase k (map_put k v m) = map_erase k m"
  by (induction k v m rule: map_put.induct) (auto simp: map_erase_def)

lemma rename_step: "env_inv env H \<Longrightarrow> step_ok (Rename f g) env H"
proof -
  assume inv: "env_inv env H"
  show ?thesis
  proof (cases "map_of (file_map env) f")
    case None
    then show ?thesis
      using inv by (simp add: step_ok_def RenameFile_def directory_def)
  next
    case (Some p)
    obtain env0 where env0: "DeleteFileInternal g env = Some env0" "env_inv env0 H"
      "file_map env0 = map_erase g (file_map env)"
      "\<And>q. 0 < named (file_map env0) q + count_list H q \<Longrightarrow> file_bytes q env0 = file_bytes q env"
      using delete_ok [OF inv] by blast
    define m where "m = map_erase f (map_put g (fst (map_index f (file_map env0))) (snd (map_index f (file_map env0))))"
    let ?e = "env0\<lparr>file_map := m\<rparr>"
    have run: "env_step (Rename f g) env H = Some (?e, H)"
      using Some env0(1) by (simp add: RenameFile_def m_def Let_def case_prod_beta)
    note sorted = env_invD(2) [OF env0(2)]
    have g: "g \<notin> fst ` set (file_map env0)"
      by (auto simp: env0(3) map_erase_def)
    have m: "sorted_wrt (<) (map fst m) \<and> named m = named (file_map env0) \<and>
      map_of m = (if f = g then map_of (file_map env0) else (map_of (file_map env0))(g \<mapsto> p, f := None))"
    proof (cases "f = g")
      case True
      let ?m1 = "map_put f 0 (file_map env0)"
      have i: "map_index f (file_map env0) = (0, ?m1)"
        using g True by (simp add: map_index_def map_of_eq_None_iff [THEN iffD2])
      have e1: "map_erase f (map_put f 0 ?m1) = file_map env0"
        using g True by (simp add: erase_put erase_absent)
      then show ?thesis
        using True sorted by (simp add: m_def i [unfolded True])
    next
      case False
      then have p: "map_of (file_map env0) f = Some p"
        using Some by (simp add: env0(3) map_of_erase)
      then have i: "map_index f (file_map env0) = (p, file_map env0)"
        by (simp add: map_index_def)
      let ?m1 = "map_put g p (file_map env0)"
      have "map_of ?m1 f = Some p"
        using False p by (simp add: map_of_put [OF sorted])
      then have "named (map_erase f ?m1) = (named ?m1)(p := named ?m1 p - 1)"
        using named_erase [OF sorted_put [OF sorted]] by blast
      then show ?thesis
        using False by (auto simp: m_def i sorted_erase sorted_put sorted named_put [OF g] map_of_erase map_of_put)
    qed
    have "env_inv ?e H"
      using env0(2) m by (simp add: env_inv_def heap_counts_def)
    moreover have "directory ?e h = op_directory (Rename f g) env h" for h
    proof -
      have "file_bytes q env0 = file_bytes q env" if "map_of m h = Some q" for q
        using named_pos [OF that] m by (intro env0(4)) simp
      then have "directory ?e h = map_option (\<lambda>p. file_bytes p env) (map_of m h)"
        by (cases "map_of m h") (simp_all add: directory_def)
      then show ?thesis
        using Some m by (auto simp: directory_def env0(3) map_of_erase)
    qed
    then have "directory ?e = op_directory (Rename f g) env" ..
    moreover have "file_bytes q ?e = file_bytes q env" if "q \<in> set H" for q
      using env0(4) [OF live_bytes [OF that]] by simp
    ultimately show ?thesis
      using run by (auto simp: step_ok_def)
  qed
qed

lemma env_inv_step: "env_inv env H \<Longrightarrow> allowed op env H \<Longrightarrow> step_ok op env H"
  by (cases op) (simp_all add: create_step open_step append_step close_step delete_step rename_step)

lemma env_inv_new: "env_inv NewMemEnv []"
  by (auto simp: env_inv_def NewMemEnv_def heap_counts_def deref_def at_def named_def)

lemma env_reachable_inv: "env_reachable env H \<Longrightarrow> env_inv env H"
proof (induction rule: env_reachable.induct)
  case start
  show ?case by (rule env_inv_new)
next
  case (step env H op env' H')
  then show ?case
    using env_inv_step [of env H op] by (auto simp: step_ok_def)
qed

lemma named_iff: "0 < named m p \<longleftrightarrow> p \<in> snd ` set m"
  by (induction m) (auto simp: named_def)

lemma reachable_live:
  assumes "env_reachable env H"
  shows "deref p env \<noteq> None \<longleftrightarrow> p \<in> snd ` set (file_map env) \<union> set H"
proof -
  note inv = env_reachable_inv [OF assms]
  have "deref p env \<noteq> None \<longleftrightarrow> 0 < named (file_map env) p + count_list H p"
    using env_invD(4) [OF inv, of p] heap_counts_live [OF env_invD(3) [OF inv], of p] by auto
  then show ?thesis
    using count_pos [of p H] named_iff [of "file_map env" p] by (auto simp: count_list_0_iff)
qed


section \<open>Properties\<close>

text \<open>
  C40. The files in memory are never used after they are deleted. In every state that the operations of
  the environment reach, an object is on the heap exactly if a name or an open file refers to it; every
  operation on open files returns, with no access to a deleted object or outside a block; the names and
  contents change as in an abstract directory; and the bytes behind every file that stays open are kept,
  those of the file appended to extended, even if its name has been deleted or renamed meanwhile.
\<close>

theorem leveldb_mem_env:
  assumes "env_reachable env H" "allowed op env H"
  shows "(\<forall>p. deref p env \<noteq> None \<longleftrightarrow> p \<in> snd ` set (file_map env) \<union> set H) \<and>
    (\<exists>env' H'. env_step op env H = Some (env', H') \<and> directory env' = op_directory op env \<and>
       (\<forall>p \<in> set H \<inter> set H'. file_bytes p env' = file_bytes p env @ op_bytes op p))"
  using reachable_live [OF assms(1)] env_inv_step [OF env_reachable_inv [OF assms(1)] assms(2)]
  by (auto simp: step_ok_def)

theorem leveldb_mem_env_witness:
  "\<exists>env H. env_step (New_writable ''a'') NewMemEnv [] = Some (env, H) \<and> directory env ''a'' = Some []"
  using leveldb_mem_env [OF env_reachable.start, of "New_writable ''a''"] by auto

end
