(* ===== verification/Spec2Isabelle.thy ===== *)
theory Spec2Isabelle
  imports Hash_Vectors Bitcoin_Address Console Leveldb_Crc32c Leveldb_Env
begin

text \<open>
  A verification of BitcoinAnalysis, the program under \<open>src/BitcoinAnalysis\<close> that reads the block
  files of a Bitcoin node, stores transactions in LevelDB and MySQL, groups addresses into entities
  and computes statistics.

  \<^item> \<open>Prelude\<close>: integer types, little-endian views, byte arrays, checked accesses.
  \<^item> \<open>Merkle_Damgard\<close>: the iterated hash that SHA-256 and RIPEMD-160 both are, as a locale.
  \<^item> \<open>Sha256\<close>: the SHA-256 of \<open>hash.h\<close> and its equality with FIPS 180-4.
  \<^item> \<open>Hash_Vectors\<close>: a published test vector evaluated in the kernel.
\<close>

end
